(* ===== verification/KV_Prelude.thy ===== *)
theory KV_Prelude
  imports Main "HOL-Library.Word"
begin

text \<open>
  Shared vocabulary of the kvjet development.

  \<^item> \<open>kv_error\<close> names every way a C++ operation of the repository can fail to return
    normally: a thrown exception (\<open>Runtime_Error\<close> with the literal of the \<open>throw\<close>
    expression, \<open>Length_Error\<close> for \<open>reserve\<close> beyond \<open>max_size\<close>, \<open>Invalid_Argument\<close>
    and \<open>Out_Of_Range\<close> for \<open>std::stoull\<close>), undefined behaviour (\<open>UB\<close>), a thread
    that waits for a mutex it holds itself (\<open>Deadlock\<close>), and a loop that never ends, for instance
    because it polls for bytes that never come (\<open>Hang\<close>).
  \<^item> \<open>'a res\<close> is the result of an operation that may fail; \<open>bindE\<close> sequences two.
  \<^item> \<open>to_string\<close> and \<open>int_to_string\<close> are \<open>std::to_string\<close>; \<open>dec_value\<close> reads a
    decimal numeral back, and the lemmas relate the two.
  \<^item> \<open>split_ws\<close> is repeated extraction by \<open>operator>>\<close> from a string stream.
\<close>

section \<open>Results\<close>

datatype ub =
    Nullopt_Deref    \<comment> \<open>\<open>*opt\<close> or \<open>opt->\<close> on an empty \<open>std::optional\<close>\<close>
  | Null_Deref       \<comment> \<open>dereference of a null pointer\<close>
  | Out_Of_Bounds    \<comment> \<open>\<open>operator[]\<close> of a vector beyond its size\<close>
  | End_Deref        \<comment> \<open>dereference of an \<open>end()\<close> iterator\<close>
  | Dangling         \<comment> \<open>use of an iterator whose element was erased\<close>
  | Signed_Overflow  \<comment> \<open>overflow of a signed integer\<close>
  | Div_By_Zero      \<comment> \<open>integer \<open>/\<close> or \<open>%\<close> by zero\<close>
  | Uninitialised    \<comment> \<open>use of a variable that was never assigned\<close>

datatype kv_error =
    Runtime_Error string
  | Length_Error
  | Invalid_Argument
  | Out_Of_Range
  | UB ub
  | Deadlock
  | Hang

type_synonym 'a res = "kv_error + 'a"
type_synonym u16 = "16 word"
type_synonym u32 = "32 word"
type_synonym u64 = "64 word"

definition bindE :: "'a res \<Rightarrow> ('a \<Rightarrow> 'b res) \<Rightarrow> 'b res" where
  "bindE r f = (case r of Inl e \<Rightarrow> Inl e | Inr x \<Rightarrow> f x)"

lemma bindE_simps [simp]:
  "bindE (Inl e) f = Inl e"
  "bindE (Inr x) f = f x"
  by (simp_all add: bindE_def)

lemma bindE_Inr_iff: "bindE r f = Inr y \<longleftrightarrow> (\<exists>x. r = Inr x \<and> f x = Inr y)"
  by (cases r) auto

lemma bindE_InrE:
  assumes "bindE r f = Inr y"
  obtains x where "r = Inr x" "f x = Inr y"
  using assms by (auto simp: bindE_Inr_iff)

lemma bindE_InlE:
  assumes "bindE r f = Inl e"
  obtains "r = Inl e" | x where "r = Inr x" "f x = Inl e"
  using assms by (cases r) auto

lemma bindE_Inr_right [simp]: "bindE r Inr = r"
  by (cases r) auto

lemma bindE_assoc: "bindE (bindE r f) g = bindE r (\<lambda>x. bindE (f x) g)"
  by (cases r) auto

lemma bindE_cong [fundef_cong]:
  "r = r' \<Longrightarrow> (\<And>x. r' = Inr x \<Longrightarrow> f x = g x) \<Longrightarrow> bindE r f = bindE r' g"
  by (cases r') auto

section \<open>Decimal numerals\<close>

definition crlf :: string where
  "crlf = [CHR 0x0D, CHR 0x0A]"

definition digit_char :: "nat \<Rightarrow> char" where
  "digit_char d = char_of (48 + d)"

definition is_digit :: "char \<Rightarrow> bool" where
  "is_digit c \<longleftrightarrow> 48 \<le> (of_char c :: nat) \<and> (of_char c :: nat) \<le> 57"

definition digit_val :: "char \<Rightarrow> nat" where
  "digit_val c = of_char c - 48"

fun to_string :: "nat \<Rightarrow> string" where
  "to_string n = (if n < 10 then [digit_char n] else to_string (n div 10) @ [digit_char (n mod 10)])"

declare to_string.simps [simp del]

definition int_to_string :: "int \<Rightarrow> string" where
  "int_to_string i = (if i < 0 then CHR ''-'' # to_string (nat (- i)) else to_string (nat i))"

fun dec_value :: "nat \<Rightarrow> string \<Rightarrow> nat" where
  "dec_value acc [] = acc"
| "dec_value acc (c # cs) = dec_value (acc * 10 + digit_val c) cs"

lemma of_char_digit_char: "d < 10 \<Longrightarrow> (of_char (digit_char d) :: nat) = 48 + d"
  by (simp add: digit_char_def)

lemma digit_chars [simp]:
  "digit_char 0 = CHR ''0''" "digit_char 1 = CHR ''1''" "digit_char 2 = CHR ''2''"
  "digit_char 3 = CHR ''3''" "digit_char 4 = CHR ''4''" "digit_char 5 = CHR ''5''"
  "digit_char 6 = CHR ''6''" "digit_char 7 = CHR ''7''" "digit_char 8 = CHR ''8''"
  "digit_char 9 = CHR ''9''" "digit_char (Suc 0) = CHR ''1''"
  by (simp_all add: digit_char_def char_of_def bit_0)

lemma is_digit_digit_char [simp]: "d < 10 \<Longrightarrow> is_digit (digit_char d)"
  by (simp add: is_digit_def of_char_digit_char)

lemma digit_val_digit_char [simp]: "d < 10 \<Longrightarrow> digit_val (digit_char d) = d"
  by (simp add: digit_val_def of_char_digit_char)

lemma digit_val_less [simp]: "is_digit c \<Longrightarrow> digit_val c < 10"
  by (auto simp: is_digit_def digit_val_def)

lemma dec_value_append: "dec_value a (xs @ ys) = dec_value (dec_value a xs) ys"
  by (induction xs arbitrary: a) auto

lemma to_string_digits: "\<forall>c\<in>set (to_string n). is_digit c"
proof (induction n rule: to_string.induct)
  case (1 n)
  then show ?case by (subst to_string.simps) auto
qed

lemma to_string_not_Nil [simp]: "to_string n \<noteq> []"
  by (subst to_string.simps) simp

lemma dec_value_to_string [simp]: "dec_value 0 (to_string n) = n"
proof (induction n rule: to_string.induct)
  case (1 n)
  then show ?case by (subst to_string.simps) (auto simp: dec_value_append)
qed

lemma to_string_inject [simp]: "to_string m = to_string n \<longleftrightarrow> m = n"
  by (metis dec_value_to_string)

lemma non_digits [simp]:
  "\<not> is_digit (CHR 0x0D)" "\<not> is_digit (CHR 0x0A)" "\<not> is_digit (CHR ''-'')"
  "\<not> is_digit (CHR ''+'')" "\<not> is_digit (CHR '' '')"
  by (simp_all add: is_digit_def)

lemma to_string_nonmember:
  assumes "\<not> is_digit c"
  shows "c \<notin> set (to_string n)"
  using to_string_digits [of n] assms by auto

lemma cr_notin_to_string [simp]: "CHR 0x0D \<notin> set (to_string n)"
  by (rule to_string_nonmember) simp

lemma to_string_Cons_digit: "\<exists>c cs. to_string n = c # cs \<and> is_digit c"
  using to_string_digits [of n] to_string_not_Nil [of n]
  by (cases "to_string n") auto

section \<open>Whitespace-separated tokens\<close>

definition is_space :: "char \<Rightarrow> bool" where
  "is_space c \<longleftrightarrow> c = CHR '' '' \<or> (9 \<le> (of_char c :: nat) \<and> (of_char c :: nat) \<le> 13)"

fun split_ws_aux :: "string \<Rightarrow> string \<Rightarrow> string list" where
  "split_ws_aux tok [] = (if tok = [] then [] else [tok])"
| "split_ws_aux tok (c # cs) =
     (if is_space c then (if tok = [] then split_ws_aux [] cs else tok # split_ws_aux [] cs)
      else split_ws_aux (tok @ [c]) cs)"

definition split_ws :: "string \<Rightarrow> string list" where
  "split_ws s = split_ws_aux [] s"

lemma split_ws_aux_word:
  "\<forall>c\<in>set w. \<not> is_space c \<Longrightarrow> split_ws_aux tok (w @ rest) = split_ws_aux (tok @ w) rest"
  by (induction w arbitrary: tok) auto

definition is_word :: "string \<Rightarrow> bool" where
  "is_word w \<longleftrightarrow> w \<noteq> [] \<and> (\<forall>c\<in>set w. \<not> is_space c)"

lemma is_space_blank [simp]: "is_space (CHR '' '')"
  by (simp add: is_space_def)

lemma split_ws_single [simp]: "is_word w \<Longrightarrow> split_ws w = [w]"
  using split_ws_aux_word [of w "[]" "[]"] by (simp add: is_word_def split_ws_def)

lemma split_ws_Cons: "is_word w \<Longrightarrow> split_ws (w @ CHR '' '' # rest) = w # split_ws rest"
  by (simp add: is_word_def split_ws_def split_ws_aux_word)

section \<open>Maps and lists\<close>

lemma map_eqI:
  assumes "\<And>k v. m k = Some v \<longleftrightarrow> m' k = Some v"
  shows "m = m'"
  using assms by (intro ext) (metis not_None_eq)

lemma length_filter_update:
  assumes "i < length xs"
  shows "length (filter P (xs[i := x])) + (if P (xs ! i) then 1 else 0) =
    length (filter P xs) + (if P x then 1 else 0)"
  using assms
proof (induction xs arbitrary: i)
  case (Cons y ys)
  then show ?case by (cases i) (auto split: if_splits)
qed simp

lemma distinct_map_filterI:
  assumes "\<And>i j. i < length xs \<Longrightarrow> j < length xs \<Longrightarrow> P (xs ! i) \<Longrightarrow> P (xs ! j) \<Longrightarrow> f (xs ! i) = f (xs ! j) \<Longrightarrow> i = j"
  shows "distinct (map f (filter P xs))"
  using assms
proof (induction xs)
  case (Cons x xs)
  have "distinct (map f (filter P xs))"
    using Cons.prems [of "Suc _" "Suc _"] by (intro Cons.IH) auto
  moreover have "f x \<noteq> f y" if "P x" "y \<in> set xs" "P y" for y
    using that Cons.prems [of 0 "Suc _"] by (auto simp: in_set_conv_nth)
  ultimately show ?case by auto
qed simp

section \<open>Loops that may fail\<close>

text \<open>\<open>foldE\<close> runs a loop body over a list and stops at the first failure.\<close>

fun foldE :: "('s \<Rightarrow> 'a \<Rightarrow> 's res) \<Rightarrow> 's \<Rightarrow> 'a list \<Rightarrow> 's res" where
  "foldE f s [] = Inr s"
| "foldE f s (x # xs) = bindE (f s x) (\<lambda>s'. foldE f s' xs)"

lemma foldE_append: "foldE f s (xs @ ys) = bindE (foldE f s xs) (\<lambda>s'. foldE f s' ys)"
  by (induction xs arbitrary: s) (simp_all add: bindE_assoc)

lemma foldE_cong [fundef_cong]:
  "s = t \<Longrightarrow> xs = ys \<Longrightarrow> (\<And>u x. x \<in> set ys \<Longrightarrow> f u x = g u x) \<Longrightarrow> foldE f s xs = foldE g t ys"
  by (induction ys arbitrary: s t xs) (auto intro!: bindE_cong)

lemma foldE_invariant:
  assumes "foldE f s xs = Inr s'" "P s" "\<And>s x s'. P s \<Longrightarrow> f s x = Inr s' \<Longrightarrow> P s'"
  shows "P s'"
  using assms by (induction xs arbitrary: s) (auto simp: bindE_Inr_iff)

section \<open>Interface of a stream codec\<close>

text \<open>
  A codec turns a message into bytes (\<open>enc\<close>) and reads a byte stream with an incremental
  machine (\<open>run\<close>), which keeps the messages read so far (\<open>out\<close>) and is \<open>idle\<close> between two
  messages.  What its clients use: how the stream is cut into chunks does not matter, and a
  stream of encoded messages is read back as these messages.
\<close>

locale stream_codec =
  fixes enc :: "'a \<Rightarrow> string"
    and run :: "'p \<Rightarrow> string \<Rightarrow> 'p res"
    and idle :: "'p \<Rightarrow> bool"
    and out :: "'p \<Rightarrow> 'a list"
    and ok :: "'a \<Rightarrow> bool"
  assumes run_Nil: "run p [] = Inr p"
    and run_append: "run p (a @ b) = bindE (run p a) (\<lambda>p'. run p' b)"
    and run_enc: "idle p \<Longrightarrow> ok v \<Longrightarrow> \<exists>p'. run p (enc v) = Inr p' \<and> idle p' \<and> out p' = out p @ [v]"
    and out_grows: "run p s = Inr p' \<Longrightarrow> \<exists>vs. out p' = out p @ vs"
    and enc_nonempty: "enc v \<noteq> []"
begin

lemma run_chunks: "foldE run p chunks = run p (concat chunks)"
  by (induction chunks arbitrary: p) (simp_all add: run_Nil run_append)

lemma run_stream:
  "idle p \<Longrightarrow> list_all ok vs \<Longrightarrow>
   \<exists>p'. run p (concat (map enc vs)) = Inr p' \<and> idle p' \<and> out p' = out p @ vs"
proof (induction vs arbitrary: p)
  case Nil
  then show ?case by (simp add: run_Nil)
next
  case (Cons v vs)
  then obtain p1 where p1: "run p (enc v) = Inr p1" "idle p1" "out p1 = out p @ [v]"
    using run_enc [of p v] by auto
  with Cons obtain p2 where "run p1 (concat (map enc vs)) = Inr p2" "idle p2" "out p2 = out p1 @ vs"
    by fastforce
  with p1 show ?case by (simp add: run_append)
qed

text \<open>A message is never read before its last byte: an encoding is no prefix of another.\<close>

lemma enc_prefix_free:
  assumes "idle p" "ok v" "ok w" "enc v @ s = enc w"
  shows "v = w \<and> s = []"
proof -
  obtain p1 where p1: "run p (enc v) = Inr p1" "out p1 = out p @ [v]"
    using run_enc [OF assms(1,2)] by auto
  obtain p2 where p2: "run p (enc w) = Inr p2" "out p2 = out p @ [w]"
    using run_enc [OF assms(1,3)] by auto
  have "run p (enc v @ s) = run p1 s" by (simp add: run_append p1(1))
  then have "run p1 s = Inr p2" using p2(1) by (simp only: assms(4))
  with p1 p2 have "v = w" using out_grows [of p1 s p2] by auto
  with assms(4) show ?thesis by simp
qed

lemma enc_unambiguous:
  assumes "idle p" "ok v" "ok w" "enc v @ s = enc w @ t"
  shows "v = w \<and> s = t"
proof -
  from assms(4) obtain u where "(enc w @ u = enc v \<and> t = u @ s) \<or> (enc v @ u = enc w \<and> s = u @ t)"
    by (metis append_eq_append_conv2)
  then show ?thesis
  proof
    assume u: "enc w @ u = enc v \<and> t = u @ s"
    then have "w = v \<and> u = []" using enc_prefix_free [OF assms(1,3,2)] by blast
    with u show ?thesis by simp
  next
    assume u: "enc v @ u = enc w \<and> s = u @ t"
    then have "v = w \<and> u = []" using enc_prefix_free [OF assms(1,2,3)] by blast
    with u show ?thesis by simp
  qed
qed

end

end
