(* ===== verification/Map_Interface.thy ===== *)
theory Map_Interface
  imports KV_Prelude
begin

text \<open>
  What the storage engine promises its clients: a map from strings to values with lookup, update
  and delete, each of which may fail with an exception.  \<open>fallible_map\<close> states the laws; both
  the hash table and the sharded store provide them.  A lookup returns a state as well, since a
  lookup in the store reorders the recency list.

  \<open>run_ops\<close> executes a sequence of operations and collects the answers; \<open>spec_ops\<close> is the
  same on a plain map.  Every sequence that does not throw agrees with the plain map.
\<close>

datatype 'v op = Op_Get string | Op_Set string 'v | Op_Del string

datatype 'v answer = Found "'v option" | Stored | Removed bool

fun spec_op :: "(string \<rightharpoonup> 'v) \<Rightarrow> 'v op \<Rightarrow> (string \<rightharpoonup> 'v) \<times> 'v answer" where
  "spec_op m (Op_Get k) = (m, Found (m k))"
| "spec_op m (Op_Set k v) = (m(k \<mapsto> v), Stored)"
| "spec_op m (Op_Del k) = (m(k := None), Removed (m k \<noteq> None))"

fun spec_ops :: "(string \<rightharpoonup> 'v) \<Rightarrow> 'v op list \<Rightarrow> (string \<rightharpoonup> 'v) \<times> 'v answer list" where
  "spec_ops m [] = (m, [])"
| "spec_ops m (x # xs) =
     (let (m', a) = spec_op m x; (m'', as) = spec_ops m' xs in (m'', a # as))"

fun run_op ::
  "('t \<Rightarrow> string \<Rightarrow> ('t \<times> 'v option) res) \<Rightarrow> ('t \<Rightarrow> string \<Rightarrow> 'v \<Rightarrow> 't res) \<Rightarrow>
   ('t \<Rightarrow> string \<Rightarrow> ('t \<times> bool) res) \<Rightarrow> 't \<Rightarrow> 'v op \<Rightarrow> ('t \<times> 'v answer) res" where
  "run_op lookup update delete t (Op_Get k) = bindE (lookup t k) (\<lambda>(t', r). Inr (t', Found r))"
| "run_op lookup update delete t (Op_Set k v) = bindE (update t k v) (\<lambda>t'. Inr (t', Stored))"
| "run_op lookup update delete t (Op_Del k) = bindE (delete t k) (\<lambda>(t', b). Inr (t', Removed b))"

fun run_ops ::
  "('t \<Rightarrow> string \<Rightarrow> ('t \<times> 'v option) res) \<Rightarrow> ('t \<Rightarrow> string \<Rightarrow> 'v \<Rightarrow> 't res) \<Rightarrow>
   ('t \<Rightarrow> string \<Rightarrow> ('t \<times> bool) res) \<Rightarrow> 't \<Rightarrow> 'v op list \<Rightarrow> ('t \<times> 'v answer list) res" where
  "run_ops lookup update delete t [] = Inr (t, [])"
| "run_ops lookup update delete t (x # xs) =
     bindE (run_op lookup update delete t x) (\<lambda>(t', a).
     bindE (run_ops lookup update delete t' xs) (\<lambda>(t'', as). Inr (t'', a # as)))"

lemma run_ops_append:
  "run_ops lookup update delete t (xs @ ys) =
     bindE (run_ops lookup update delete t xs) (\<lambda>(t', as).
     bindE (run_ops lookup update delete t' ys) (\<lambda>(t'', bs). Inr (t'', as @ bs)))"
proof (induction xs arbitrary: t)
  case Nil
  show ?case by (cases "run_ops lookup update delete t ys") auto
next
  case (Cons x xs)
  show ?case
    by (cases "run_op lookup update delete t x")
      (auto simp: Cons bindE_assoc split_beta intro!: bindE_cong)
qed

locale fallible_map =
  fixes new :: 't
    and lookup :: "'t \<Rightarrow> string \<Rightarrow> ('t \<times> 'v option) res"
    and update :: "'t \<Rightarrow> string \<Rightarrow> 'v \<Rightarrow> 't res"
    and delete :: "'t \<Rightarrow> string \<Rightarrow> ('t \<times> bool) res"
    and invar :: "'t \<Rightarrow> bool"
    and content :: "'t \<Rightarrow> string \<Rightarrow> 'v option"
  assumes invar_new: "invar new"
    and content_new: "content new = Map.empty"
    and lookup: "invar t \<Longrightarrow> lookup t k = Inr (t', r) \<Longrightarrow> invar t' \<and> content t' = content t \<and> r = content t k"
    and update: "invar t \<Longrightarrow> update t k v = Inr t' \<Longrightarrow> invar t' \<and> content t' = (content t)(k \<mapsto> v)"
    and delete: "invar t \<Longrightarrow> delete t k = Inr (t', b) \<Longrightarrow>
      invar t' \<and> content t' = (content t)(k := None) \<and> b = (content t k \<noteq> None)"
begin

lemma run_op_refines:
  "invar t \<Longrightarrow> run_op lookup update delete t x = Inr (t', a) \<Longrightarrow>
   invar t' \<and> spec_op (content t) x = (content t', a)"
  by (cases x) (auto simp: bindE_Inr_iff dest: lookup update delete)

lemma run_ops_refines:
  "invar t \<Longrightarrow> run_ops lookup update delete t xs = Inr (t', as) \<Longrightarrow>
   invar t' \<and> spec_ops (content t) xs = (content t', as)"
proof (induction xs arbitrary: t as)
  case (Cons x xs)
  from Cons.prems(2) obtain t1 a as' where
      1: "run_op lookup update delete t x = Inr (t1, a)"
         "run_ops lookup update delete t1 xs = Inr (t', as')" "as = a # as'"
    by (auto simp: bindE_Inr_iff)
  from run_op_refines [OF Cons.prems(1) 1(1)] Cons.IH [OF _ 1(2)] 1(3) show ?case by simp
qed simp

lemma run_ops_from_new:
  "run_ops lookup update delete new xs = Inr (t, as) \<Longrightarrow>
   spec_ops Map.empty xs = (content t, as)"
  using run_ops_refines [OF invar_new] by (simp add: content_new)

end

text \<open>A map that never fails on the operations of a given set of states also makes progress.\<close>

locale total_map = fallible_map +
  fixes roomy :: "'t \<Rightarrow> bool"
  assumes roomy_new: "roomy new"
    and roomy_lookup: "invar t \<Longrightarrow> roomy t \<Longrightarrow> \<exists>t' r. lookup t k = Inr (t', r) \<and> roomy t'"
    and roomy_update: "invar t \<Longrightarrow> roomy t \<Longrightarrow> \<exists>t'. update t k v = Inr t' \<and> roomy t'"
begin

lemma run_ops_total:
  "invar t \<Longrightarrow> roomy t \<Longrightarrow> (\<And>k. Op_Del k \<notin> set xs) \<Longrightarrow>
   \<exists>t' as. run_ops lookup update delete t xs = Inr (t', as) \<and> roomy t'"
proof (induction xs arbitrary: t)
  case (Cons x xs)
  have "\<exists>t1 a. run_op lookup update delete t x = Inr (t1, a) \<and> roomy t1"
  proof (cases x)
    case (Op_Get k)
    with Cons.prems roomy_lookup [of t k] show ?thesis by fastforce
  next
    case (Op_Set k v)
    with Cons.prems roomy_update [of t k v] show ?thesis by fastforce
  qed (use Cons.prems(3) in auto)
  then obtain t1 a where 1: "run_op lookup update delete t x = Inr (t1, a)" "roomy t1" by blast
  have "invar t1" using run_op_refines [OF Cons.prems(1) 1(1)] by simp
  moreover have "\<And>k. Op_Del k \<notin> set xs" using Cons.prems(3) by auto
  ultimately obtain t2 as where "run_ops lookup update delete t1 xs = Inr (t2, as)" "roomy t2"
    using Cons.IH [of t1] 1(2) by blast
  with 1 show ?case by simp
qed simp

end

end
