(* ===== verification/Hash_Table.thy ===== *)
theory Hash_Table
  imports Map_Interface
begin

text \<open>
  The open-addressing hash table of \<open>kvstore/HashTable.cpp\<close> (linear probing, tombstones,
  doubling).  \<open>buckets\<close> is the vector of nodes and always has \<open>bucketsz\<close> elements; \<open>size_t\<close>
  counters are natural numbers, since they count objects in memory.  The hash is a 32-bit word.

  The abstraction \<open>ht_map\<close> is the finite map the table stands for.  \<open>ht_core\<close> is the
  structural invariant (distinct keys; no empty bucket on the probe path of a stored key) and
  \<open>ht_ok\<close> adds the element count.  The lemmas give the behaviour of each operation on each
  branch, including exactly when \<open>find\<close> throws.
\<close>

unbundle bit_operations_syntax

section \<open>State\<close>

datatype stat = DELETED | EMPTY | OCCUPIED

text \<open>\<open>hval\<close> is \<open>None\<close> while the node still holds the default-constructed value.\<close>

record 'v HNode =
  hkey :: string
  hval :: "'v option"
  status :: stat

definition empty_Node :: "'v HNode" where
  "empty_Node = \<lparr>hkey = [], hval = None, status = EMPTY\<rparr>"

definition new_Node :: "string \<Rightarrow> 'v \<Rightarrow> 'v HNode" where
  "new_Node k v = \<lparr>hkey = k, hval = Some v, status = OCCUPIED\<rparr>"

record 'v HashTable =
  buckets :: "'v HNode list"
  bucketsz :: nat
  sz :: nat

section \<open>Operations\<close>

definition new_HashTable :: "'v HashTable" where
  "new_HashTable = \<lparr>buckets = replicate 16 empty_Node, bucketsz = 16, sz = 0\<rparr>"

text \<open>\<open>(uint32_t)c\<close> of a (signed) \<open>char\<close> extends the sign.\<close>

definition char_u32 :: "char \<Rightarrow> u32" where
  "char_u32 c = (let n = of_char c :: nat in of_nat (if n < 128 then n else n + (2 ^ 32 - 256)))"

definition gethash :: "string \<Rightarrow> u32" where
  "gethash key = fold (\<lambda>c h. (h XOR char_u32 c) * 16777619) key 2654435761"

text \<open>
  The probe loop of \<open>find\<close>.  \<open>idx\<close> comes back to its start after exactly \<open>bucketsz\<close>
  increments, so the counter is the number of iterations left and the exit test of the source
  is that it reaches 0.  The result is the index of the bucket the returned pointer denotes.
\<close>

fun find_loop :: "'v HashTable \<Rightarrow> string \<Rightarrow> nat \<Rightarrow> nat \<Rightarrow> nat option \<Rightarrow> nat res" where
  "find_loop t key 0 idx first_del = Inl (Runtime_Error ''Empty position not found'')"
| "find_loop t key (Suc n) idx first_del =
     (let nd = buckets t ! idx in
      if status nd = EMPTY then
        Inr (case first_del of None \<Rightarrow> idx | Some d \<Rightarrow> d)
      else if status nd = DELETED then
        find_loop t key n (Suc idx mod bucketsz t)
          (case first_del of None \<Rightarrow> Some idx | Some d \<Rightarrow> Some d)
      else if hkey nd = key then Inr idx
      else find_loop t key n (Suc idx mod bucketsz t) first_del)"

definition ht_find :: "'v HashTable \<Rightarrow> string \<Rightarrow> nat res" where
  "ht_find t key =
     (if bucketsz t = 0 then Inl (UB Div_By_Zero)
      else find_loop t key (bucketsz t) (unat (gethash key) mod bucketsz t) None)"

definition ht_get :: "'v HashTable \<Rightarrow> string \<Rightarrow> 'v option res" where
  "ht_get t key = bindE (ht_find t key) (\<lambda>i.
     let p = buckets t ! i in Inr (if status p = OCCUPIED then hval p else None))"

definition put :: "'v HashTable \<Rightarrow> nat \<Rightarrow> 'v HNode \<Rightarrow> 'v HashTable" where
  "put t i nd = t\<lparr>buckets := (buckets t)[i := nd]\<rparr>"

definition rehash_step :: "'v HashTable \<Rightarrow> 'v HNode \<Rightarrow> 'v HashTable res" where
  "rehash_step t nd =
     (if status nd \<noteq> OCCUPIED then Inr t
      else bindE (ht_find t (hkey nd)) (\<lambda>i.
        Inr (put t i \<lparr>hkey = hkey nd, hval = hval nd, status = OCCUPIED\<rparr>)))"

definition rehash :: "'v HashTable \<Rightarrow> 'v HashTable res" where
  "rehash t =
     (let n = 2 * bucketsz t in
      foldE rehash_step (t\<lparr>bucketsz := n, buckets := replicate n empty_Node\<rparr>) (buckets t))"

text \<open>\<open>1.0 * sz / bucketsz > 0.75\<close>, exact in double precision below \<open>2 ^ 53\<close> elements.\<close>

definition over_load :: "'v HashTable \<Rightarrow> bool" where
  "over_load t \<longleftrightarrow> 4 * sz t > 3 * bucketsz t"

definition ht_set :: "'v HashTable \<Rightarrow> string \<Rightarrow> 'v \<Rightarrow> 'v HashTable res" where
  "ht_set t key v = bindE (ht_find t key) (\<lambda>i.
     let p = buckets t ! i in
     if status p = OCCUPIED then Inr (put t i (p\<lparr>hval := Some v\<rparr>))
     else let t' = (put t i (new_Node key v))\<lparr>sz := sz t + 1\<rparr> in
       if over_load t' then rehash t' else Inr t')"

definition ht_erase :: "'v HashTable \<Rightarrow> string \<Rightarrow> ('v HashTable \<times> bool) res" where
  "ht_erase t key = bindE (ht_find t key) (\<lambda>i.
     let p = buckets t ! i in
     if status p = OCCUPIED then Inr ((put t i (p\<lparr>status := DELETED\<rparr>))\<lparr>sz := sz t - 1\<rparr>, True)
     else Inr (t, False))"

definition ht_checkexist :: "'v HashTable \<Rightarrow> string \<Rightarrow> bool res" where
  "ht_checkexist t key = bindE (ht_find t key) (\<lambda>i. Inr (status (buckets t ! i) = OCCUPIED))"

text \<open>\<open>forEach\<close> visits the occupied buckets in index order.\<close>

definition ht_entries :: "'v HashTable \<Rightarrow> (string \<times> 'v) list" where
  "ht_entries t = map (\<lambda>nd. (hkey nd, the (hval nd))) (filter (\<lambda>nd. status nd = OCCUPIED) (buckets t))"

definition ht_forEach :: "'v HashTable \<Rightarrow> ('s \<Rightarrow> string \<times> 'v \<Rightarrow> 's) \<Rightarrow> 's \<Rightarrow> 's" where
  "ht_forEach t callback s = foldl callback s (ht_entries t)"

section \<open>Abstraction and invariants\<close>

definition ht_map :: "'v HashTable \<Rightarrow> string \<Rightarrow> 'v option" where
  "ht_map t k = (case List.find (\<lambda>nd. status nd = OCCUPIED \<and> hkey nd = k) (buckets t) of
     None \<Rightarrow> None | Some nd \<Rightarrow> hval nd)"

definition slot :: "'v HashTable \<Rightarrow> string \<Rightarrow> nat \<Rightarrow> nat" where
  "slot t k i = (unat (gethash k) + i) mod bucketsz t"

definition holds_key :: "'v HashTable \<Rightarrow> nat \<Rightarrow> string \<Rightarrow> bool" where
  "holds_key t i k \<longleftrightarrow> status (buckets t ! i) = OCCUPIED \<and> hkey (buckets t ! i) = k"

text \<open>Bucket \<open>j\<close> lies on the probe path of \<open>k\<close>, with no empty bucket before it.\<close>

definition on_path :: "'v HashTable \<Rightarrow> string \<Rightarrow> nat \<Rightarrow> bool" where
  "on_path t k j \<longleftrightarrow> (\<exists>d<bucketsz t. slot t k d = j \<and> (\<forall>i<d. status (buckets t ! slot t k i) \<noteq> EMPTY))"

definition ht_core :: "'v HashTable \<Rightarrow> bool" where
  "ht_core t \<longleftrightarrow> length (buckets t) = bucketsz t \<and> bucketsz t > 0 \<and>
     (\<forall>i<bucketsz t. \<forall>k. holds_key t i k \<longrightarrow> hval (buckets t ! i) \<noteq> None \<and> on_path t k i) \<and>
     (\<forall>i<bucketsz t. \<forall>j<bucketsz t. \<forall>k. holds_key t i k \<and> holds_key t j k \<longrightarrow> i = j)"

definition ht_count :: "'v HashTable \<Rightarrow> nat" where
  "ht_count t = length (filter (\<lambda>nd. status nd = OCCUPIED) (buckets t))"

definition ht_ok :: "'v HashTable \<Rightarrow> bool" where
  "ht_ok t \<longleftrightarrow> ht_core t \<and> sz t = ht_count t \<and> \<not> over_load t"

definition has_empty :: "'v HashTable \<Rightarrow> bool" where
  "has_empty t \<longleftrightarrow> (\<exists>nd\<in>set (buckets t). status nd = EMPTY)"

definition no_tombstone :: "'v HashTable \<Rightarrow> bool" where
  "no_tombstone t \<longleftrightarrow> (\<forall>nd\<in>set (buckets t). status nd \<noteq> DELETED)"

section \<open>The probe loop\<close>

lemma slot_less [simp]: "bucketsz t > 0 \<Longrightarrow> slot t k i < bucketsz t"
  by (simp add: slot_def)

lemma slot_Suc: "Suc (slot t k i) mod bucketsz t = slot t k (Suc i)"
  by (simp add: slot_def mod_Suc_eq)

lemma slot_0: "slot t k 0 = unat (gethash k) mod bucketsz t"
  by (simp add: slot_def)

text \<open>The counter and the exit test \<open>idx != raw\<close>: the probe is back at its start after
  \<open>bucketsz\<close> steps and not before.\<close>

lemma slot_back: "0 < d \<Longrightarrow> d \<le> bucketsz t \<Longrightarrow> slot t k d = slot t k 0 \<longleftrightarrow> d = bucketsz t"
proof
  assume d: "0 < d" "d \<le> bucketsz t" "slot t k d = slot t k 0"
  then have "bucketsz t dvd d"
    using mod_eq_dvd_iff_nat [of "unat (gethash k)" "unat (gethash k) + d" "bucketsz t"]
    by (simp add: slot_def)
  with d show "d = bucketsz t" by (auto dest: dvd_imp_le)
qed (simp add: slot_def)

lemma slot_surj:
  assumes "j < bucketsz t"
  shows "\<exists>d<bucketsz t. slot t k d = j"
proof -
  let ?h = "unat (gethash k) mod bucketsz t" and ?n = "bucketsz t"
  have h: "?h < ?n" using assms by simp
  have "slot t k ((j + (?n - ?h)) mod ?n) = (?h + (j + (?n - ?h))) mod ?n"
    by (simp add: slot_def mod_simps)
  also have "?h + (j + (?n - ?h)) = j + ?n" using h by simp
  also have "(j + ?n) mod ?n = j" using assms by simp
  finally show ?thesis using assms by (intro exI [of _ "(j + (?n - ?h)) mod ?n"]) simp
qed

lemma slot_inj:
  assumes "i < bucketsz t" "j < bucketsz t" "slot t k i = slot t k j"
  shows "i = j"
proof -
  have *: "a = b" if "a \<le> b" "b < bucketsz t" "slot t k a = slot t k b" for a b
  proof -
    from that(3) have "bucketsz t dvd b - a"
      using mod_eq_dvd_iff_nat [of "unat (gethash k) + a" "unat (gethash k) + b" "bucketsz t"] that(1)
      by (simp add: slot_def)
    with that show ?thesis by (auto dest: dvd_imp_le)
  qed
  show ?thesis using * [of i j] * [of j i] assms by (cases "i \<le> j") auto
qed

definition stops :: "'v HashTable \<Rightarrow> string \<Rightarrow> nat \<Rightarrow> bool" where
  "stops t k i \<longleftrightarrow> status (buckets t ! slot t k i) = EMPTY \<or> holds_key t (slot t k i) k"

abbreviation no_slot :: kv_error where
  "no_slot \<equiv> Runtime_Error ''Empty position not found''"

lemma find_loop_Inl:
  "find_loop t k m (slot t k s) fd = Inl e \<Longrightarrow> e = no_slot \<and> (\<forall>i. s \<le> i \<and> i < s + m \<longrightarrow> \<not> stops t k i)"
proof (induction m arbitrary: s fd)
  case (Suc m)
  then have st: "\<not> stops t k s"
    by (auto simp: Let_def stops_def holds_key_def split: if_splits)
  obtain fd' where "find_loop t k m (slot t k (Suc s)) fd' = Inl e"
    using Suc.prems by (auto simp: Let_def slot_Suc split: if_splits)
  from Suc.IH [OF this] st show ?case
    by (metis Suc_leI add_Suc_shift le_neq_implies_less)
qed auto

lemma find_loop_Inr:
  assumes "find_loop t k m (slot t k s) fd = Inr j"
  shows "\<exists>d. s \<le> d \<and> d < s + m \<and> (\<forall>i. s \<le> i \<and> i < d \<longrightarrow> \<not> stops t k i) \<and>
    ((holds_key t (slot t k d) k \<and> j = slot t k d) \<or>
     (status (buckets t ! slot t k d) = EMPTY \<and>
       (fd = Some j \<or> (\<exists>i. s \<le> i \<and> i \<le> d \<and> j = slot t k i \<and> status (buckets t ! j) \<noteq> OCCUPIED))))"
  using assms
proof (induction m arbitrary: s fd)
  case (Suc m)
  let ?nd = "buckets t ! slot t k s"
  show ?case
  proof (cases "stops t k s")
    case True
    with Suc.prems have "(holds_key t (slot t k s) k \<and> j = slot t k s) \<or>
        (status ?nd = EMPTY \<and> (fd = Some j \<or> j = slot t k s))"
      by (auto simp: stops_def holds_key_def Let_def split: option.splits if_splits)
    then show ?thesis by (intro exI [of _ s]) auto
  next
    case False
    obtain fd' where fd': "find_loop t k m (slot t k (Suc s)) fd' = Inr j"
        "fd' = fd \<or> (fd' = Some (slot t k s) \<and> status ?nd = DELETED)"
      using Suc.prems False
      by (cases "status ?nd")
        (auto simp: stops_def holds_key_def Let_def slot_Suc split: if_splits option.splits)
    from Suc.IH [OF fd'(1)] obtain d where d: "Suc s \<le> d" "d < Suc s + m"
        "\<forall>i. Suc s \<le> i \<and> i < d \<longrightarrow> \<not> stops t k i"
        "(holds_key t (slot t k d) k \<and> j = slot t k d) \<or>
         (status (buckets t ! slot t k d) = EMPTY \<and>
          (fd' = Some j \<or> (\<exists>i. Suc s \<le> i \<and> i \<le> d \<and> j = slot t k i \<and> status (buckets t ! j) \<noteq> OCCUPIED)))"
      by blast
    have "\<forall>i. s \<le> i \<and> i < d \<longrightarrow> \<not> stops t k i"
      using d(3) False by (metis le_neq_implies_less Suc_leI)
    with d fd'(2) show ?thesis
      by (intro exI [of _ d]) (auto intro: Suc_leD)
  qed
qed simp

text \<open>The three outcomes of \<open>find\<close>: the bucket of a stored key; a free bucket on the probe path of
  an absent key; or the exception, when the key is absent and no bucket is empty.\<close>

lemma coreD:
  assumes "ht_core t"
  shows "length (buckets t) = bucketsz t" "bucketsz t > 0"
    and "i < bucketsz t \<Longrightarrow> holds_key t i k \<Longrightarrow> \<exists>v. hval (buckets t ! i) = Some v"
    and "i < bucketsz t \<Longrightarrow> holds_key t i k \<Longrightarrow> on_path t k i"
    and "i < bucketsz t \<Longrightarrow> j < bucketsz t \<Longrightarrow> holds_key t i k \<Longrightarrow> holds_key t j k \<Longrightarrow> i = j"
  using assms unfolding ht_core_def by (auto, blast)

lemma ht_find_eq: "bucketsz t > 0 \<Longrightarrow> ht_find t k = find_loop t k (bucketsz t) (slot t k 0) None"
  by (simp add: ht_find_def slot_0)

lemma ht_find_present:
  assumes "ht_core t" "j < bucketsz t" "holds_key t j k"
  shows "ht_find t k = Inr j"
proof -
  note core = coreD [OF assms(1)]
  obtain d' where d': "d' < bucketsz t" "slot t k d' = j" "\<forall>i<d'. status (buckets t ! slot t k i) \<noteq> EMPTY"
    using core(4) [OF assms(2,3)] by (auto simp: on_path_def)
  then have stop: "stops t k d'" using assms(3) by (simp add: stops_def)
  show ?thesis
  proof (cases "ht_find t k")
    case (Inl e)
    then have "\<not> stops t k d'"
      using find_loop_Inl [of t k "bucketsz t" 0 None e] core(2) d'(1) by (simp add: ht_find_eq)
    with stop show ?thesis by simp
  next
    case (Inr i)
    then obtain d where d: "d < bucketsz t" "\<forall>i<d. \<not> stops t k i"
        "(holds_key t (slot t k d) k \<and> i = slot t k d) \<or> status (buckets t ! slot t k d) = EMPTY"
      using find_loop_Inr [of t k "bucketsz t" 0 None i] core(2) by (auto simp: ht_find_eq)
    have "\<not> status (buckets t ! slot t k d) = EMPTY"
    proof
      assume E: "status (buckets t ! slot t k d) = EMPTY"
      with d'(3) have "d' \<le> d" by (metis not_le)
      moreover have "d' \<noteq> d" using E d'(2) assms(3) by (auto simp: holds_key_def)
      ultimately show False using d(2) stop by simp
    qed
    with d(3) core(2,5) assms(2,3) Inr show ?thesis by auto
  qed
qed

definition absent :: "'v HashTable \<Rightarrow> string \<Rightarrow> bool" where
  "absent t k \<longleftrightarrow> (\<forall>i<bucketsz t. \<not> holds_key t i k)"

lemma ht_find_absent:
  assumes "ht_core t" "absent t k" "ht_find t k = Inr j"
  shows "j < bucketsz t" "status (buckets t ! j) \<noteq> OCCUPIED" "on_path t k j" "has_empty t"
proof -
  note core = coreD [OF assms(1)]
  obtain d i where d: "d < bucketsz t" "\<forall>i<d. \<not> stops t k i" "status (buckets t ! slot t k d) = EMPTY"
      and i: "i \<le> d" "j = slot t k i" "status (buckets t ! j) \<noteq> OCCUPIED"
    using find_loop_Inr [of t k "bucketsz t" 0 None j] core(2) assms(2,3)
    by (auto simp: ht_find_eq absent_def)
  show "j < bucketsz t" "status (buckets t ! j) \<noteq> OCCUPIED" using i core(2) by simp_all
  show "on_path t k j"
    using d i unfolding on_path_def by (intro exI [of _ i]) (auto simp: stops_def)
  show "has_empty t"
    unfolding has_empty_def using d(3) core(1,2) by (intro bexI [of _ "buckets t ! slot t k d"]) auto
qed

lemma ht_find_throws:
  assumes "ht_core t" "ht_find t k = Inl e"
  shows "e = no_slot" "absent t k" "\<not> has_empty t"
proof -
  note core = coreD [OF assms(1)]
  have f: "e = no_slot \<and> (\<forall>i<bucketsz t. \<not> stops t k i)"
    using find_loop_Inl [of t k "bucketsz t" 0 None e] core(2) assms(2) by (simp add: ht_find_eq)
  then show "e = no_slot" by simp
  show "absent t k"
    using assms ht_find_present [of t _ k] by (auto simp: absent_def)
  show "\<not> has_empty t"
  proof
    assume "has_empty t"
    then obtain j where "j < bucketsz t" "status (buckets t ! j) = EMPTY"
      using core(1) by (auto simp: has_empty_def in_set_conv_nth)
    with slot_surj [of j t k] f show False by (auto simp: stops_def)
  qed
qed

section \<open>Single-bucket updates\<close>

lemma ht_map_Some_iff:
  assumes "ht_core t"
  shows "ht_map t k = Some v \<longleftrightarrow> (\<exists>i<bucketsz t. holds_key t i k \<and> hval (buckets t ! i) = Some v)"
proof -
  note core = coreD [OF assms]
  show ?thesis
  proof
    assume "ht_map t k = Some v"
    then obtain nd where "List.find (\<lambda>nd. status nd = OCCUPIED \<and> hkey nd = k) (buckets t) = Some nd"
        "hval nd = Some v"
      by (auto simp: ht_map_def split: option.splits)
    then show "\<exists>i<bucketsz t. holds_key t i k \<and> hval (buckets t ! i) = Some v"
      using core(1) by (auto simp: find_Some_iff holds_key_def)
  next
    assume "\<exists>i<bucketsz t. holds_key t i k \<and> hval (buckets t ! i) = Some v"
    then obtain i where i: "i < bucketsz t" "holds_key t i k" "hval (buckets t ! i) = Some v" by blast
    then have "List.find (\<lambda>nd. status nd = OCCUPIED \<and> hkey nd = k) (buckets t) \<noteq> None"
      using core(1) by (auto simp: find_None_iff holds_key_def)
    then obtain nd where nd: "List.find (\<lambda>nd. status nd = OCCUPIED \<and> hkey nd = k) (buckets t) = Some nd"
      by blast
    then obtain j where "j < bucketsz t" "holds_key t j k" "nd = buckets t ! j"
      using core(1) by (auto simp: find_Some_iff holds_key_def)
    with i core(5) nd show "ht_map t k = Some v" by (auto simp: ht_map_def)
  qed
qed

lemma ht_map_None_iff: "ht_core t \<Longrightarrow> ht_map t k = None \<longleftrightarrow> absent t k"
  using ht_map_Some_iff [of t k] coreD(3) [of t]
  by (metis absent_def not_None_eq)

lemma not_absentE:
  assumes "\<not> absent t k" obtains i where "i < bucketsz t" "holds_key t i k"
  using assms by (auto simp: absent_def)

lemma put_simps [simp]:
  "bucketsz (put t i nd) = bucketsz t" "sz (put t i nd) = sz t"
  "buckets (put t i nd) = (buckets t)[i := nd]"
  "slot (put t i nd) = slot t" "slot (t\<lparr>sz := n\<rparr>) = slot t"
  by (simp_all add: put_def slot_def fun_eq_iff)

lemma holds_key_put:
  "j < length (buckets t) \<Longrightarrow>
   holds_key (put t j nd) i k \<longleftrightarrow> (if i = j then status nd = OCCUPIED \<and> hkey nd = k else holds_key t i k)"
  by (auto simp: holds_key_def)

lemma on_path_put:
  assumes "on_path t k i" "status nd \<noteq> EMPTY" "j < length (buckets t)" "bucketsz t = length (buckets t)"
  shows "on_path (put t j nd) k i"
proof -
  obtain d where d: "d < bucketsz t" "slot t k d = i" "\<forall>i<d. status (buckets t ! slot t k i) \<noteq> EMPTY"
    using assms(1) by (auto simp: on_path_def)
  then have "\<forall>i<d. status ((buckets t)[j := nd] ! slot t k i) \<noteq> EMPTY"
    using assms(2-4) by (auto simp: nth_list_update)
  with d(1,2) show ?thesis by (auto simp: on_path_def)
qed

text \<open>Storing a node in bucket \<open>j\<close> keeps the invariant when the bucket does not become empty and a
  stored key has its value, its place on the probe path and no other bucket.\<close>

lemma ht_core_put:
  assumes "ht_core t" "j < bucketsz t" "status nd \<noteq> EMPTY"
    and "status nd = OCCUPIED \<Longrightarrow> hval nd \<noteq> None \<and> on_path t (hkey nd) j \<and>
      (\<forall>i<bucketsz t. holds_key t i (hkey nd) \<longrightarrow> i = j)"
  shows "ht_core (put t j nd)"
proof -
  note core = coreD [OF assms(1)]
  have j: "j < length (buckets t)" using assms(2) core(1) by simp
  have path: "on_path (put t j nd) k i" if "on_path t k i" for k i
    using that assms(3) j core(1) by (intro on_path_put) auto
  show ?thesis
    unfolding ht_core_def
  proof (intro conjI allI impI)
    fix i k assume i: "i < bucketsz (put t j nd)" "holds_key (put t j nd) i k"
    have "hval (buckets (put t j nd) ! i) \<noteq> None \<and> on_path (put t j nd) k i"
    proof (cases "i = j")
      case True
      with i(2) have "status nd = OCCUPIED" "hkey nd = k" using j by (simp_all add: holds_key_put)
      with True assms(4) j path show ?thesis by simp
    next
      case False
      with i have "i < bucketsz t" "holds_key t i k" using j by (simp_all add: holds_key_put)
      with False core(3,4) path show ?thesis by fastforce
    qed
    then show "hval (buckets (put t j nd) ! i) \<noteq> None" "on_path (put t j nd) k i" by simp_all
  next
    fix i i' k assume a: "i < bucketsz (put t j nd)" "i' < bucketsz (put t j nd)"
      "holds_key (put t j nd) i k \<and> holds_key (put t j nd) i' k"
    have "x = j" if "x < bucketsz t" "holds_key t x k" "holds_key (put t j nd) j k" for x
      using that assms(4) j by (simp add: holds_key_put)
    then show "i = i'"
      using a core(5) [of i i' k] holds_key_put [OF j, of nd] by (metis put_simps(1))
  qed (use core in auto)
qed

lemma ht_core_sz [simp]: "ht_core (t\<lparr>sz := n\<rparr>) = ht_core t"
  by (simp add: ht_core_def holds_key_def on_path_def)

lemma ht_map_sz [simp]: "ht_map (t\<lparr>sz := n\<rparr>) = ht_map t"
  by (simp add: ht_map_def fun_eq_iff)

lemma ht_count_sz [simp]: "ht_count (t\<lparr>sz := n\<rparr>) = ht_count t"
  by (simp add: ht_count_def)

lemma ht_count_put:
  "j < length (buckets t) \<Longrightarrow>
   ht_count (put t j nd) + (if status (buckets t ! j) = OCCUPIED then 1 else 0) =
   ht_count t + (if status nd = OCCUPIED then 1 else 0)"
  unfolding ht_count_def put_simps by (rule length_filter_update)

lemma ht_map_put:
  assumes "ht_core t" "ht_core (put t j nd)" "j < bucketsz t"
  shows "ht_map (put t j nd) k =
    (if status nd = OCCUPIED \<and> hkey nd = k then hval nd
     else if holds_key t j k then None else ht_map t k)"
proof -
  note core = coreD [OF assms(1)] and core' = coreD [OF assms(2)]
  have hk: "holds_key (put t j nd) i k \<longleftrightarrow>
      (if i = j then status nd = OCCUPIED \<and> hkey nd = k else holds_key t i k)" for i
    using assms(3) core(1) by (simp add: holds_key_put)
  consider "status nd = OCCUPIED" "hkey nd = k"
    | "\<not> (status nd = OCCUPIED \<and> hkey nd = k)" "holds_key t j k"
    | "\<not> (status nd = OCCUPIED \<and> hkey nd = k)" "\<not> holds_key t j k" by blast
  then show ?thesis
  proof cases
    case 1
    then have h: "holds_key (put t j nd) j k" by (simp add: hk)
    obtain v where "hval nd = Some v" using core'(3) [of j k] h assms(3) core(1) by auto
    moreover from this h assms(3) core(1) have "ht_map (put t j nd) k = Some v"
      by (intro ht_map_Some_iff [OF assms(2), THEN iffD2] exI [of _ j]) auto
    ultimately show ?thesis using 1 by simp
  next
    case 2
    then have "absent (put t j nd) k" using core(5) assms(3) by (auto simp: absent_def hk)
    then have "ht_map (put t j nd) k = None" by (simp only: ht_map_None_iff [OF assms(2)])
    with 2 show ?thesis by auto
  next
    case 3
    then have "holds_key (put t j nd) i k \<and> hval (buckets (put t j nd) ! i) = Some v \<longleftrightarrow>
        holds_key t i k \<and> hval (buckets t ! i) = Some v" for i v
      by (cases "i = j") (auto simp: hk)
    then have "ht_map (put t j nd) k = Some v \<longleftrightarrow> ht_map t k = Some v" for v
      unfolding ht_map_Some_iff [OF assms(2)] ht_map_Some_iff [OF assms(1)] put_simps(1) by simp
    then have "ht_map (put t j nd) k = ht_map t k" by (metis not_None_eq)
    with 3 show ?thesis by auto
  qed
qed

lemma store_new:
  fixes v :: 'v
  assumes "ht_core t" "absent t k" "ht_find t k = Inr j"
  defines "t' \<equiv> put t j (new_Node k v)"
  shows "ht_core t'" "ht_map t' = (ht_map t)(k \<mapsto> v)" "ht_count t' = Suc (ht_count t)"
proof -
  note core = coreD [OF assms(1)] and f = ht_find_absent [OF assms(1-3)]
  have j: "j < length (buckets t)" using f(1) core(1) by simp
  show core': "ht_core t'"
    unfolding t'_def
    by (rule ht_core_put [OF assms(1) f(1)])
      (use assms(2) f(3) in \<open>auto simp: new_Node_def absent_def\<close>)
  have "\<not> holds_key t j k'" for k' using f(2) by (simp add: holds_key_def)
  then show "ht_map t' = (ht_map t)(k \<mapsto> v)"
    using ht_map_put [OF assms(1) core' [unfolded t'_def] f(1)]
    by (auto simp: t'_def new_Node_def fun_eq_iff)
  show "ht_count t' = Suc (ht_count t)"
    using ht_count_put [OF j, of "new_Node k v"] f(2) by (simp add: t'_def new_Node_def)
qed

lemma store_over:
  fixes v :: 'v
  assumes "ht_core t" "j < bucketsz t" "holds_key t j k"
  defines "t' \<equiv> put t j ((buckets t ! j)\<lparr>hval := Some v\<rparr>)"
  shows "ht_core t'" "ht_map t' = (ht_map t)(k \<mapsto> v)" "ht_count t' = ht_count t"
proof -
  note core = coreD [OF assms(1)]
  have j: "j < length (buckets t)" using assms(2) core(1) by simp
  have nd: "status (buckets t ! j) = OCCUPIED" "hkey (buckets t ! j) = k"
    using assms(3) by (simp_all add: holds_key_def)
  show core': "ht_core t'"
    unfolding t'_def
    by (rule ht_core_put [OF assms(1,2)]) (use nd core(4) [OF assms(2,3)] core(5) [OF _ assms(2) _ assms(3)] in auto)
  show "ht_map t' = (ht_map t)(k \<mapsto> v)"
    using ht_map_put [OF assms(1) core' [unfolded t'_def] assms(2)] nd
    by (auto simp: t'_def holds_key_def fun_eq_iff)
  show "ht_count t' = ht_count t"
    using ht_count_put [OF j, of "(buckets t ! j)\<lparr>hval := Some v\<rparr>"] nd by (simp add: t'_def)
qed

lemma store_deleted:
  fixes t :: "'v HashTable"
  assumes "ht_core t" "j < bucketsz t" "holds_key t j k"
  defines "t' \<equiv> put t j ((buckets t ! j)\<lparr>status := DELETED\<rparr>)"
  shows "ht_core t'" "ht_map t' = (ht_map t)(k := None)" "Suc (ht_count t') = ht_count t"
proof -
  note core = coreD [OF assms(1)]
  have j: "j < length (buckets t)" using assms(2) core(1) by simp
  have nd: "status (buckets t ! j) = OCCUPIED" "hkey (buckets t ! j) = k"
    using assms(3) by (simp_all add: holds_key_def)
  show core': "ht_core t'"
    unfolding t'_def by (rule ht_core_put [OF assms(1,2)]) simp_all
  show "ht_map t' = (ht_map t)(k := None)"
    using ht_map_put [OF assms(1) core' [unfolded t'_def] assms(2)] nd
    by (auto simp: t'_def holds_key_def fun_eq_iff)
  show "Suc (ht_count t') = ht_count t"
    using ht_count_put [OF j, of "(buckets t ! j)\<lparr>status := DELETED\<rparr>"] nd by (simp add: t'_def)
qed

section \<open>Rehashing\<close>

lemma ht_core_replicate:
  "n > 0 \<Longrightarrow> ht_core (t\<lparr>bucketsz := n, buckets := replicate n empty_Node\<rparr>)"
  by (simp add: ht_core_def holds_key_def empty_Node_def)

lemma no_tombstone_put:
  "no_tombstone t \<Longrightarrow> status nd \<noteq> DELETED \<Longrightarrow> no_tombstone (put t j nd)"
  by (auto simp: no_tombstone_def dest!: set_update_subset_insert [THEN subsetD])

lemma count_full:
  assumes "\<not> has_empty t" "no_tombstone t"
  shows "ht_count t = length (buckets t)"
proof -
  have "filter (\<lambda>nd. status nd = OCCUPIED) (buckets t) = buckets t"
    using assms unfolding has_empty_def no_tombstone_def
    by (intro filter_True) (metis stat.exhaust)
  then show ?thesis by (simp add: ht_count_def)
qed

text \<open>Without tombstones a table that is not full always has a place for a new key.\<close>

lemma has_empty_if_room:
  "ht_core t \<Longrightarrow> no_tombstone t \<Longrightarrow> ht_count t < bucketsz t \<Longrightarrow> has_empty t"
  using count_full [of t] coreD(1) [of t] by auto

definition node_entry :: "'v HNode \<Rightarrow> (string \<times> 'v) option" where
  "node_entry nd = (if status nd = OCCUPIED then map_option (Pair (hkey nd)) (hval nd) else None)"

lemma node_entry_simps:
  "status nd = OCCUPIED \<Longrightarrow> hval nd = Some v \<Longrightarrow> node_entry nd = Some (hkey nd, v)"
  "status nd \<noteq> OCCUPIED \<Longrightarrow> node_entry nd = None"
  by (simp_all add: node_entry_def)

lemma node_entry_keys:
  assumes "k \<in> dom (map_of (List.map_filter node_entry nds))"
  shows "\<exists>nd\<in>set nds. status nd = OCCUPIED \<and> hkey nd = k"
proof -
  from assms obtain w where "(k, w) \<in> set (List.map_filter node_entry nds)"
    by (auto dest: map_of_SomeD)
  then obtain nd where "nd \<in> set nds" "node_entry nd = Some (k, w)"
    by (auto simp: map_filter_def)
  then show ?thesis by (auto simp: node_entry_def split: if_splits)
qed

lemma rehash_step_new:
  fixes v :: 'v
  assumes "ht_core t" "no_tombstone t" "ht_count t < bucketsz t"
    and "status nd = OCCUPIED" "hval nd = Some v" "absent t (hkey nd)"
  shows "\<exists>t'. rehash_step t nd = Inr t' \<and> ht_core t' \<and> no_tombstone t' \<and> bucketsz t' = bucketsz t \<and>
    sz t' = sz t \<and> ht_count t' = Suc (ht_count t) \<and> ht_map t' = (ht_map t)(hkey nd \<mapsto> v)"
proof -
  have "has_empty t" using assms(1-3) by (rule has_empty_if_room)
  then obtain j where j: "ht_find t (hkey nd) = Inr j"
    using ht_find_throws [OF assms(1), of "hkey nd"] by (cases "ht_find t (hkey nd)") auto
  moreover have "no_tombstone (put t j (new_Node (hkey nd) v))"
    using assms(2) by (rule no_tombstone_put) (simp add: new_Node_def)
  ultimately show ?thesis
    using store_new [OF assms(1,6) j, of v] assms(4,5) by (simp add: rehash_step_def new_Node_def)
qed

lemma rehash_loop:
  fixes nds :: "'v HNode list"
  assumes "ht_core t" "no_tombstone t" "ht_count t + length nds < bucketsz t"
    and "distinct (map hkey (filter (\<lambda>nd. status nd = OCCUPIED) nds))"
    and "\<And>nd. nd \<in> set nds \<Longrightarrow> status nd = OCCUPIED \<Longrightarrow> hval nd \<noteq> None \<and> absent t (hkey nd)"
  shows "\<exists>t'. foldE rehash_step t nds = Inr t' \<and> ht_core t' \<and> no_tombstone t' \<and>
    bucketsz t' = bucketsz t \<and> sz t' = sz t \<and>
    ht_count t' = ht_count t + length (filter (\<lambda>nd. status nd = OCCUPIED) nds) \<and>
    ht_map t' = ht_map t ++ map_of (List.map_filter node_entry nds)"
  using assms
proof (induction nds arbitrary: t)
  case Nil
  then show ?case by (simp add: map_filter_simps)
next
  case (Cons nd nds)
  show ?case
  proof (cases "status nd = OCCUPIED")
    case False
    then have "rehash_step t nd = Inr t" "node_entry nd = None"
      by (simp_all add: rehash_step_def node_entry_def)
    with False Cons.prems Cons.IH [of t] show ?thesis by (simp add: map_filter_simps)
  next
    case True
    with Cons.prems(5) [of nd] obtain v where v: "hval nd = Some v" "absent t (hkey nd)" by auto
    with True Cons.prems(1-3) obtain t1 where t1: "rehash_step t nd = Inr t1" "ht_core t1" "no_tombstone t1"
        "bucketsz t1 = bucketsz t" "sz t1 = sz t" "ht_count t1 = Suc (ht_count t)"
        "ht_map t1 = (ht_map t)(hkey nd \<mapsto> v)"
      using rehash_step_new [of t nd v] by auto
    have ne: "hkey nd \<noteq> hkey nd'" if "nd' \<in> set nds" "status nd' = OCCUPIED" for nd'
      using that True Cons.prems(4) by auto
    then have ne_map: "hkey nd \<notin> dom (map_of (List.map_filter node_entry nds))"
      using node_entry_keys [of "hkey nd" nds] by metis
    have "absent t1 (hkey nd')" if "nd' \<in> set nds" "status nd' = OCCUPIED" for nd'
      using Cons.prems(1) Cons.prems(5) [of nd'] that ne [OF that] t1(2,7)
      by (simp flip: ht_map_None_iff)
    then obtain t2 where t2: "foldE rehash_step t1 nds = Inr t2" "ht_core t2" "no_tombstone t2"
        "bucketsz t2 = bucketsz t1" "sz t2 = sz t1"
        "ht_count t2 = ht_count t1 + length (filter (\<lambda>nd. status nd = OCCUPIED) nds)"
        "ht_map t2 = ht_map t1 ++ map_of (List.map_filter node_entry nds)"
      using Cons.IH [of t1] Cons.prems t1(2-6) True by auto
    have "ht_map t2 = ht_map t ++ map_of (List.map_filter node_entry (nd # nds))"
      unfolding t2(7) t1(7)
      using True v(1) ne_map by (simp add: map_filter_simps node_entry_simps map_add_upd_left)
    with t1(1,4-6) t2(1-6) True show ?thesis by simp
  qed
qed

section \<open>The table as a map\<close>

lemma core_nodes:
  assumes "ht_core t"
  shows "distinct (map hkey (filter (\<lambda>nd. status nd = OCCUPIED) (buckets t)))"
    and "nd \<in> set (buckets t) \<Longrightarrow> status nd = OCCUPIED \<Longrightarrow> \<exists>v. hval nd = Some v"
proof -
  note core = coreD [OF assms]
  show "distinct (map hkey (filter (\<lambda>nd. status nd = OCCUPIED) (buckets t)))"
    by (rule distinct_map_filterI) (rule core(5), auto simp: core(1) holds_key_def)
  show "\<exists>v. hval nd = Some v" if "nd \<in> set (buckets t)" "status nd = OCCUPIED"
    using that core(1,3) by (auto simp: in_set_conv_nth holds_key_def)
qed

lemma entries_map_filter:
  "(\<And>nd. nd \<in> set nds \<Longrightarrow> status nd = OCCUPIED \<Longrightarrow> \<exists>v. hval nd = Some v) \<Longrightarrow>
   map (\<lambda>nd. (hkey nd, the (hval nd))) (filter (\<lambda>nd. status nd = OCCUPIED) nds) =
   List.map_filter node_entry nds"
proof (induction nds)
  case (Cons nd nds)
  have "map (\<lambda>nd. (hkey nd, the (hval nd))) (filter (\<lambda>nd. status nd = OCCUPIED) nds) =
      List.map_filter node_entry nds"
    using Cons.prems by (intro Cons.IH) auto
  then show ?case
    using Cons.prems [of nd] by (auto simp: map_filter_simps node_entry_simps)
qed (simp add: map_filter_simps)

lemma ht_entries_eq: "ht_core t \<Longrightarrow> ht_entries t = List.map_filter node_entry (buckets t)"
  unfolding ht_entries_def by (intro entries_map_filter core_nodes(2))

lemma ht_entries_distinct: "ht_core t \<Longrightarrow> distinct (map fst (ht_entries t))"
  using core_nodes(1) [of t] by (simp add: ht_entries_def comp_def)

lemma ht_map_entries:
  assumes "ht_core t"
  shows "ht_map t = map_of (ht_entries t)"
proof (rule map_eqI)
  fix k v
  note core = coreD [OF assms]
  have "map_of (ht_entries t) k = Some v \<longleftrightarrow> (k, v) \<in> set (ht_entries t)"
    using ht_entries_distinct [OF assms] by (rule map_of_eq_Some_iff)
  also have "\<dots> \<longleftrightarrow> (\<exists>nd\<in>set (buckets t). status nd = OCCUPIED \<and> hkey nd = k \<and> hval nd = Some v)"
    using core_nodes(2) [OF assms] by (fastforce simp: ht_entries_def)
  also have "\<dots> \<longleftrightarrow> ht_map t k = Some v"
    unfolding ht_map_Some_iff [OF assms] holds_key_def core(1) [symmetric]
    by (metis in_set_conv_nth)
  finally show "ht_map t k = Some v \<longleftrightarrow> map_of (ht_entries t) k = Some v" by simp
qed

lemma rehash_ok:
  fixes t :: "'v HashTable"
  assumes "ht_core t"
  shows "\<exists>t'. rehash t = Inr t' \<and> ht_core t' \<and> no_tombstone t' \<and> bucketsz t' = 2 * bucketsz t \<and>
    sz t' = sz t \<and> ht_count t' = ht_count t \<and> ht_map t' = ht_map t"
proof -
  note core = coreD [OF assms]
  let ?t = "t\<lparr>bucketsz := 2 * bucketsz t, buckets := replicate (2 * bucketsz t) empty_Node\<rparr>"
  have e: "ht_core ?t" "no_tombstone ?t" "ht_count ?t = 0" "absent ?t k" for k
    using core(2) ht_core_replicate [of "2 * bucketsz t" t]
    by (simp_all add: no_tombstone_def ht_count_def absent_def holds_key_def, simp_all add: empty_Node_def)
  have m: "ht_map ?t = Map.empty"
    using e(4) by (simp add: fun_eq_iff ht_map_None_iff [OF e(1)])
  have "ht_map t = map_of (List.map_filter node_entry (buckets t))"
    using ht_map_entries [OF assms] ht_entries_eq [OF assms] by simp
  with rehash_loop [OF e(1,2), of "buckets t"] e(3,4) m core core_nodes [OF assms] show ?thesis
    unfolding rehash_def by (simp add: Let_def ht_count_def)
qed

section \<open>Behaviour of the operations\<close>

lemma ht_find_cases:
  assumes "ht_core t"
  obtains (present) j where "ht_find t k = Inr j" "j < bucketsz t" "holds_key t j k" "\<not> absent t k"
  | (free) j where "ht_find t k = Inr j" "absent t k" "has_empty t"
      "j < bucketsz t" "status (buckets t ! j) \<noteq> OCCUPIED"
  | (full) "ht_find t k = Inl no_slot" "absent t k" "\<not> has_empty t"
proof (cases "absent t k")
  case False
  then obtain j where "j < bucketsz t" "holds_key t j k" by (rule not_absentE)
  with assms False present show ?thesis by (blast intro: ht_find_present)
next
  case True
  show ?thesis
  proof (cases "ht_find t k")
    case (Inl e)
    with ht_find_throws [OF assms Inl] full show ?thesis by simp
  next
    case (Inr j)
    with ht_find_absent [OF assms True Inr] True free show ?thesis by blast
  qed
qed

lemma ht_get_eq:
  assumes "ht_core t"
  shows "ht_get t k = (if ht_map t k = None \<and> \<not> has_empty t then Inl no_slot else Inr (ht_map t k))"
  using assms
proof (cases rule: ht_find_cases [of t k])
  case (present j)
  then obtain v where "hval (buckets t ! j) = Some v" using coreD(3) [OF assms] by blast
  moreover from this present have "ht_map t k = Some v" using ht_map_Some_iff [OF assms] by blast
  ultimately show ?thesis using present by (simp add: ht_get_def holds_key_def)
next
  case (free j)
  moreover from free have "ht_map t k = None" by (simp add: ht_map_None_iff [OF assms])
  ultimately show ?thesis by (simp add: ht_get_def)
next
  case full
  moreover from full have "ht_map t k = None" by (simp add: ht_map_None_iff [OF assms])
  ultimately show ?thesis by (simp add: ht_get_def)
qed

lemma ht_checkexist_eq:
  assumes "ht_core t"
  shows "ht_checkexist t k =
    (if ht_map t k = None \<and> \<not> has_empty t then Inl no_slot else Inr (ht_map t k \<noteq> None))"
  using assms
  by (cases rule: ht_find_cases [of t k])
    (auto simp: ht_checkexist_def ht_map_None_iff [OF assms] holds_key_def)

lemma ht_set_over:
  assumes "ht_ok t" "ht_map t k = Some w"
  shows "\<exists>t'. ht_set t k v = Inr t' \<and> ht_ok t' \<and> ht_map t' = (ht_map t)(k \<mapsto> v) \<and>
    (no_tombstone t \<longrightarrow> no_tombstone t')"
proof -
  have core: "ht_core t" and na: "\<not> absent t k"
    using assms ht_map_None_iff [of t k] by (auto simp: ht_ok_def)
  from core na obtain j where j: "ht_find t k = Inr j" "j < bucketsz t" "holds_key t j k"
    by (cases rule: ht_find_cases [of t k]) auto
  let ?nd = "(buckets t ! j)\<lparr>hval := Some v\<rparr>"
  have "no_tombstone t \<longrightarrow> no_tombstone (put t j ?nd)"
    using j(3) by (intro impI no_tombstone_put) (simp_all add: holds_key_def)
  with store_over [OF core j(2,3), of v] assms(1) j show ?thesis
    by (auto simp: ht_set_def Let_def holds_key_def ht_ok_def over_load_def)
qed

lemma double_room: "0 < (n::nat) \<Longrightarrow> 4 * c \<le> 3 * n \<Longrightarrow> 4 * (c + 1) \<le> 3 * (2 * n)"
  by presburger

lemma ht_set_new:
  assumes "ht_ok t" "ht_map t k = None" "has_empty t"
  shows "\<exists>t'. ht_set t k v = Inr t' \<and> ht_ok t' \<and> ht_map t' = (ht_map t)(k \<mapsto> v) \<and>
    (no_tombstone t \<longrightarrow> no_tombstone t')"
proof -
  have core: "ht_core t" and ab: "absent t k"
    using assms ht_map_None_iff [of t k] by (auto simp: ht_ok_def)
  from core ab assms(3) obtain j where j: "ht_find t k = Inr j" "j < bucketsz t"
      "status (buckets t ! j) \<noteq> OCCUPIED"
    by (cases rule: ht_find_cases [of t k]) auto
  note st = store_new [OF core ab j(1), of v]
  let ?t = "(put t j (new_Node k v))\<lparr>sz := sz t + 1\<rparr>"
  have nt: "no_tombstone t \<longrightarrow> no_tombstone ?t"
    using no_tombstone_put [of t "new_Node k v" j] by (simp add: no_tombstone_def new_Node_def)
  have sz: "sz ?t = ht_count ?t" using assms(1) st(3) by (simp add: ht_ok_def)
  show ?thesis
  proof (cases "over_load ?t")
    case False
    with st sz nt j show ?thesis by (simp add: ht_set_def Let_def ht_ok_def)
  next
    case True
    from st(1) have "ht_core ?t" by simp
    from rehash_ok [OF this] obtain t' where t': "rehash ?t = Inr t'" "ht_core t'" "no_tombstone t'"
        "bucketsz t' = 2 * bucketsz ?t" "sz t' = sz ?t" "ht_count t' = ht_count ?t" "ht_map t' = ht_map ?t"
      by blast
    have "\<not> over_load t'"
      using t'(4,5) assms(1) coreD(2) [OF core] double_room [of "bucketsz t" "sz t"]
      by (simp add: over_load_def ht_ok_def)
    with t' True st sz j show ?thesis by (simp add: ht_set_def Let_def ht_ok_def)
  qed
qed

lemma ht_set_full:
  "ht_core t \<Longrightarrow> ht_map t k = None \<Longrightarrow> \<not> has_empty t \<Longrightarrow> ht_set t k v = Inl no_slot"
  by (cases rule: ht_find_cases [of t k]) (auto simp: ht_set_def ht_map_None_iff)

lemma ht_erase_present:
  assumes "ht_ok t" "ht_map t k = Some w"
  shows "\<exists>t'. ht_erase t k = Inr (t', True) \<and> ht_ok t' \<and> ht_map t' = (ht_map t)(k := None) \<and>
    bucketsz t' = bucketsz t"
proof -
  have core: "ht_core t" and na: "\<not> absent t k"
    using assms ht_map_None_iff [of t k] by (auto simp: ht_ok_def)
  from core na obtain j where j: "ht_find t k = Inr j" "j < bucketsz t" "holds_key t j k"
    by (cases rule: ht_find_cases [of t k]) auto
  with store_deleted [OF core j(2,3)] assms(1) show ?thesis
    by (auto simp: ht_erase_def Let_def holds_key_def ht_ok_def over_load_def)
qed

lemma ht_erase_absent:
  assumes "ht_core t" "ht_map t k = None"
  shows "ht_erase t k = (if has_empty t then Inr (t, False) else Inl no_slot)"
  using assms(1)
  by (cases rule: ht_find_cases [of t k])
    (use assms ht_map_None_iff [of t k] in \<open>auto simp: ht_erase_def\<close>)

lemma new_HashTable_core: "ht_core new_HashTable" "absent new_HashTable k" "no_tombstone new_HashTable"
  by (simp_all add: new_HashTable_def ht_core_def absent_def holds_key_def no_tombstone_def empty_Node_def)

lemma new_HashTable_ok [simp]:
  "ht_ok new_HashTable" "ht_map new_HashTable = Map.empty"
proof -
  show "ht_ok new_HashTable"
    using new_HashTable_core(1)
    by (simp add: ht_ok_def over_load_def ht_count_def new_HashTable_def empty_Node_def)
  show "ht_map new_HashTable = Map.empty"
    by (simp add: fun_eq_iff ht_map_None_iff new_HashTable_core)
qed

lemma ht_set_refines:
  assumes "ht_ok t" "ht_set t k v = Inr t'"
  shows "ht_ok t' \<and> ht_map t' = (ht_map t)(k \<mapsto> v)"
proof (cases "ht_map t k")
  case None
  with assms ht_set_full [of t k v] have "has_empty t" by (auto simp: ht_ok_def)
  with None assms ht_set_new [of t k v] show ?thesis by auto
next
  case (Some w)
  with assms ht_set_over [of t k w v] show ?thesis by auto
qed

lemma ht_erase_refines:
  assumes "ht_ok t" "ht_erase t k = Inr (t', b)"
  shows "ht_ok t' \<and> ht_map t' = (ht_map t)(k := None) \<and> b = (ht_map t k \<noteq> None)"
proof (cases "ht_map t k")
  case None
  with assms ht_erase_absent [of t k] show ?thesis by (auto simp: ht_ok_def fun_upd_idem split: if_splits)
next
  case (Some w)
  with assms ht_erase_present [of t k w] show ?thesis by auto
qed

text \<open>Without tombstones the load limit leaves an empty bucket.\<close>

lemma no_tombstone_has_empty:
  assumes "ht_ok t" "no_tombstone t"
  shows "has_empty t"
proof (rule has_empty_if_room)
  show "ht_count t < bucketsz t"
    using assms(1) coreD(2) [of t] by (auto simp: ht_ok_def over_load_def)
qed (use assms in \<open>auto simp: ht_ok_def\<close>)

definition ht_lookup :: "'v HashTable \<Rightarrow> string \<Rightarrow> ('v HashTable \<times> 'v option) res" where
  "ht_lookup t k = bindE (ht_get t k) (\<lambda>r. Inr (t, r))"

interpretation ht: total_map new_HashTable ht_lookup ht_set ht_erase ht_ok ht_map
  "\<lambda>t. ht_ok t \<and> no_tombstone t"
proof unfold_locales
  fix t t' :: "'v HashTable" and k r
  assume "ht_ok t" "ht_lookup t k = Inr (t', r)"
  then show "ht_ok t' \<and> ht_map t' = ht_map t \<and> r = ht_map t k"
    by (auto simp: ht_lookup_def bindE_Inr_iff ht_ok_def ht_get_eq split: if_splits)
next
  fix t :: "'v HashTable" and k
  assume "ht_ok t" "ht_ok t \<and> no_tombstone t"
  then show "\<exists>t' r. ht_lookup t k = Inr (t', r) \<and> ht_ok t' \<and> no_tombstone t'"
    using no_tombstone_has_empty [of t] by (simp add: ht_lookup_def ht_get_eq ht_ok_def)
next
  fix t :: "'v HashTable" and k v
  assume t: "ht_ok t" "ht_ok t \<and> no_tombstone t"
  then have "has_empty t" using no_tombstone_has_empty by blast
  with t ht_set_new [of t k v] ht_set_over [of t k _ v]
  show "\<exists>t'. ht_set t k v = Inr t' \<and> ht_ok t' \<and> no_tombstone t'"
    by (cases "ht_map t k") auto
qed (auto simp: new_HashTable_core dest: ht_set_refines ht_erase_refines)

section \<open>Single probes and runs that leave tombstones\<close>

text \<open>A key whose first bucket is empty is stored there; deleting it leaves a tombstone.\<close>

lemma find_first:
  assumes "bucketsz t > 0" "stops t k 0"
  shows "ht_find t k = Inr (slot t k 0)"
  using assms by (cases "bucketsz t") (auto simp: ht_find_eq stops_def holds_key_def Let_def)

lemma set_erase_first:
  assumes "bucketsz t > 1" "length (buckets t) = bucketsz t" "sz t = 0"
    and "status (buckets t ! slot t k 0) = EMPTY"
  shows "run_ops ht_lookup ht_set ht_erase t [Op_Set k v, Op_Del k] =
    Inr (put t (slot t k 0) \<lparr>hkey = k, hval = Some v, status = DELETED\<rparr>, [Stored, Removed True])"
proof -
  let ?i = "slot t k 0" and ?t = "(put t (slot t k 0) (new_Node k v))\<lparr>sz := 1\<rparr>"
  have i: "?i < length (buckets t)" using assms(1,2) by simp
  have "ht_find t k = Inr ?i" by (rule find_first) (use assms in \<open>auto simp: stops_def\<close>)
  then have set: "ht_set t k v = Inr ?t"
    using assms by (simp add: ht_set_def Let_def over_load_def)
  have "ht_find ?t k = Inr (slot ?t k 0)"
    using assms(1) i by (intro find_first) (simp_all add: stops_def holds_key_def new_Node_def)
  then have "ht_erase ?t k = Inr (put t ?i \<lparr>hkey = k, hval = Some v, status = DELETED\<rparr>, True)"
    using i assms(3) by (cases t) (simp add: ht_erase_def Let_def new_Node_def put_def slot_def)
  with set show ?thesis by simp
qed

definition exhausting_ops :: "'v \<Rightarrow> string \<Rightarrow> 'v op list" where
  "exhausting_ops v cs = concat (map (\<lambda>c. [Op_Set [c] v, Op_Del [c]]) cs)"

lemma exhausting_run:
  assumes "bucketsz t > 1" "length (buckets t) = bucketsz t" "sz t = 0"
    and "distinct (map (\<lambda>c. slot t [c] 0) cs)" "\<forall>c\<in>set cs. status (buckets t ! slot t [c] 0) = EMPTY"
  shows "\<exists>t' as. run_ops ht_lookup ht_set ht_erase t (exhausting_ops v cs) = Inr (t', as) \<and>
    length (buckets t') = length (buckets t) \<and>
    (\<forall>c\<in>set cs. status (buckets t' ! slot t [c] 0) = DELETED) \<and>
    (\<forall>i. i \<notin> (\<lambda>c. slot t [c] 0) ` set cs \<longrightarrow> buckets t' ! i = buckets t ! i)"
  using assms
proof (induction cs arbitrary: t)
  case Nil
  then show ?case by (simp add: exhausting_ops_def)
next
  case (Cons c cs)
  let ?i = "slot t [c] 0"
  let ?t = "put t ?i \<lparr>hkey = [c], hval = Some v, status = DELETED\<rparr>"
  have i: "?i < length (buckets t)" using Cons.prems(1,2) by simp
  have step: "run_ops ht_lookup ht_set ht_erase t [Op_Set [c] v, Op_Del [c]] = Inr (?t, [Stored, Removed True])"
    using Cons.prems by (intro set_erase_first) auto
  have "\<forall>c'\<in>set cs. ?i \<noteq> slot t [c'] 0" using Cons.prems(4) by (simp add: image_iff)
  then have "\<forall>c'\<in>set cs. status (buckets ?t ! slot ?t [c'] 0) = EMPTY"
    using Cons.prems(5) by simp
  then obtain t' as where t': "run_ops ht_lookup ht_set ht_erase ?t (exhausting_ops v cs) = Inr (t', as)"
      "length (buckets t') = length (buckets ?t)"
      "\<forall>c\<in>set cs. status (buckets t' ! slot ?t [c] 0) = DELETED"
      "\<forall>i. i \<notin> (\<lambda>c. slot ?t [c] 0) ` set cs \<longrightarrow> buckets t' ! i = buckets ?t ! i"
    using Cons.IH [of ?t] Cons.prems by auto
  have "run_ops ht_lookup ht_set ht_erase t (exhausting_ops v (c # cs)) = Inr (t', Stored # Removed True # as)"
    using run_ops_append [of ht_lookup ht_set ht_erase t "[Op_Set [c] v, Op_Del [c]]" "exhausting_ops v cs"]
      step t'(1) by (simp add: exhausting_ops_def)
  moreover have "?i \<notin> (\<lambda>c. slot t [c] 0) ` set cs" using Cons.prems(4) by auto
  ultimately show ?case using t'(2-4) i by auto
qed

section \<open>Properties\<close>

text \<open>C9. Every sequence of lookups, insertions and deletions on a fresh table that ends without
  an exception gives the answers a finite map gives, and the table then stands for that map:
  probing, tombstone reuse and doubling are invisible.\<close>

theorem hash_table_refines_map:
  assumes "run_ops ht_lookup ht_set ht_erase new_HashTable ops = Inr (t, answers)"
  shows "spec_ops Map.empty ops = (ht_map t, answers) \<and> ht_ok t"
  using ht.run_ops_from_new [OF assms] ht.run_ops_refines [OF ht.invar_new assms] by simp

theorem hash_table_refines_map_witness:
  "spec_ops Map.empty [Op_Set ''a'' (1::nat), Op_Del ''a''] =
     (ht_map (put (new_HashTable :: nat HashTable) (slot (new_HashTable :: nat HashTable) ''a'' 0)
        \<lparr>hkey = ''a'', hval = Some 1, status = DELETED\<rparr>), [Stored, Removed True]) \<and>
   ht_ok (put (new_HashTable :: nat HashTable) (slot (new_HashTable :: nat HashTable) ''a'' 0)
        \<lparr>hkey = ''a'', hval = Some 1, status = DELETED\<rparr>)"
  by (rule hash_table_refines_map, rule set_erase_first)
    (simp_all add: new_HashTable_def slot_def empty_Node_def)

text \<open>C36. As long as nothing is deleted no operation on the table throws: every sequence of
  lookups and insertions runs to its end, with the answers of a finite map.\<close>

theorem hash_table_total_without_erase:
  assumes "\<And>k. Op_Del k \<notin> set ops"
  shows "\<exists>t answers. run_ops ht_lookup ht_set ht_erase new_HashTable ops = Inr (t, answers) \<and>
    spec_ops Map.empty ops = (ht_map t, answers)"
proof -
  obtain t answers where "run_ops ht_lookup ht_set ht_erase new_HashTable ops = Inr (t, answers)"
    using ht.run_ops_total [OF _ _ assms, where t = new_HashTable] new_HashTable_core(3) new_HashTable_ok(1)
    by blast
  with ht.run_ops_from_new [OF this] show ?thesis by blast
qed

theorem hash_table_total_without_erase_witness:
  "\<exists>t answers. run_ops ht_lookup ht_set ht_erase new_HashTable [Op_Set ''a'' (1::nat), Op_Get ''b''] = Inr (t, answers) \<and>
    spec_ops Map.empty [Op_Set ''a'' 1, Op_Get ''b''] = (ht_map t, answers)"
  by (rule hash_table_total_without_erase) simp

text \<open>Exactly when the operations throw: the key is absent and no bucket is empty.  A bucket
  holding a tombstone does not help, although \<open>find\<close> remembers it in \<open>first_del\<close>.\<close>

theorem hash_table_throws_iff:
  assumes "ht_ok t"
  shows "(ht_get t k = Inl e \<longleftrightarrow> e = Runtime_Error ''Empty position not found'' \<and> ht_map t k = None \<and> \<not> has_empty t) \<and>
    (ht_set t k v = Inl e \<longleftrightarrow> e = Runtime_Error ''Empty position not found'' \<and> ht_map t k = None \<and> \<not> has_empty t) \<and>
    (ht_erase t k = Inl e \<longleftrightarrow> e = Runtime_Error ''Empty position not found'' \<and> ht_map t k = None \<and> \<not> has_empty t)"
proof -
  have core: "ht_core t" using assms by (simp add: ht_ok_def)
  show ?thesis
  proof (cases "ht_map t k")
    case None
    with ht_set_new [OF assms None, of v] ht_set_full [OF core None, of v] show ?thesis
      by (cases "has_empty t") (auto simp: ht_get_eq [OF core] ht_erase_absent [OF core None])
  next
    case (Some w)
    with ht_set_over [OF assms Some, of v] ht_erase_present [OF assms Some] show ?thesis
      by (auto simp: ht_get_eq [OF core])
  qed
qed

theorem hash_table_throws_iff_witness:
  "ht_ok (new_HashTable :: nat HashTable) \<and>
   (ht_get (new_HashTable :: nat HashTable) ''a'' = Inl (Runtime_Error ''Empty position not found'') \<longleftrightarrow>
     ht_map (new_HashTable :: nat HashTable) ''a'' = None \<and> \<not> has_empty (new_HashTable :: nat HashTable))"
  using hash_table_throws_iff [of "new_HashTable :: nat HashTable" "''a''" "Runtime_Error ''Empty position not found''" 0]
  by simp

text \<open>Tombstones are never reclaimed without growth, so deletions can use the table up: after
  sixteen insertions, each followed by the deletion of the same key, the table stands for the empty
  map, and yet every further lookup, insertion and deletion throws.\<close>

theorem tombstones_exhaust_table:
  "\<exists>t answers. run_ops ht_lookup ht_set ht_erase new_HashTable (exhausting_ops v ''abcdefghijklmnop'') = Inr (t, answers) \<and>
    ht_map t = Map.empty \<and>
    (\<forall>k. ht_get t k = Inl (Runtime_Error ''Empty position not found'') \<and>
      ht_set t k w = Inl (Runtime_Error ''Empty position not found'') \<and>
      ht_erase t k = Inl (Runtime_Error ''Empty position not found''))"
proof -
  let ?t = "new_HashTable :: 'a HashTable" and ?cs = "''abcdefghijklmnop''"
  have res: "map (\<lambda>c. slot ?t [c] 0) ?cs = [0, 9, 6, 15, 12, 5, 2, 11, 8, 1, 14, 7, 4, 13, 10, 3]"
    by (simp add: slot_def new_HashTable_def gethash_def char_u32_def Let_def)
  have empty: "status (buckets ?t ! i) = EMPTY" if "i < 16" for i
    using that by (simp add: new_HashTable_def empty_Node_def)
  have "\<exists>t' as. run_ops ht_lookup ht_set ht_erase ?t (exhausting_ops v ?cs) = Inr (t', as) \<and>
      length (buckets t') = length (buckets ?t) \<and>
      (\<forall>c\<in>set ?cs. status (buckets t' ! slot ?t [c] 0) = DELETED) \<and>
      (\<forall>i. i \<notin> (\<lambda>c. slot ?t [c] 0) ` set ?cs \<longrightarrow> buckets t' ! i = buckets ?t ! i)"
    by (rule exhausting_run) (unfold res, auto simp: new_HashTable_def empty_Node_def slot_def)
  then obtain t as where t: "run_ops ht_lookup ht_set ht_erase ?t (exhausting_ops v ?cs) = Inr (t, as)"
      "length (buckets t) = 16" "\<forall>c\<in>set ?cs. status (buckets t ! slot ?t [c] 0) = DELETED"
    by (auto simp: new_HashTable_def)
  have "\<forall>i\<in>set (map (\<lambda>c. slot ?t [c] 0) ?cs). status (buckets t ! i) = DELETED"
    using t(3) by simp
  then have "\<forall>i<16. status (buckets t ! i) = DELETED"
    unfolding res by (simp add: less_Suc_eq numeral_eq_Suc)
  then have d: "nd \<in> set (buckets t) \<Longrightarrow> status nd = DELETED" for nd
    using t(2) by (auto simp: in_set_conv_nth)
  have ok: "ht_ok t" using ht.run_ops_refines [OF ht.invar_new t(1)] by simp
  have m: "ht_map t = Map.empty"
    using d by (fastforce simp: ht_map_def fun_eq_iff find_Some_iff split: option.split)
  have "\<not> has_empty t" using d by (auto simp: has_empty_def)
  with t(1) m ok show ?thesis
    by (auto simp: ht_get_eq ht_set_full ht_erase_absent ht_ok_def)
qed

end
