(* ===== verification/Lru_Cache.thy ===== *)
theory Lru_Cache
  imports Hash_Table
begin

text \<open>
  The recency list of a shard, \<open>kvstore/LRU.cpp\<close>: a \<open>std::list\<close> of keys, oldest first, and a
  hash table from a key to the iterator of its list node.  A list node has an identity (a number
  that is never used twice), an iterator is that identity, and erasing a node through an iterator
  whose node is gone is the undefined behaviour \<open>Dangling\<close>.

  \<open>lru_ok\<close> relates list and table; under it no operation ever uses a dangling iterator, and the
  operations are the ones of a bounded list of distinct keys (\<open>recency_access\<close>, \<open>recency_set\<close>,
  \<open>recency_del\<close>).
\<close>

section \<open>State and operations\<close>

type_synonym list_node = "nat \<times> string"

record LRU =
  maxsz :: nat
  lst :: "list_node list"
  fresh :: nat
  hash :: "nat HashTable"

definition new_LRU :: "nat \<Rightarrow> LRU" where
  "new_LRU n = \<lparr>maxsz = n, lst = [], fresh = 0, hash = new_HashTable\<rparr>"

text \<open>\<open>lst.erase(it)\<close>.\<close>

definition list_erase :: "list_node list \<Rightarrow> nat \<Rightarrow> list_node list res" where
  "list_erase xs it =
     (if it \<in> fst ` set xs then Inr (filter (\<lambda>n. fst n \<noteq> it) xs) else Inl (UB Dangling))"

text \<open>\<open>lst.push_back(x); hash.set(x, prev(lst.end()));\<close>\<close>

definition push_newest :: "LRU \<Rightarrow> string \<Rightarrow> LRU res" where
  "push_newest l x = bindE (ht_set (hash l) x (fresh l)) (\<lambda>h.
     Inr (l\<lparr>lst := lst l @ [(fresh l, x)], fresh := Suc (fresh l), hash := h\<rparr>))"

definition lru_access :: "LRU \<Rightarrow> string \<Rightarrow> LRU res" where
  "lru_access l x = bindE (ht_get (hash l) x) (\<lambda>it. case it of
     None \<Rightarrow> Inr l
   | Some i \<Rightarrow> bindE (list_erase (lst l) i) (\<lambda>xs. push_newest (l\<lparr>lst := xs\<rparr>) x))"

definition lru_set :: "LRU \<Rightarrow> string \<Rightarrow> (LRU \<times> string option) res" where
  "lru_set l x = bindE (ht_get (hash l) x) (\<lambda>it. case it of
     Some i \<Rightarrow> bindE (list_erase (lst l) i) (\<lambda>xs.
       bindE (push_newest (l\<lparr>lst := xs\<rparr>) x) (\<lambda>l'. Inr (l', None)))
   | None \<Rightarrow> bindE (push_newest l x) (\<lambda>l'.
       if length (lst l') > maxsz l' then
         let erasestr = snd (hd (lst l')) in
         bindE (ht_erase (hash l') erasestr) (\<lambda>(h, _).
           Inr (l'\<lparr>lst := tl (lst l'), hash := h\<rparr>, Some erasestr))
       else Inr (l', None)))"

definition lru_del :: "LRU \<Rightarrow> string \<Rightarrow> LRU res" where
  "lru_del l x = bindE (ht_get (hash l) x) (\<lambda>it. case it of
     None \<Rightarrow> Inr l
   | Some i \<Rightarrow> bindE (list_erase (lst l) i) (\<lambda>xs.
       bindE (ht_erase (hash l) x) (\<lambda>(h, _). Inr (l\<lparr>lst := xs, hash := h\<rparr>))))"

definition lru_clear :: "LRU \<Rightarrow> LRU" where
  "lru_clear l = l\<lparr>lst := [], hash := new_HashTable\<rparr>"

section \<open>Specification\<close>

text \<open>The keys in the order of their last use, oldest first.\<close>

definition recency :: "LRU \<Rightarrow> string list" where
  "recency l = map snd (lst l)"

definition recency_del :: "string list \<Rightarrow> string \<Rightarrow> string list" where
  "recency_del ks x = filter (\<lambda>k. k \<noteq> x) ks"

definition recency_access :: "string list \<Rightarrow> string \<Rightarrow> string list" where
  "recency_access ks x = (if x \<in> set ks then recency_del ks x @ [x] else ks)"

definition recency_set :: "nat \<Rightarrow> string list \<Rightarrow> string \<Rightarrow> string list \<times> string option" where
  "recency_set n ks x =
     (let ks' = recency_del ks x @ [x] in
      if length ks' > n then (tl ks', Some (hd ks')) else (ks', None))"

definition lru_ok :: "LRU \<Rightarrow> bool" where
  "lru_ok l \<longleftrightarrow> ht_ok (hash l) \<and> distinct (map fst (lst l)) \<and> (\<forall>n\<in>set (lst l). fst n < fresh l) \<and>
     (\<forall>k i. ht_map (hash l) k = Some i \<longleftrightarrow> (i, k) \<in> set (lst l)) \<and> length (lst l) \<le> maxsz l"

section \<open>Lemmas\<close>

lemma lru_okD:
  assumes "lru_ok l"
  shows "ht_ok (hash l)" "distinct (map fst (lst l))" "n \<in> set (lst l) \<Longrightarrow> fst n < fresh l"
    "ht_map (hash l) k = Some i \<longleftrightarrow> (i, k) \<in> set (lst l)" "length (lst l) \<le> maxsz l"
  using assms by (auto simp: lru_ok_def)

lemma lru_get:
  "lru_ok l \<Longrightarrow> ht_get (hash l) x =
     (if ht_map (hash l) x = None \<and> \<not> has_empty (hash l) then Inl no_slot else Inr (ht_map (hash l) x))"
  by (rule ht_get_eq) (simp add: lru_ok_def ht_ok_def)

lemma new_LRU_ok: "lru_ok (new_LRU n)"
  by (simp add: lru_ok_def new_LRU_def)

lemma lru_clear_ok: "lru_ok (lru_clear l) \<and> recency (lru_clear l) = [] \<and> maxsz (lru_clear l) = maxsz l"
  by (simp add: lru_ok_def lru_clear_def recency_def)

text \<open>The list and the table agree on a key, whichever of the two is asked.\<close>

lemma recency_iff: "lru_ok l \<Longrightarrow> x \<in> set (recency l) \<longleftrightarrow> ht_map (hash l) x \<noteq> None"
  by (force simp: recency_def lru_okD(4))

lemma node_unique: "lru_ok l \<Longrightarrow> (i, k) \<in> set (lst l) \<Longrightarrow> (j, k) \<in> set (lst l) \<Longrightarrow> i = j"
  by (metis lru_okD(4) option.inject)

lemma recency_distinct: "lru_ok l \<Longrightarrow> distinct (recency l)"
  unfolding recency_def distinct_map
  using lru_okD(2) [of l] node_unique [of l] by (fastforce simp: distinct_map inj_on_def)

lemma erase_node:
  assumes "lru_ok l" "ht_map (hash l) x = Some i"
  shows "list_erase (lst l) i = Inr (filter (\<lambda>n. snd n \<noteq> x) (lst l))"
proof -
  have x: "(i, x) \<in> set (lst l)" using assms by (simp add: lru_okD)
  have "fst n \<noteq> i \<longleftrightarrow> snd n \<noteq> x" if n: "n \<in> set (lst l)" for n
  proof
    assume "fst n \<noteq> i"
    then show "snd n \<noteq> x" using node_unique [OF assms(1) x] n by (metis prod.collapse)
  next
    assume "snd n \<noteq> x"
    then show "fst n \<noteq> i"
      using inj_onD [of fst "set (lst l)" n "(i, x)"] lru_okD(2) [OF assms(1)] n x
      by (metis distinct_map fst_conv snd_conv)
  qed
  with x show ?thesis by (force simp: list_erase_def intro!: filter_cong)
qed

text \<open>Storing a value succeeds for a key that is present or while some bucket is empty.\<close>

lemma ht_set_succeeds:
  assumes "ht_ok t" "ht_map t k \<noteq> None \<or> has_empty t"
  obtains t' where "ht_set t k v = Inr t'" "ht_ok t'" "ht_map t' = (ht_map t)(k \<mapsto> v)"
  using assms ht_set_over [of t k _ v] ht_set_new [of t k v] by (cases "ht_map t k") auto

text \<open>
  \<open>lru_pre\<close> is what holds between the removal of the old node of \<open>x\<close> and the insertion of the
  new one: the table may still map \<open>x\<close> to the erased node.
\<close>

definition lru_pre :: "LRU \<Rightarrow> string \<Rightarrow> bool" where
  "lru_pre l x \<longleftrightarrow> ht_ok (hash l) \<and> distinct (map fst (lst l)) \<and> (\<forall>n\<in>set (lst l). fst n < fresh l \<and> snd n \<noteq> x) \<and>
     (\<forall>k i. k \<noteq> x \<longrightarrow> (ht_map (hash l) k = Some i \<longleftrightarrow> (i, k) \<in> set (lst l)))"

lemma lru_pre_erased:
  "lru_ok l \<Longrightarrow> lru_pre (l\<lparr>lst := filter (\<lambda>n. snd n \<noteq> x) (lst l)\<rparr>) x"
  by (auto simp: lru_pre_def lru_ok_def distinct_map inj_on_def)

lemma lru_pre_absent: "lru_ok l \<Longrightarrow> ht_map (hash l) x = None \<Longrightarrow> lru_pre l x"
  by (auto simp: lru_pre_def lru_ok_def) (metis option.distinct(1))

lemma push_newest_ok:
  assumes "lru_pre l x" "ht_map (hash l) x \<noteq> None \<or> has_empty (hash l)"
  obtains l' where "push_newest l x = Inr l'" "ht_ok (hash l')" "lst l' = lst l @ [(fresh l, x)]"
    "fresh l' = Suc (fresh l)" "maxsz l' = maxsz l" "distinct (map fst (lst l'))"
    "\<forall>n\<in>set (lst l'). fst n < fresh l'"
    "\<forall>k i. ht_map (hash l') k = Some i \<longleftrightarrow> (i, k) \<in> set (lst l')"
proof -
  have ok: "ht_ok (hash l)" using assms(1) by (simp add: lru_pre_def)
  obtain h where h: "ht_set (hash l) x (fresh l) = Inr h" "ht_ok h" "ht_map h = (ht_map (hash l))(x \<mapsto> fresh l)"
    using ht_set_succeeds [OF ok assms(2)] by metis
  show thesis
  proof (rule that)
    show "push_newest l x = Inr (l\<lparr>lst := lst l @ [(fresh l, x)], fresh := Suc (fresh l), hash := h\<rparr>)"
      by (simp add: push_newest_def h(1))
  qed (use assms(1) h in \<open>auto simp: lru_pre_def less_Suc_eq\<close>)
qed

lemma recency_del_absent: "x \<notin> set ks \<Longrightarrow> recency_del ks x = ks"
  by (induction ks) (auto simp: recency_del_def)

lemma map_snd_filter: "map snd (filter (\<lambda>n. snd n \<noteq> x) ns) = recency_del (map snd ns) x"
  by (simp add: recency_del_def filter_map o_def)

lemma recency_del_shorter: "x \<in> set ks \<Longrightarrow> length (recency_del ks x) < length ks"
  by (auto simp: recency_del_def intro: length_filter_less)

section \<open>Behaviour of the operations\<close>

lemma lru_access_absent:
  assumes "lru_ok l" "x \<notin> set (recency l)"
  shows "lru_access l x = (if has_empty (hash l) then Inr l else Inl no_slot)"
  using assms by (simp add: lru_access_def recency_iff lru_get)

lemma lru_move_to_back:
  assumes "lru_ok l" "x \<in> set (recency l)"
  obtains i l' where "ht_get (hash l) x = Inr (Some i)"
    "list_erase (lst l) i = Inr (filter (\<lambda>n. snd n \<noteq> x) (lst l))"
    "push_newest (l\<lparr>lst := filter (\<lambda>n. snd n \<noteq> x) (lst l)\<rparr>) x = Inr l'"
    "lru_ok l'" "recency l' = recency_del (recency l) x @ [x]" "maxsz l' = maxsz l"
proof -
  let ?l = "l\<lparr>lst := filter (\<lambda>n. snd n \<noteq> x) (lst l)\<rparr>"
  from assms obtain i where i: "ht_map (hash l) x = Some i" by (auto simp: recency_iff)
  have get: "ht_get (hash l) x = Inr (Some i)"
    using assms(1) i by (simp add: lru_get)
  obtain l' where l': "push_newest ?l x = Inr l'" "ht_ok (hash l')" "lst l' = lst ?l @ [(fresh ?l, x)]"
      "fresh l' = Suc (fresh ?l)" "maxsz l' = maxsz ?l" "distinct (map fst (lst l'))"
      "\<forall>n\<in>set (lst l'). fst n < fresh l'" "\<forall>k i. ht_map (hash l') k = Some i \<longleftrightarrow> (i, k) \<in> set (lst l')"
    by (rule push_newest_ok [OF lru_pre_erased [OF assms(1)]]) (use i in auto)
  have rec: "recency l' = recency_del (recency l) x @ [x]"
    using l'(3) by (simp add: recency_def map_snd_filter)
  have "length (lst l') \<le> length (lst l)"
    using recency_del_shorter [OF assms(2)] l'(3) by (simp add: recency_def flip: map_snd_filter)
  with l' lru_okD(5) [OF assms(1)] have "lru_ok l'" by (simp add: lru_ok_def)
  with that [OF get erase_node [OF assms(1) i] l'(1) _ rec] l'(5) show thesis by simp
qed

lemma lru_access_present:
  assumes "lru_ok l" "x \<in> set (recency l)"
  shows "\<exists>l'. lru_access l x = Inr l' \<and> lru_ok l' \<and> recency l' = recency_del (recency l) x @ [x] \<and> maxsz l' = maxsz l"
  by (rule lru_move_to_back [OF assms]) (auto simp: lru_access_def)

lemma lru_set_present:
  assumes "lru_ok l" "x \<in> set (recency l)"
  shows "\<exists>l'. lru_set l x = Inr (l', None) \<and> lru_ok l' \<and> recency l' = recency_del (recency l) x @ [x] \<and> maxsz l' = maxsz l"
  by (rule lru_move_to_back [OF assms]) (auto simp: lru_set_def)

lemma lru_set_full:
  assumes "lru_ok l" "x \<notin> set (recency l)" "\<not> has_empty (hash l)"
  shows "lru_set l x = Inl no_slot"
  using assms by (simp add: lru_set_def recency_iff lru_get)

lemma lru_set_absent:
  assumes "lru_ok l" "x \<notin> set (recency l)" "has_empty (hash l)"
  shows "\<exists>l'. lru_set l x = Inr (l', snd (recency_set (maxsz l) (recency l) x)) \<and> lru_ok l' \<and>
    recency l' = fst (recency_set (maxsz l) (recency l) x) \<and> maxsz l' = maxsz l"
proof -
  have none: "ht_map (hash l) x = None" using assms by (simp add: recency_iff)
  then have get: "ht_get (hash l) x = Inr None"
    using assms by (simp add: lru_get)
  obtain l' where l': "push_newest l x = Inr l'" "ht_ok (hash l')" "lst l' = lst l @ [(fresh l, x)]"
      "fresh l' = Suc (fresh l)" "maxsz l' = maxsz l" "distinct (map fst (lst l'))"
      "\<forall>n\<in>set (lst l'). fst n < fresh l'" "\<forall>k i. ht_map (hash l') k = Some i \<longleftrightarrow> (i, k) \<in> set (lst l')"
    by (rule push_newest_ok [OF lru_pre_absent [OF assms(1) none]]) (use assms(3) in auto)
  have spec: "recency_set (maxsz l) (recency l) x =
      (if length (lst l') > maxsz l' then (map snd (tl (lst l')), Some (snd (hd (lst l')))) else (map snd (lst l'), None))"
    using assms(2) l'(3,5) by (auto simp: recency_set_def recency_del_absent recency_def map_tl Let_def hd_append hd_map)
  show ?thesis
  proof (cases "length (lst l') > maxsz l'")
    case False
    with l' get spec show ?thesis by (simp add: lru_set_def lru_ok_def recency_def)
  next
    case True
    obtain i k ns where ns: "lst l' = (i, k) # ns" using l'(3) by (metis Nil_is_append_conv list.exhaust not_Cons_self2 surj_pair)
    then have "ht_map (hash l') k = Some i" using l'(8) by simp
    from ht_erase_present [OF l'(2) this] obtain h where
      h: "ht_erase (hash l') k = Inr (h, True)" "ht_ok h" "ht_map h = (ht_map (hash l'))(k := None)" by blast
    have uniq: "j = i" if "(j, k) \<in> set ns" for j
      using \<open>ht_map (hash l') k = Some i\<close> l'(8) [rule_format, of k j] that ns by simp
    have "\<forall>n\<in>set ns. snd n \<noteq> k \<and> fst n < fresh l'"
    proof
      fix n assume n: "n \<in> set ns"
      have "fst n \<noteq> i" using l'(6) ns n by auto
      then have "snd n \<noteq> k" using uniq [of "fst n"] n by (cases n) auto
      with l'(7) ns n show "snd n \<noteq> k \<and> fst n < fresh l'" by simp
    qed
    moreover have "length ns = length (lst l)" using arg_cong [OF l'(3), of length] ns by simp
    ultimately have "lru_ok (l'\<lparr>lst := ns, hash := h\<rparr>)"
      using h l'(5,6,8) ns lru_okD(5) [OF assms(1)] by (auto simp: lru_ok_def)
    with True h(1) l'(1,5) get spec ns show ?thesis by (simp add: lru_set_def recency_def)
  qed
qed

lemma lru_del_present:
  assumes "lru_ok l" "x \<in> set (recency l)"
  shows "\<exists>l'. lru_del l x = Inr l' \<and> lru_ok l' \<and> recency l' = recency_del (recency l) x \<and> maxsz l' = maxsz l"
proof -
  let ?xs = "filter (\<lambda>n. snd n \<noteq> x) (lst l)"
  from assms obtain i where i: "ht_map (hash l) x = Some i" by (auto simp: recency_iff)
  from ht_erase_present [OF lru_okD(1) [OF assms(1)] i] obtain h where
    h: "ht_erase (hash l) x = Inr (h, True)" "ht_ok h" "ht_map h = (ht_map (hash l))(x := None)" by blast
  have "lru_ok (l\<lparr>lst := ?xs, hash := h\<rparr>)"
    using lru_pre_erased [OF assms(1), of x] h lru_okD(5) [OF assms(1)]
    by (auto simp: lru_ok_def lru_pre_def intro: le_trans [OF length_filter_le])
  moreover have "ht_get (hash l) x = Inr (Some i)"
    using assms(1) i by (simp add: lru_get)
  ultimately show ?thesis
    using erase_node [OF assms(1) i] h(1) by (simp add: lru_del_def recency_def map_snd_filter)
qed

lemma lru_del_absent:
  assumes "lru_ok l" "x \<notin> set (recency l)"
  shows "lru_del l x = (if has_empty (hash l) then Inr l else Inl no_slot)"
  using assms by (simp add: lru_del_def recency_iff lru_get)

lemma recency_set_present:
  assumes "x \<in> set ks" "length ks \<le> n"
  shows "recency_set n ks x = (recency_del ks x @ [x], None)"
  using recency_del_shorter [OF assms(1)] assms(2) by (simp add: recency_set_def Let_def)

end
