(* ===== verification/Resp_Value.thy ===== *)
theory Resp_Value
  imports KV_Prelude
begin

text \<open>
  The RESP value of \<open>resp/RespValue.h\<close>: a \<open>std::variant\<close> of five alternatives, two of them
  optional (\<open>std::nullopt\<close> stands for nil).  A vector of \<open>std::unique_ptr<RespValue>\<close> whose
  pointers are all set is a list of values; the handlers, which move single elements out of a
  request and so leave null pointers behind, use \<open>slots\<close>, a list of optional values.

  \<open>resp_ok\<close> are the values that have a faithful wire form: the line types hold no carriage
  return, integers fit in \<open>int64_t\<close>, and lengths are within what \<open>reserve\<close> accepts.
\<close>

datatype RespValue =
    SimpleString string
  | BulkString "string option"
  | Error string
  | Integer int
  | Array "RespValue list option"

type_synonym slots = "RespValue option list"

text \<open>\<open>RespValue::RespValue()\<close>: a default value is a nil array.\<close>

definition default_RespValue :: RespValue where
  "default_RespValue = Array None"

definition int64_min :: int where
  "int64_min = - (2 ^ 63)"

definition int64_max :: int where
  "int64_max = 2 ^ 63 - 1"

definition in_int64 :: "int \<Rightarrow> bool" where
  "in_int64 i \<longleftrightarrow> int64_min \<le> i \<and> i \<le> int64_max"

text \<open>
  \<open>max_size()\<close> of \<open>std::string\<close> and of a vector of pointers on the 64-bit target: the
  largest object is \<open>PTRDIFF_MAX\<close> bytes, less one byte for the string terminator, and a
  pointer takes eight bytes.
\<close>

definition string_max_size :: nat where
  "string_max_size = 2 ^ 63 - 2"

definition vector_max_size :: nat where
  "vector_max_size = 2 ^ 60 - 1"

definition line_ok :: "string \<Rightarrow> bool" where
  "line_ok s \<longleftrightarrow> CHR 0x0D \<notin> set s"

fun resp_ok :: "RespValue \<Rightarrow> bool" where
  "resp_ok (SimpleString s) \<longleftrightarrow> line_ok s"
| "resp_ok (Error s) \<longleftrightarrow> line_ok s"
| "resp_ok (Integer i) \<longleftrightarrow> in_int64 i"
| "resp_ok (BulkString None) \<longleftrightarrow> True"
| "resp_ok (BulkString (Some s)) \<longleftrightarrow> length s \<le> string_max_size"
| "resp_ok (Array None) \<longleftrightarrow> True"
| "resp_ok (Array (Some vs)) \<longleftrightarrow> length vs \<le> vector_max_size \<and> (\<forall>v\<in>set vs. resp_ok v)"

lemma line_ok_append [simp]: "line_ok (a @ b) \<longleftrightarrow> line_ok a \<and> line_ok b"
  by (auto simp: line_ok_def)

lemma line_ok_to_string [simp]: "line_ok (to_string n)"
  by (simp add: line_ok_def)

lemma RespValue_induct [case_names SimpleString Bulk Error Integer Nil_Array Array]:
  assumes "\<And>s. P (SimpleString s)" and "\<And>b. P (BulkString b)" and "\<And>s. P (Error s)"
    and "\<And>i. P (Integer i)" and "P (Array None)"
    and "\<And>vs. (\<And>v. v \<in> set vs \<Longrightarrow> P v) \<Longrightarrow> P (Array (Some vs))"
  shows "P v"
proof (induction v)
  case (Array a)
  then show ?case using assms(5,6) by (cases a) auto
qed (use assms in auto)

end
