(* ===== verification/Resp_Encoder.thy ===== *)
theory Resp_Encoder
  imports Resp_Value
begin

text \<open>
  The serialiser of \<open>resp/RespEncoder.cpp\<close>.  Each \<open>encodeX\<close> appends to the string it is
  given, as in the source; the \<open>reserve\<close> calls only affect capacity and are left out.
  \<open>encode\<close> starts from an empty string.  The lemmas show that appending is all the encoders
  do, so that the encoding of an array is its header followed by the encodings of its elements.
\<close>

definition encodeSimpleString :: "string \<Rightarrow> string \<Rightarrow> string" where
  "encodeSimpleString msg str = str @ ''+'' @ msg @ crlf"

definition encodeError :: "string \<Rightarrow> string \<Rightarrow> string" where
  "encodeError msg str = str @ ''-'' @ msg @ crlf"

definition encodeInteger :: "int \<Rightarrow> string \<Rightarrow> string" where
  "encodeInteger num str = str @ '':'' @ int_to_string num @ crlf"

definition encodeBulkString :: "string option \<Rightarrow> string \<Rightarrow> string" where
  "encodeBulkString data str =
     (let str = str @ ''$'' in
      case data of
        None \<Rightarrow> str @ ''-1'' @ crlf
      | Some s \<Rightarrow> str @ to_string (length s) @ crlf @ s @ crlf)"

text \<open>\<open>encodeElement\<close> is the dispatch on the element type inside the loop of \<open>encodeArray\<close>.\<close>

function (sequential) encodeElement :: "RespValue \<Rightarrow> string \<Rightarrow> string"
  and encodeArray :: "RespValue list option \<Rightarrow> string \<Rightarrow> string" where
  "encodeElement (SimpleString s) str = encodeSimpleString s str"
| "encodeElement (Error s) str = encodeError s str"
| "encodeElement (Integer i) str = encodeInteger i str"
| "encodeElement (BulkString b) str = encodeBulkString b str"
| "encodeElement (Array a) str = encodeArray a str"
| "encodeArray None str = str @ ''*-1'' @ crlf"
| "encodeArray (Some es) str =
     fold encodeElement es (str @ ''*'' @ to_string (length es) @ crlf)"
  by pat_completeness auto
termination
  by (relation "measure (case_sum (\<lambda>(v, _). 2 * size v) (\<lambda>(a, _). 2 * size_option (size_list size) a + 1))")
    (auto dest: size_list_estimation' [OF _ order_refl, where f = size])

definition encode :: "RespValue \<Rightarrow> string" where
  "encode val =
     (case val of
        SimpleString s \<Rightarrow> encodeSimpleString s []
      | Error s \<Rightarrow> encodeError s []
      | Integer i \<Rightarrow> encodeInteger i []
      | BulkString b \<Rightarrow> encodeBulkString b []
      | Array a \<Rightarrow> encodeArray a [])"

lemma fold_append:
  assumes "\<And>x str. x \<in> set xs \<Longrightarrow> f x str = str @ f x []"
  shows "fold f xs str = str @ concat (map (\<lambda>x. f x []) xs)"
  using assms
proof (induction xs arbitrary: str)
  case (Cons x xs)
  have "fold f (x # xs) str = fold f xs (str @ f x [])"
    by (simp add: Cons.prems [of x str])
  also have "\<dots> = (str @ f x []) @ concat (map (\<lambda>x. f x []) xs)"
    by (rule Cons.IH) (rule Cons.prems, simp)
  finally show ?case by simp
qed simp

lemma encodeElement_append: "encodeElement v str = str @ encodeElement v []"
proof (induction v arbitrary: str rule: RespValue_induct)
  case (Array vs)
  have "fold encodeElement vs s = s @ concat (map (\<lambda>v. encodeElement v []) vs)" for s
    by (rule fold_append) (rule Array)
  then show ?case by simp
qed (simp_all add: encodeSimpleString_def encodeError_def encodeInteger_def encodeBulkString_def
    Let_def split: option.split)

lemma encodeElement_Nil: "encodeElement v [] = encode v"
  by (cases v) (simp_all add: encode_def)

lemma encodeElement_eq: "encodeElement v str = str @ encode v"
  using encodeElement_append [of v str] unfolding encodeElement_Nil .

lemma fold_encodeElement: "fold encodeElement vs str = str @ concat (map encode vs)"
  using fold_append [of vs encodeElement str] by (simp add: encodeElement_eq)

lemma encodeArray_eq: "encodeArray a str = str @ encode (Array a)"
  using encodeElement_eq [of "Array a" str] by simp

text \<open>The characteristic equations of \<open>encode\<close>, used in place of its definition.\<close>

lemma encode_SimpleString [simp]: "encode (SimpleString s) = ''+'' @ s @ crlf"
  by (simp add: encode_def encodeSimpleString_def)

lemma encode_Error [simp]: "encode (Error s) = ''-'' @ s @ crlf"
  by (simp add: encode_def encodeError_def)

lemma encode_Integer [simp]: "encode (Integer i) = '':'' @ int_to_string i @ crlf"
  by (simp add: encode_def encodeInteger_def)

lemma encode_Bulk [simp]:
  "encode (BulkString None) = ''$-1'' @ crlf"
  "encode (BulkString (Some s)) = ''$'' @ to_string (length s) @ crlf @ s @ crlf"
  by (simp_all add: encode_def encodeBulkString_def)

lemma encode_Array [simp]:
  "encode (Array None) = ''*-1'' @ crlf"
  "encode (Array (Some vs)) = ''*'' @ to_string (length vs) @ crlf @ concat (map encode vs)"
  using encodeElement_Nil [of "Array None"] encodeElement_Nil [of "Array (Some vs)"]
  by (simp_all add: fold_encodeElement)

lemma encode_not_Nil [simp]: "encode v \<noteq> []"
proof (cases v)
  case (BulkString b)
  then show ?thesis by (cases b) simp_all
next
  case (Array a)
  then show ?thesis by (cases a) simp_all
qed simp_all

end
