(* ===== verification/KV_Store.thy ===== *)
theory KV_Store
  imports Lru_Cache Resp_Encoder
begin

text \<open>
  The sharded store, \<open>kvstore/KVStore.cpp\<close>.  A key lives in the shard \<open>gethash(key) % shardCount\<close>;
  a shard is a hash table with a recency list.  Each operation of the source runs under the lock of
  the one shard it touches, so the model executes operations one after the other.  An operation that
  throws ends the run and gives no store: nothing is said of a store after an exception.

  \<open>kv_map\<close> is the map the store stands for, \<open>kv_ok\<close> its invariant.  The store provides the
  interface \<open>fallible_map\<close>; \<open>kv_entries\<close> is what \<open>forEach\<close> visits.
\<close>

section \<open>State and operations\<close>

definition SHARD_COUNT :: nat where
  "SHARD_COUNT = 16"

definition LRU_MAX_SIZE :: nat where
  "LRU_MAX_SIZE = 100000"

record 'v Shard =
  data :: "'v HashTable"
  lru :: LRU

record 'v KVStore =
  shardCount :: nat
  shards :: "'v Shard list"

definition new_Shard :: "'v Shard" where
  "new_Shard = \<lparr>data = new_HashTable, lru = new_LRU LRU_MAX_SIZE\<rparr>"

definition new_KVStore :: "nat \<Rightarrow> 'v KVStore" where
  "new_KVStore n = \<lparr>shardCount = n, shards = replicate n new_Shard\<rparr>"

text \<open>The index of the shard \<open>getShard\<close> returns a reference to.\<close>

definition getShard :: "'v KVStore \<Rightarrow> string \<Rightarrow> nat res" where
  "getShard s key =
     (if shardCount s = 0 then Inl (UB Div_By_Zero)
      else let idx = unat (gethash key) mod shardCount s in
        if idx < length (shards s) then Inr idx else Inl (UB Out_Of_Bounds))"

definition put_shard :: "'v KVStore \<Rightarrow> nat \<Rightarrow> 'v Shard \<Rightarrow> 'v KVStore" where
  "put_shard s i sh = s\<lparr>shards := (shards s)[i := sh]\<rparr>"

definition kv_set :: "'v KVStore \<Rightarrow> string \<Rightarrow> 'v \<Rightarrow> ('v KVStore \<times> string option) res" where
  "kv_set s key v = bindE (getShard s key) (\<lambda>i. let shard = shards s ! i in
     bindE (ht_set (data shard) key v) (\<lambda>d.
     bindE (lru_set (lru shard) key) (\<lambda>(l, evicted).
       Inr (put_shard s i \<lparr>data = d, lru = l\<rparr>, evicted))))"

definition kv_get :: "'v KVStore \<Rightarrow> string \<Rightarrow> ('v KVStore \<times> 'v option) res" where
  "kv_get s key = bindE (getShard s key) (\<lambda>i. let shard = shards s ! i in
     bindE (ht_get (data shard) key) (\<lambda>result.
       if result \<noteq> None then
         bindE (lru_access (lru shard) key) (\<lambda>l. Inr (put_shard s i (shard\<lparr>lru := l\<rparr>), result))
       else Inr (s, result)))"

definition getValue :: "RespValue KVStore \<Rightarrow> string \<Rightarrow> (RespValue KVStore \<times> string) res" where
  "getValue s key = bindE (getShard s key) (\<lambda>i. let shard = shards s ! i in
     bindE (ht_get (data shard) key) (\<lambda>result. case result of
       None \<Rightarrow> Inr (s, [])
     | Some v \<Rightarrow> bindE (lru_access (lru shard) key) (\<lambda>l.
         Inr (put_shard s i (shard\<lparr>lru := l\<rparr>), encode v))))"

definition kv_del :: "'v KVStore \<Rightarrow> string \<Rightarrow> ('v KVStore \<times> bool) res" where
  "kv_del s key = bindE (getShard s key) (\<lambda>i. let shard = shards s ! i in
     bindE (ht_erase (data shard) key) (\<lambda>(d, result).
       if result then
         bindE (lru_del (lru shard) key) (\<lambda>l. Inr (put_shard s i \<lparr>data = d, lru = l\<rparr>, result))
       else Inr (put_shard s i (shard\<lparr>data := d\<rparr>), result)))"

definition kv_checkexist :: "'v KVStore \<Rightarrow> string \<Rightarrow> bool res" where
  "kv_checkexist s key = bindE (getShard s key) (\<lambda>i. ht_checkexist (data (shards s ! i)) key)"

definition kv_forEach :: "'v KVStore \<Rightarrow> ('s \<Rightarrow> string \<times> 'v \<Rightarrow> 's) \<Rightarrow> 's \<Rightarrow> 's" where
  "kv_forEach s callback a = foldl (\<lambda>a shard. ht_forEach (data shard) callback a) a (shards s)"

section \<open>Abstraction and invariant\<close>

definition shard_of :: "'v KVStore \<Rightarrow> string \<Rightarrow> nat" where
  "shard_of s k = unat (gethash k) mod shardCount s"

definition kv_map :: "'v KVStore \<Rightarrow> string \<Rightarrow> 'v option" where
  "kv_map s k = ht_map (data (shards s ! shard_of s k)) k"

text \<open>The keys the recency list of their shard knows.\<close>

definition tracked :: "'v KVStore \<Rightarrow> string \<Rightarrow> bool" where
  "tracked s k \<longleftrightarrow> k \<in> set (recency (lru (shards s ! shard_of s k)))"

definition shard_ok :: "'v KVStore \<Rightarrow> nat \<Rightarrow> 'v Shard \<Rightarrow> bool" where
  "shard_ok s i sh \<longleftrightarrow> ht_ok (data sh) \<and> lru_ok (lru sh) \<and> set (recency (lru sh)) \<subseteq> dom (ht_map (data sh)) \<and>
     (\<forall>k\<in>dom (ht_map (data sh)). shard_of s k = i)"

definition kv_ok :: "'v KVStore \<Rightarrow> bool" where
  "kv_ok s \<longleftrightarrow> shardCount s > 0 \<and> length (shards s) = shardCount s \<and> (\<forall>i < shardCount s. shard_ok s i (shards s ! i))"

definition kv_entries :: "'v KVStore \<Rightarrow> (string \<times> 'v) list" where
  "kv_entries s = concat (map (\<lambda>sh. ht_entries (data sh)) (shards s))"

section \<open>Lemmas\<close>

lemma shard_of_less [simp]: "kv_ok s \<Longrightarrow> shard_of s k < shardCount s"
  by (simp add: kv_ok_def shard_of_def)

lemma getShard_ok [simp]: "kv_ok s \<Longrightarrow> getShard s k = Inr (shard_of s k)"
  by (simp add: getShard_def kv_ok_def shard_of_def)

lemma kv_ok_shard [dest]: "kv_ok s \<Longrightarrow> i < shardCount s \<Longrightarrow> shard_ok s i (shards s ! i)"
  by (simp add: kv_ok_def)

lemma kv_ok_own_shard: "kv_ok s \<Longrightarrow> shard_ok s (shard_of s k) (shards s ! shard_of s k)"
  by (simp add: kv_ok_shard)

lemma shard_of_put [simp]: "shard_of (put_shard s i sh) k = shard_of s k"
  by (simp add: shard_of_def put_shard_def)

lemma shard_ok_put [simp]: "shard_ok (put_shard s i sh) = shard_ok s"
  by (simp add: shard_ok_def fun_eq_iff)

lemma kv_ok_put:
  "kv_ok s \<Longrightarrow> shard_ok s i sh \<Longrightarrow> kv_ok (put_shard s i sh)"
  by (cases "i < length (shards s)")
    (auto simp: kv_ok_def nth_list_update put_shard_def shard_ok_def shard_of_def list_update_beyond)

lemma shards_put: "kv_ok s \<Longrightarrow> shards (put_shard s (shard_of s k) sh) ! j = (if j = shard_of s k then sh else shards s ! j)"
  using shard_of_less [of s k] by (simp add: put_shard_def kv_ok_def nth_list_update)

lemma kv_map_put:
  assumes "kv_ok s" "ht_map (data sh) = (ht_map (data (shards s ! shard_of s k)))(k := w)"
  shows "kv_map (put_shard s (shard_of s k) sh) = (kv_map s)(k := w)"
  using assms by (auto simp: kv_map_def shards_put fun_eq_iff)

lemma kv_map_put_same:
  assumes "kv_ok s" "data sh = data (shards s ! shard_of s k)"
  shows "kv_map (put_shard s (shard_of s k) sh) = kv_map s"
  using kv_map_put [OF assms(1), of sh k "kv_map s k"] assms(2) by (auto simp: kv_map_def fun_eq_iff)

lemma tracked_put:
  "kv_ok s \<Longrightarrow> tracked (put_shard s (shard_of s k) sh) j \<longleftrightarrow>
    (if shard_of s j = shard_of s k then j \<in> set (recency (lru sh)) else tracked s j)"
  by (simp add: tracked_def shards_put)

lemma tracked_stored: "kv_ok s \<Longrightarrow> tracked s k \<Longrightarrow> kv_map s k \<noteq> None"
  using kv_ok_own_shard [of s k] by (auto simp: tracked_def kv_map_def shard_ok_def)

lemma tracked_no_more: "kv_ok s \<Longrightarrow> length (recency (lru (shards s ! shard_of s k))) \<le> maxsz (lru (shards s ! shard_of s k))"
  using kv_ok_own_shard [of s k] by (simp add: shard_ok_def recency_def lru_okD(5))

lemma new_KVStore_ok: "n > 0 \<Longrightarrow> kv_ok (new_KVStore n)"
  by (simp add: kv_ok_def new_KVStore_def shard_ok_def new_Shard_def new_LRU_ok)
    (simp add: recency_def new_LRU_def)

lemma new_KVStore_empty: "n > 0 \<Longrightarrow> kv_map (new_KVStore n) = Map.empty"
  by (simp add: kv_map_def new_KVStore_def shard_of_def new_Shard_def fun_eq_iff)

text \<open>The recency list either handles a key or throws the exception of the probe loop.\<close>

lemma lru_set_cases:
  assumes "lru_ok l"
  shows "lru_set l x = Inl no_slot \<and> x \<notin> set (recency l) \<and> \<not> has_empty (hash l) \<or>
    (\<exists>l'. lru_set l x = Inr (l', snd (recency_set (maxsz l) (recency l) x)) \<and> lru_ok l' \<and>
      recency l' = fst (recency_set (maxsz l) (recency l) x) \<and> maxsz l' = maxsz l)"
proof (cases "x \<in> set (recency l)")
  case True
  moreover have "length (recency l) \<le> maxsz l" using lru_okD(5) [OF assms] by (simp add: recency_def)
  ultimately show ?thesis using lru_set_present [OF assms True] by (simp add: recency_set_present)
qed (use lru_set_full [OF assms] lru_set_absent [OF assms] in blast)

lemma lru_access_cases:
  assumes "lru_ok l"
  shows "lru_access l x = Inl no_slot \<and> x \<notin> set (recency l) \<and> \<not> has_empty (hash l) \<or>
    (\<exists>l'. lru_access l x = Inr l' \<and> lru_ok l' \<and> recency l' = recency_access (recency l) x)"
  using lru_access_present [OF assms, of x] lru_access_absent [OF assms, of x] assms
  by (cases "x \<in> set (recency l)") (auto simp: recency_access_def)

lemma lru_del_cases:
  assumes "lru_ok l"
  shows "lru_del l x = Inl no_slot \<and> x \<notin> set (recency l) \<and> \<not> has_empty (hash l) \<or>
    (\<exists>l'. lru_del l x = Inr l' \<and> lru_ok l' \<and> recency l' = recency_del (recency l) x)"
  using lru_del_present [OF assms, of x] lru_del_absent [OF assms, of x] assms
  by (cases "x \<in> set (recency l)") (auto simp: recency_del_absent)

lemma recency_set_subset: "set (fst (recency_set n ks x)) \<subseteq> insert x (set ks)"
  by (auto simp: recency_set_def recency_del_def Let_def dest!: list.set_sel(2) [rotated])

lemma recency_access_set [simp]: "set (recency_access ks x) = set ks"
  by (auto simp: recency_access_def recency_del_def)

text \<open>An evicted key has left the list.\<close>

lemma recency_set_evicted:
  assumes "distinct ks" "snd (recency_set n ks x) = Some e"
  shows "e \<in> insert x (set ks) \<and> e \<notin> set (fst (recency_set n ks x))"
proof -
  let ?ks = "recency_del ks x @ [x]"
  have "distinct ?ks" using assms(1) by (simp add: recency_del_def)
  moreover have "set ?ks = insert x (set ks)" by (auto simp: recency_del_def)
  ultimately show ?thesis using assms(2)
    by (cases ?ks) (auto simp: recency_set_def Let_def split: if_splits)
qed

section \<open>Behaviour of the operations\<close>

lemma kv_set_ok:
  assumes "kv_ok s" "kv_set s k v = Inr (s', ev)"
  shows "kv_ok s' \<and> kv_map s' = (kv_map s)(k \<mapsto> v) \<and>
    (\<forall>e. ev = Some e \<longrightarrow> kv_map s' e \<noteq> None \<and> \<not> tracked s' e)"
proof -
  let ?i = "shard_of s k" and ?sh = "shards s ! shard_of s k"
  have sh: "shard_ok s ?i ?sh" using assms(1) by (rule kv_ok_own_shard)
  obtain d l where dl: "ht_set (data ?sh) k v = Inr d" "lru_set (lru ?sh) k = Inr (l, ev)"
      "s' = put_shard s ?i \<lparr>data = d, lru = l\<rparr>"
    using assms by (auto simp: kv_set_def Let_def bindE_Inr_iff)
  let ?r = "recency_set (maxsz (lru ?sh)) (recency (lru ?sh)) k"
  have d: "ht_ok d" "ht_map d = (ht_map (data ?sh))(k \<mapsto> v)"
    using ht.update [of "data ?sh" k v d] sh dl(1) by (simp_all add: shard_ok_def)
  have l: "lru_ok l" "recency l = fst ?r" "ev = snd ?r"
    using lru_set_cases [of "lru ?sh" k] sh dl(2) by (auto simp: shard_ok_def)
  have sub: "set (recency l) \<subseteq> dom (ht_map d)"
    using recency_set_subset [of "maxsz (lru ?sh)" "recency (lru ?sh)" k] sh d(2) l(2)
    by (auto simp: shard_ok_def)
  have ok: "shard_ok s ?i \<lparr>data = d, lru = l\<rparr>"
    using sh sub d l(1) by (auto simp: shard_ok_def)
  have "kv_map s' e \<noteq> None \<and> \<not> tracked s' e" if "ev = Some e" for e
  proof -
    have "distinct (recency (lru ?sh))" using sh by (simp add: shard_ok_def recency_distinct)
    from recency_set_evicted [OF this] that l have
      e: "e \<in> insert k (set (recency (lru ?sh)))" "e \<notin> set (recency l)" by auto
    then have "e \<in> dom (ht_map d)" "shard_of s e = ?i" using sh d(2) by (auto simp: shard_ok_def)
    with e(2) show ?thesis using dl(3) assms(1) by (auto simp: tracked_put kv_map_def shards_put)
  qed
  then show ?thesis using dl(3) kv_ok_put [OF assms(1) ok] kv_map_put [OF assms(1)] d(2) by simp
qed

lemma kv_get_ok:
  assumes "kv_ok s" "kv_get s k = Inr (s', r)"
  shows "kv_ok s' \<and> kv_map s' = kv_map s \<and> r = kv_map s k"
proof -
  let ?i = "shard_of s k" and ?sh = "shards s ! shard_of s k"
  have sh: "shard_ok s ?i ?sh" using assms(1) by (rule kv_ok_own_shard)
  have r: "ht_get (data ?sh) k = Inr r"
    using assms by (auto simp: kv_get_def Let_def bindE_Inr_iff split: if_splits)
  have rm: "r = kv_map s k"
    using sh r by (simp add: shard_ok_def ht_ok_def ht_get_eq kv_map_def split: if_splits)
  show ?thesis
  proof (cases "r = None")
    case True
    then show ?thesis using assms r rm by (auto simp: kv_get_def Let_def)
  next
    case False
    then obtain l where l: "lru_access (lru ?sh) k = Inr l" "s' = put_shard s ?i (?sh\<lparr>lru := l\<rparr>)"
      using assms r by (auto simp: kv_get_def Let_def bindE_Inr_iff)
    then have "lru_ok l" "set (recency l) = set (recency (lru ?sh))"
      using lru_access_cases [of "lru ?sh" k] sh by (auto simp: shard_ok_def)
    then have "shard_ok s ?i (?sh\<lparr>lru := l\<rparr>)" using sh by (simp add: shard_ok_def)
    then show ?thesis using l(2) rm kv_ok_put [OF assms(1)] kv_map_put_same [OF assms(1)] by simp
  qed
qed

lemma kv_del_ok:
  assumes "kv_ok s" "kv_del s k = Inr (s', b)"
  shows "kv_ok s' \<and> kv_map s' = (kv_map s)(k := None) \<and> b = (kv_map s k \<noteq> None)"
proof -
  let ?i = "shard_of s k" and ?sh = "shards s ! shard_of s k"
  have sh: "shard_ok s ?i ?sh" using assms(1) by (rule kv_ok_own_shard)
  obtain d where d: "ht_erase (data ?sh) k = Inr (d, b)"
    using assms by (auto simp: kv_del_def Let_def bindE_Inr_iff split: if_splits)
  have dm: "ht_ok d" "ht_map d = (ht_map (data ?sh))(k := None)" "b = (kv_map s k \<noteq> None)"
    using ht.delete [of "data ?sh" k d b] sh d by (simp_all add: shard_ok_def kv_map_def)
  have "\<exists>sh'. s' = put_shard s ?i sh' \<and> data sh' = d \<and> lru_ok (lru sh') \<and>
      set (recency (lru sh')) \<subseteq> set (recency (lru ?sh)) - {k}"
  proof (cases b)
    case False
    then have "k \<notin> set (recency (lru ?sh))"
      using sh dm(3) by (auto simp: shard_ok_def kv_map_def)
    then show ?thesis using False assms d sh
      by (intro exI [of _ "?sh\<lparr>data := d\<rparr>"]) (auto simp: kv_del_def Let_def shard_ok_def)
  next
    case True
    then obtain l where l: "lru_del (lru ?sh) k = Inr l" "s' = put_shard s ?i \<lparr>data = d, lru = l\<rparr>"
      using assms d by (auto simp: kv_del_def Let_def bindE_Inr_iff)
    then have "lru_ok l" "recency l = recency_del (recency (lru ?sh)) k"
      using lru_del_cases [of "lru ?sh" k] sh by (auto simp: shard_ok_def)
    with l(2) show ?thesis
      by (intro exI [of _ "\<lparr>data = d, lru = l\<rparr>"]) (auto simp: recency_del_def)
  qed
  then obtain sh' where sh': "s' = put_shard s ?i sh'" "data sh' = d" "lru_ok (lru sh')"
      "set (recency (lru sh')) \<subseteq> set (recency (lru ?sh)) - {k}" by blast
  have "shard_ok s ?i sh'" using sh sh' dm by (auto simp: shard_ok_def)
  then show ?thesis using sh' dm kv_ok_put [OF assms(1)] kv_map_put [OF assms(1)] by simp
qed

text \<open>\<open>kv_set\<close> as its callers use it: they ignore the key it returns.\<close>

definition kv_update :: "'v KVStore \<Rightarrow> string \<Rightarrow> 'v \<Rightarrow> 'v KVStore res" where
  "kv_update s k v = bindE (kv_set s k v) (\<lambda>(s', _). Inr s')"

interpretation kv: fallible_map "new_KVStore SHARD_COUNT" kv_get kv_update kv_del kv_ok kv_map
proof unfold_locales
  fix t t' :: "'v KVStore" and k v
  assume "kv_ok t" "kv_update t k v = Inr t'"
  then show "kv_ok t' \<and> kv_map t' = (kv_map t)(k \<mapsto> v)"
    using kv_set_ok [of t k v t'] by (auto simp: kv_update_def bindE_Inr_iff)
qed (auto simp: new_KVStore_ok new_KVStore_empty SHARD_COUNT_def dest: kv_get_ok kv_del_ok)

lemma getValue_eq:
  "getValue s k = bindE (kv_get s k) (\<lambda>(s', r). Inr (s', case r of None \<Rightarrow> [] | Some v \<Rightarrow> encode v))"
  by (auto simp: getValue_def kv_get_def Let_def bindE_def split: sum.splits option.splits)

lemma kv_checkexist_eq:
  assumes "kv_ok s" "kv_checkexist s k = Inr b"
  shows "b = (kv_map s k \<noteq> None)"
  using assms kv_ok_own_shard [OF assms(1), of k]
  by (auto simp: kv_checkexist_def ht_checkexist_eq shard_ok_def ht_ok_def kv_map_def split: if_splits)

text \<open>Every failure is the exception of a probe loop: iterators never dangle.\<close>

lemma kv_set_fails:
  assumes "kv_ok s" "kv_set s k v = Inl e"
  shows "e = no_slot"
proof -
  let ?sh = "shards s ! shard_of s k"
  have sh: "ht_ok (data ?sh)" "lru_ok (lru ?sh)"
    using kv_ok_own_shard [OF assms(1), of k] by (auto simp: shard_ok_def)
  have "ht_set (data ?sh) k v = Inl no_slot \<or> (\<exists>d. ht_set (data ?sh) k v = Inr d)"
    using ht_set_full [of "data ?sh" k v] ht_set_succeeds [OF sh(1), of k v] sh(1) by (metis ht_ok_def)
  then show ?thesis
    using assms lru_set_cases [OF sh(2), of k] by (auto simp: kv_set_def Let_def)
qed

lemma kv_set_succeeds:
  assumes "kv_ok s" "kv_map s k \<noteq> None \<or> has_empty (data (shards s ! shard_of s k))"
    and "tracked s k \<or> has_empty (hash (lru (shards s ! shard_of s k)))"
  shows "\<exists>s'. kv_set s k v = Inr (s', snd (recency_set (maxsz (lru (shards s ! shard_of s k)))
    (recency (lru (shards s ! shard_of s k))) k))"
proof -
  let ?sh = "shards s ! shard_of s k"
  have sh: "ht_ok (data ?sh)" "lru_ok (lru ?sh)"
    using kv_ok_own_shard [OF assms(1), of k] by (auto simp: shard_ok_def)
  obtain d where "ht_set (data ?sh) k v = Inr d"
    using ht_set_succeeds [OF sh(1)] assms(2) unfolding kv_map_def by metis
  then show ?thesis
    using assms(1,3) lru_set_cases [OF sh(2), of k] by (auto simp: kv_set_def Let_def tracked_def)
qed

lemma kv_get_fails:
  assumes "kv_ok s" "kv_get s k = Inl e"
  shows "e = no_slot"
proof -
  let ?sh = "shards s ! shard_of s k"
  have sh: "ht_core (data ?sh)" "lru_ok (lru ?sh)"
    using kv_ok_own_shard [OF assms(1), of k] by (auto simp: shard_ok_def ht_ok_def)
  show ?thesis
    using assms lru_access_cases [OF sh(2), of k] by (auto simp: kv_get_def Let_def ht_get_eq [OF sh(1)] split: if_splits)
qed

text \<open>A key that was just stored, and not evicted at once, can be read.\<close>

lemma kv_set_get:
  assumes "kv_ok s" "kv_set s k v = Inr (s', ev)" "ev \<noteq> Some k"
  shows "\<exists>s''. kv_get s' k = Inr (s'', Some v)"
proof -
  let ?i = "shard_of s k" and ?sh = "shards s ! shard_of s k"
  have sh: "shard_ok s ?i ?sh" using assms(1) by (rule kv_ok_own_shard)
  obtain d l where dl: "lru_set (lru ?sh) k = Inr (l, ev)" "s' = put_shard s ?i \<lparr>data = d, lru = l\<rparr>"
    using assms by (auto simp: kv_set_def Let_def bindE_Inr_iff)
  have ok: "kv_ok s'" "kv_map s' k = Some v" using kv_set_ok [OF assms(1,2)] by simp_all
  have l: "lru_ok l" "recency l = fst (recency_set (maxsz (lru ?sh)) (recency (lru ?sh)) k)"
      "ev = snd (recency_set (maxsz (lru ?sh)) (recency (lru ?sh)) k)"
    using lru_set_cases [of "lru ?sh" k] sh dl(1) by (auto simp: shard_ok_def)
  have "k \<in> set (recency l)" using l(2,3) assms(3)
    by (cases "recency_del (recency (lru ?sh)) k") (auto simp: recency_set_def Let_def split: if_splits)
  moreover have own: "shards s' ! shard_of s' k = \<lparr>data = d, lru = l\<rparr>" using dl(2) assms(1) by (simp add: shards_put)
  ultimately obtain l' where l': "lru_access l k = Inr l'" using lru_access_cases [OF l(1), of k] by auto
  have "ht_get d k = Inr (Some v)"
    using kv_ok_own_shard [OF ok(1), of k] ok(2) own by (auto simp: shard_ok_def ht_ok_def ht_get_eq kv_map_def)
  then show ?thesis using l' own by (simp add: kv_get_def Let_def ok(1))
qed

lemma kv_del_fails:
  assumes "kv_ok s" "kv_del s k = Inl e"
  shows "e = no_slot"
proof -
  let ?sh = "shards s ! shard_of s k"
  have sh: "ht_ok (data ?sh)" "ht_core (data ?sh)" "lru_ok (lru ?sh)"
    using kv_ok_own_shard [OF assms(1), of k] by (auto simp: shard_ok_def ht_ok_def)
  show ?thesis
  proof (cases "ht_map (data ?sh) k")
    case None
    then show ?thesis using assms ht_erase_absent [OF sh(2) None] by (auto simp: kv_del_def Let_def split: if_splits)
  next
    case (Some w)
    then show ?thesis using assms ht_erase_present [OF sh(1) Some] lru_del_cases [OF sh(3), of k]
      by (auto simp: kv_del_def Let_def)
  qed
qed

section \<open>What \<open>forEach\<close> visits\<close>

lemma kv_forEach_entries: "kv_forEach s f a = foldl f a (kv_entries s)"
proof -
  have "foldl (\<lambda>a sh. ht_forEach (data sh) f a) a shs = foldl f a (concat (map (\<lambda>sh. ht_entries (data sh)) shs))" for shs
    by (induction shs arbitrary: a) (simp_all add: ht_forEach_def)
  then show ?thesis by (simp add: kv_forEach_def kv_entries_def)
qed

lemma entries_iff:
  assumes "kv_ok s"
  shows "(k, v) \<in> set (kv_entries s) \<longleftrightarrow> kv_map s k = Some v"
proof -
  have e: "(k, v) \<in> set (ht_entries (data (shards s ! i))) \<longleftrightarrow> ht_map (data (shards s ! i)) k = Some v"
    if "i < shardCount s" for i
    using kv_ok_shard [OF assms that] ht_entries_distinct [of "data (shards s ! i)"]
    by (simp add: shard_ok_def ht_ok_def ht_map_entries)
  have "(k, v) \<in> set (kv_entries s) \<longleftrightarrow> (\<exists>i < shardCount s. ht_map (data (shards s ! i)) k = Some v)"
    using assms e by (simp add: kv_entries_def kv_ok_def set_conv_nth [of "shards s"]) blast
  also have "\<dots> \<longleftrightarrow> kv_map s k = Some v"
  proof
    assume "\<exists>i < shardCount s. ht_map (data (shards s ! i)) k = Some v"
    then obtain i where i: "i < shardCount s" "ht_map (data (shards s ! i)) k = Some v" by blast
    then have "shard_of s k = i" using kv_ok_shard [OF assms i(1)] by (auto simp: shard_ok_def)
    with i show "kv_map s k = Some v" by (simp add: kv_map_def)
  qed (use assms shard_of_less in \<open>auto simp: kv_map_def\<close>)
  finally show ?thesis .
qed

lemma distinct_concat_map_nth:
  assumes "\<And>i. i < length xs \<Longrightarrow> distinct (f (xs ! i))"
    and "\<And>i j. i < length xs \<Longrightarrow> j < length xs \<Longrightarrow> i \<noteq> j \<Longrightarrow> set (f (xs ! i)) \<inter> set (f (xs ! j)) = {}"
  shows "distinct (concat (map f xs))"
  using assms
proof (induction xs)
  case (Cons x xs)
  have "distinct (concat (map f xs))"
    using Cons.prems by (intro Cons.IH) (metis Suc_less_eq length_Cons nth_Cons_Suc nat.inject)+
  moreover have "set (f x) \<inter> set (f y) = {}" if "y \<in> set xs" for y
    using that Cons.prems(2) [of 0 "Suc _"] by (auto simp: in_set_conv_nth)
  ultimately show ?case using Cons.prems(1) [of 0] by auto
qed simp

lemma kv_entries_distinct:
  assumes "kv_ok s"
  shows "distinct (map fst (kv_entries s))"
proof -
  have own: "shard_of s k = i" if "i < shardCount s" "k \<in> fst ` set (ht_entries (data (shards s ! i)))" for i k
    using kv_ok_shard [OF assms that(1)] that(2) ht_map_entries [of "data (shards s ! i)"]
    by (auto simp: shard_ok_def ht_ok_def dom_map_of_conv_image_fst)
  have "distinct (concat (map (\<lambda>sh. map fst (ht_entries (data sh))) (shards s)))"
  proof (rule distinct_concat_map_nth)
    fix i assume "i < length (shards s)"
    then show "distinct (map fst (ht_entries (data (shards s ! i))))"
      using assms ht_entries_distinct by (auto simp: kv_ok_def shard_ok_def ht_ok_def)
  next
    fix i j assume ij: "i < length (shards s)" "j < length (shards s)" "i \<noteq> j"
    have len: "length (shards s) = shardCount s" using assms by (simp add: kv_ok_def)
    show "set (map fst (ht_entries (data (shards s ! i)))) \<inter> set (map fst (ht_entries (data (shards s ! j)))) = {}"
      using own [of i] own [of j] ij unfolding len set_map by blast
  qed
  then show ?thesis by (simp add: kv_entries_def map_concat o_def)
qed

text \<open>A key that was just stored can be stored again.\<close>

lemma kv_set_again:
  assumes "kv_ok s" "kv_set s k v = Inr (s', None)"
  shows "\<exists>s'' ev. kv_set s' k w = Inr (s'', ev)"
proof -
  let ?sh = "shards s ! shard_of s k"
  have sh: "shard_ok s (shard_of s k) ?sh" using assms(1) by (rule kv_ok_own_shard)
  obtain d l where dl: "lru_set (lru ?sh) k = Inr (l, None)" "s' = put_shard s (shard_of s k) \<lparr>data = d, lru = l\<rparr>"
    using assms by (auto simp: kv_set_def Let_def bindE_Inr_iff)
  have "recency l = fst (recency_set (maxsz (lru ?sh)) (recency (lru ?sh)) k)" "snd (recency_set (maxsz (lru ?sh)) (recency (lru ?sh)) k) = None"
    using lru_set_cases [of "lru ?sh" k] sh dl(1) by (auto simp: shard_ok_def)
  then have "k \<in> set (recency l)" by (auto simp: recency_set_def Let_def split: if_splits)
  then have "tracked s' k" using dl(2) by (simp add: tracked_def shards_put [OF assms(1)])
  moreover have "kv_ok s'" "kv_map s' k \<noteq> None" using kv_set_ok [OF assms] by auto
  ultimately show ?thesis using kv_set_succeeds [of s' k w] by blast
qed

section \<open>Example stores\<close>

lemma new_has_empty: "has_empty new_HashTable"
  by (simp add: no_tombstone_has_empty new_HashTable_core)

text \<open>A store of one shard whose buckets are all tombstones.\<close>

definition exhausted_store :: "nat KVStore" where
  "exhausted_store = \<lparr>shardCount = 1, shards = [\<lparr>data = \<lparr>buckets = [\<lparr>hkey = [], hval = None, status = DELETED\<rparr>],
     bucketsz = 1, sz = 0\<rparr>, lru = new_LRU LRU_MAX_SIZE\<rparr>]\<rparr>"

lemma exhausted_store:
  "kv_ok exhausted_store" "kv_get exhausted_store k = Inl (Runtime_Error ''Empty position not found'')"
proof -
  let ?t = "\<lparr>buckets = [\<lparr>hkey = [], hval = None, status = DELETED\<rparr>], bucketsz = 1, sz = 0\<rparr> :: nat HashTable"
  have ok: "ht_ok ?t" by (simp add: ht_ok_def ht_core_def ht_count_def over_load_def holds_key_def)
  have m: "ht_map ?t = Map.empty" by (simp add: ht_map_def fun_eq_iff)
  show "kv_ok exhausted_store" using ok m
    by (simp add: kv_ok_def shard_ok_def exhausted_store_def new_LRU_ok) (simp add: recency_def new_LRU_def)
  have "ht_get ?t k = Inl no_slot"
    using ok m by (simp add: ht_get_eq ht_ok_def has_empty_def)
  then show "kv_get exhausted_store k = Inl no_slot"
    by (simp add: kv_get_def getShard_def exhausted_store_def)
qed

lemma new_store_kv_set: "\<exists>s. kv_set (new_KVStore SHARD_COUNT) k v = Inr (s, None)"
proof -
  have ok: "kv_ok (new_KVStore SHARD_COUNT)" by (rule kv.invar_new)
  have sh: "shards (new_KVStore SHARD_COUNT) ! shard_of (new_KVStore SHARD_COUNT) k = new_Shard"
    by (simp add: new_KVStore_def SHARD_COUNT_def shard_of_def)
  show ?thesis using kv_set_succeeds [OF ok, of k v] unfolding sh
    by (simp add: new_has_empty new_Shard_def new_LRU_def recency_def recency_set_def recency_del_def LRU_MAX_SIZE_def)
qed

lemma new_store_set:
  "\<exists>s. run_ops kv_get kv_update kv_del (new_KVStore SHARD_COUNT) [Op_Set k v] = Inr (s, [Stored])"
  using new_store_kv_set [of k v] by (auto simp: kv_update_def)

section \<open>Properties\<close>

text \<open>C6. The sharded store with its sixteen shards is a finite map: every sequence of \<open>get\<close>, \<open>set\<close>
  and \<open>del\<close> on a fresh store that ends without an exception gives the answers of a plain map.\<close>

theorem store_refines_map:
  assumes "run_ops kv_get kv_update kv_del (new_KVStore SHARD_COUNT) ops = Inr (s, answers)"
  shows "spec_ops Map.empty ops = (kv_map s, answers) \<and> kv_ok s"
  using kv.run_ops_from_new [OF assms] kv.run_ops_refines [OF kv.invar_new assms] by simp

theorem store_refines_map_witness:
  "\<exists>s. run_ops kv_get kv_update kv_del (new_KVStore SHARD_COUNT) [Op_Set ''a'' (7::nat)] = Inr (s, [Stored]) \<and>
     spec_ops Map.empty [Op_Set ''a'' 7] = (kv_map s, [Stored]) \<and> kv_ok s"
  using new_store_set [of "''a''" "7::nat"] store_refines_map by blast

text \<open>The recency list bounds what it tracks, not what is stored: a key that \<open>set\<close> reports as
  evicted keeps its value in the table, so every \<open>set\<close> that returns stores its key and loses none,
  whatever the capacity of the recency list.\<close>

theorem evicted_key_stays:
  assumes "kv_ok s" "kv_set s k v = Inr (s', Some e)"
  shows "kv_map s' = (kv_map s)(k \<mapsto> v) \<and> kv_map s' e \<noteq> None \<and> \<not> tracked s' e"
  using kv_set_ok [OF assms] by blast

theorem evicted_key_stays_witness:
  "\<exists>s k v s' e. kv_ok s \<and> kv_set s k (v::nat) = Inr (s', Some e) \<and>
     kv_map s' = (kv_map s)(k \<mapsto> v) \<and> kv_map s' e \<noteq> None \<and> \<not> tracked s' e"
proof -
  let ?s = "\<lparr>shardCount = 1, shards = [\<lparr>data = new_HashTable, lru = new_LRU 0\<rparr>]\<rparr> :: nat KVStore"
  have ok: "kv_ok ?s" by (simp add: kv_ok_def shard_ok_def new_LRU_ok) (simp add: recency_def new_LRU_def)
  have sh: "shards ?s ! shard_of ?s ''a'' = \<lparr>data = new_HashTable, lru = new_LRU 0\<rparr>"
    by (simp add: shard_of_def)
  have "\<exists>s'. kv_set ?s ''a'' 1 = Inr (s', snd (recency_set 0 [] ''a''))"
    using kv_set_succeeds [OF ok, of "''a''" 1] unfolding sh
    by (simp add: new_LRU_def recency_def new_has_empty)
  then obtain s' where s': "kv_set ?s ''a'' 1 = Inr (s', Some ''a'')"
    by (auto simp: recency_set_def recency_del_def)
  show ?thesis using evicted_key_stays [OF ok s'] ok s' by blast
qed

text \<open>The only failure of the store is the exception of a full probe loop: no operation uses a
  list iterator whose node was erased, and none reads out of bounds.\<close>

theorem store_failures:
  assumes "kv_ok s" "kv_set s k v = Inl e \<or> kv_get s k = Inl e \<or> kv_del s k = Inl e"
  shows "e = Runtime_Error ''Empty position not found''"
proof -
  consider "kv_set s k v = Inl e" | "kv_get s k = Inl e" | "kv_del s k = Inl e" using assms(2) by blast
  then show ?thesis
    by cases (use assms(1) kv_set_fails kv_get_fails kv_del_fails in \<open>metis+\<close>)
qed

theorem store_failures_witness:
  "\<exists>e. kv_ok exhausted_store \<and> kv_get exhausted_store ''a'' = Inl e \<and> e = Runtime_Error ''Empty position not found''"
proof -
  obtain e where e: "kv_get exhausted_store ''a'' = Inl e" using exhausted_store(2) by blast
  then have "e = Runtime_Error ''Empty position not found''"
    by (intro store_failures [OF exhausted_store(1), of "''a''" 0]) simp
  with e exhausted_store(1) show ?thesis by blast
qed

text \<open>\<open>forEach\<close> calls back exactly once for each stored key, with its value.\<close>

theorem forEach_visits_each_key_once:
  assumes "kv_ok s"
  shows "kv_forEach s (\<lambda>acc e. acc @ [e]) [] = kv_entries s \<and> distinct (map fst (kv_entries s)) \<and>
    map_of (kv_entries s) = kv_map s"
proof -
  have "foldl (\<lambda>acc e. acc @ [e]) a es = a @ es" for a and es :: "(string \<times> 'a) list"
    by (induction es arbitrary: a) simp_all
  moreover have "map_of (kv_entries s) = kv_map s"
    by (rule map_eqI) (simp add: kv_entries_distinct [OF assms] entries_iff [OF assms])
  ultimately show ?thesis by (simp add: kv_forEach_entries kv_entries_distinct [OF assms])
qed

theorem forEach_visits_each_key_once_witness:
  "kv_forEach exhausted_store (\<lambda>acc e. acc @ [e]) [] = kv_entries exhausted_store \<and>
   distinct (map fst (kv_entries exhausted_store)) \<and> map_of (kv_entries exhausted_store) = kv_map exhausted_store"
  by (rule forEach_visits_each_key_once [OF exhausted_store(1)])

end
