(* ===== verification/Resp_Parser.thy ===== *)
theory Resp_Parser
  imports Resp_Encoder
begin

text \<open>
  The incremental parser of \<open>resp/RespParser.cpp\<close>.  \<open>feed\<close> is the body of the loop over the
  characters of \<open>append\<close> (the \<open>switch\<close> on \<open>state\<close>); \<open>append\<close> runs it over a chunk.  A
  thrown exception ends the run with \<open>Inl\<close>.  \<open>total\<close> is a \<open>size_t\<close>, so it is a 64-bit
  word and the digits of a size accumulate modulo \<open>2 ^ 64\<close>; the \<open>int64_t\<close> of an integer line
  is an \<open>int\<close> whose overflow is undefined behaviour.

  Shown below: chunk boundaries do not matter; every stored state satisfies \<open>parser_ok\<close>, so
  the stack error is unreachable and every delivered value has a wire form; and the parser
  inverts the encoder.
\<close>

section \<open>State\<close>

record RespState =
  st_value :: RespValue
  total :: u64

datatype ParseState =
    WaitType | ReadSize | WaitLFSZ | WaitNil | WaitNilCR | ReadLine | WaitLF | ReadBulk

record RespParser =
  state :: ParseState
  node :: RespState
  stateStack :: "RespState list"
  message_queue :: "RespValue list"

definition default_RespState :: RespState where
  "default_RespState = \<lparr>st_value = default_RespValue, total = 0\<rparr>"

definition new_RespParser :: RespParser where
  "new_RespParser = \<lparr>state = WaitType, node = default_RespState, stateStack = [], message_queue = []\<rparr>"

abbreviation parse_error :: "'a res" where
  "parse_error \<equiv> Inl (Runtime_Error ''Parser Error!!'')"

section \<open>Operations\<close>

text \<open>
  \<open>push\<close>: an array that still waits for elements goes on the stack; anything else is
  delivered, to the queue when the stack is empty and to the array on top of it otherwise, which
  is pushed in turn when it is full.
\<close>

definition incomplete :: "RespState \<Rightarrow> bool" where
  "incomplete st \<longleftrightarrow>
     (case st_value st of Array (Some es) \<Rightarrow> length es \<noteq> unat (total st) | _ \<Rightarrow> False)"

fun push :: "RespState \<Rightarrow> RespState list \<Rightarrow> RespValue list \<Rightarrow> (RespState list \<times> RespValue list) res"
where
  "push st [] q =
     (if incomplete st then Inr ([st], q) else Inr ([], q @ [st_value st]))"
| "push st (tp # rest) q =
     (if incomplete st then Inr (st # tp # rest, q)
      else case st_value tp of
        Array (Some es) \<Rightarrow>
          (let tp' = tp\<lparr>st_value := Array (Some (es @ [st_value st]))\<rparr> in
           if length (es @ [st_value st]) = unat (total tp) then push tp' rest q
           else Inr (tp' # rest, q))
      | Array None \<Rightarrow> Inl (UB Nullopt_Deref)
      | _ \<Rightarrow> Inl (Runtime_Error ''Parser Stack Error!!''))"

definition push_node :: "RespParser \<Rightarrow> RespParser res" where
  "push_node p = bindE (push (node p) (stateStack p) (message_queue p))
     (\<lambda>(stk, q). Inr (p\<lparr>state := WaitType, stateStack := stk, message_queue := q\<rparr>))"

definition start :: "RespParser \<Rightarrow> RespValue \<Rightarrow> ParseState \<Rightarrow> RespParser" where
  "start p v s = p\<lparr>node := \<lparr>st_value = v, total = 0\<rparr>, state := s\<rparr>"

definition feed_WaitType :: "RespParser \<Rightarrow> char \<Rightarrow> RespParser res" where
  "feed_WaitType p c =
     (if c = CHR ''+'' then Inr (start p (SimpleString []) ReadLine)
      else if c = CHR ''-'' then Inr (start p (Error []) ReadLine)
      else if c = CHR '':'' then Inr (start p (Integer 0) ReadLine)
      else if c = CHR ''$'' then Inr (start p (BulkString None) ReadSize)
      else if c = CHR ''*'' then Inr (start p (Array None) ReadSize)
      else parse_error)"

definition size_digit :: "RespState \<Rightarrow> char \<Rightarrow> RespState" where
  "size_digit n c = n\<lparr>total := total n * 10 + of_nat (digit_val c)\<rparr>"

definition feed_ReadSize :: "RespParser \<Rightarrow> char \<Rightarrow> RespParser res" where
  "feed_ReadSize p c =
     (let n = node p in
      if c = CHR ''-'' then
        (case st_value n of
           Array None \<Rightarrow> Inr (p\<lparr>state := WaitNil\<rparr>)
         | BulkString None \<Rightarrow> Inr (p\<lparr>state := WaitNil\<rparr>)
         | _ \<Rightarrow> parse_error)
      else if c = CHR 0x0D then
        (case st_value n of
           Array None \<Rightarrow> Inl (UB Nullopt_Deref)
         | Array (Some _) \<Rightarrow>
             if unat (total n) > vector_max_size then Inl Length_Error
             else Inr (p\<lparr>state := WaitLFSZ\<rparr>)
         | BulkString None \<Rightarrow> Inl (UB Nullopt_Deref)
         | BulkString (Some _) \<Rightarrow>
             if unat (total n) > string_max_size then Inl Length_Error
             else Inr (p\<lparr>state := WaitLFSZ\<rparr>)
         | _ \<Rightarrow> parse_error)
      else if is_digit c then
        (case st_value n of
           Array a \<Rightarrow>
             Inr (p\<lparr>node := size_digit (if total n = 0 then n\<lparr>st_value := Array (Some [])\<rparr> else n) c\<rparr>)
         | BulkString b \<Rightarrow>
             Inr (p\<lparr>node := size_digit (if total n = 0 then n\<lparr>st_value := BulkString (Some [])\<rparr> else n) c\<rparr>)
         | _ \<Rightarrow> parse_error)
      else parse_error)"

definition feed_WaitLFSZ :: "RespParser \<Rightarrow> char \<Rightarrow> RespParser res" where
  "feed_WaitLFSZ p c =
     (if c = CHR 0x0A then
        (case st_value (node p) of
           Array _ \<Rightarrow> push_node p
         | BulkString _ \<Rightarrow> Inr (p\<lparr>state := ReadBulk\<rparr>)
         | _ \<Rightarrow> parse_error)
      else parse_error)"

text \<open>\<open>*it *= 10\<close> followed by \<open>*it += d\<close> or \<open>*it -= d\<close> on an \<open>int64_t\<close>.\<close>

definition int_digit :: "int \<Rightarrow> bool \<Rightarrow> nat \<Rightarrow> int res" where
  "int_digit i positive d =
     (if \<not> in_int64 (i * 10) then Inl (UB Signed_Overflow)
      else let j = (if positive then i * 10 + int d else i * 10 - int d) in
        if in_int64 j then Inr j else Inl (UB Signed_Overflow))"

definition feed_ReadLine :: "RespParser \<Rightarrow> char \<Rightarrow> RespParser res" where
  "feed_ReadLine p c =
     (let n = node p in
      if c = CHR 0x0D then Inr (p\<lparr>state := WaitLF\<rparr>)
      else case st_value n of
        SimpleString s \<Rightarrow> Inr (p\<lparr>node := n\<lparr>st_value := SimpleString (s @ [c])\<rparr>\<rparr>)
      | Error s \<Rightarrow> Inr (p\<lparr>node := n\<lparr>st_value := Error (s @ [c])\<rparr>\<rparr>)
      | Integer i \<Rightarrow>
          if c = CHR ''-'' then
            (if total n = 0 then Inr (p\<lparr>node := n\<lparr>total := - 1\<rparr>\<rparr>) else parse_error)
          else if is_digit c then
            (let t = (if total n = 0 then 1 else total n) in
             bindE (int_digit i (t = 1) (digit_val c))
               (\<lambda>j. Inr (p\<lparr>node := n\<lparr>st_value := Integer j, total := t\<rparr>\<rparr>)))
          else parse_error
      | _ \<Rightarrow> parse_error)"

definition feed_ReadBulk :: "RespParser \<Rightarrow> char \<Rightarrow> RespParser res" where
  "feed_ReadBulk p c =
     (let n = node p in
      case st_value n of
        BulkString None \<Rightarrow> Inl (UB Nullopt_Deref)
      | BulkString (Some s) \<Rightarrow>
          if length s = unat (total n) then
            (if c = CHR 0x0D then Inr (p\<lparr>state := WaitLF\<rparr>) else parse_error)
          else Inr (p\<lparr>node := n\<lparr>st_value := BulkString (Some (s @ [c]))\<rparr>\<rparr>)
      | _ \<Rightarrow> parse_error)"

definition feed :: "RespParser \<Rightarrow> char \<Rightarrow> RespParser res" where
  "feed p c =
     (case state p of
        WaitType \<Rightarrow> feed_WaitType p c
      | ReadSize \<Rightarrow> feed_ReadSize p c
      | WaitLFSZ \<Rightarrow> feed_WaitLFSZ p c
      | WaitNil \<Rightarrow> if c = CHR ''1'' then Inr (p\<lparr>state := WaitNilCR\<rparr>) else parse_error
      | WaitNilCR \<Rightarrow> if c = CHR 0x0D then Inr (p\<lparr>state := WaitLF\<rparr>) else parse_error
      | ReadLine \<Rightarrow> feed_ReadLine p c
      | WaitLF \<Rightarrow> if c = CHR 0x0A then push_node p else parse_error
      | ReadBulk \<Rightarrow> feed_ReadBulk p c)"

fun append :: "RespParser \<Rightarrow> string \<Rightarrow> RespParser res" where
  "append p [] = Inr p"
| "append p (c # cs) = bindE (feed p c) (\<lambda>p'. append p' cs)"

definition reset :: "RespParser \<Rightarrow> RespParser" where
  "reset p = new_RespParser"

definition hasResult :: "RespParser \<Rightarrow> bool" where
  "hasResult p \<longleftrightarrow> message_queue p \<noteq> []"

definition pop :: "RespParser \<Rightarrow> RespParser" where
  "pop p = (if hasResult p then p\<lparr>message_queue := tl (message_queue p)\<rparr> else p)"

definition getResult :: "RespParser \<Rightarrow> RespValue option \<times> RespParser" where
  "getResult p =
     (if hasResult p then (Some (hd (message_queue p)), pop p) else (None, p))"

section \<open>Chunk boundaries\<close>

lemma append_append: "append p (a @ b) = bindE (append p a) (\<lambda>p'. append p' b)"
  by (induction a arbitrary: p) (simp_all add: bindE_assoc)

lemma append_after: "append p a = Inr p' \<Longrightarrow> append p (a @ b) = append p' b"
  by (simp add: append_append)

section \<open>The parser's invariant\<close>

definition waiting_array :: "RespState \<Rightarrow> bool" where
  "waiting_array st \<longleftrightarrow>
     (case st_value st of
        Array (Some es) \<Rightarrow> length es < unat (total st) \<and> unat (total st) \<le> vector_max_size \<and>
          list_all resp_ok es
      | _ \<Rightarrow> False)"

fun node_ok :: "ParseState \<Rightarrow> RespState \<Rightarrow> bool" where
  "node_ok WaitType n \<longleftrightarrow> True"
| "node_ok ReadSize n \<longleftrightarrow> st_value n \<in> {Array None, Array (Some []), BulkString None, BulkString (Some [])}"
| "node_ok WaitLFSZ n \<longleftrightarrow>
     (st_value n = Array (Some []) \<and> unat (total n) \<le> vector_max_size) \<or>
     (st_value n = BulkString (Some []) \<and> unat (total n) \<le> string_max_size)"
| "node_ok WaitNil n \<longleftrightarrow> st_value n \<in> {Array None, BulkString None}"
| "node_ok WaitNilCR n \<longleftrightarrow> st_value n \<in> {Array None, BulkString None}"
| "node_ok ReadLine n \<longleftrightarrow>
     (case st_value n of
        SimpleString s \<Rightarrow> line_ok s | Error s \<Rightarrow> line_ok s | Integer i \<Rightarrow> in_int64 i | _ \<Rightarrow> False)"
| "node_ok WaitLF n \<longleftrightarrow> resp_ok (st_value n) \<and> \<not> incomplete n"
| "node_ok ReadBulk n \<longleftrightarrow>
     (case st_value n of
        BulkString (Some s) \<Rightarrow> length s \<le> unat (total n) \<and> unat (total n) \<le> string_max_size
      | _ \<Rightarrow> False)"

definition parser_ok :: "RespParser \<Rightarrow> bool" where
  "parser_ok p \<longleftrightarrow> node_ok (state p) (node p) \<and> list_all waiting_array (stateStack p) \<and>
     list_all resp_ok (message_queue p)"

lemma push_ok:
  assumes "list_all waiting_array stk" "list_all resp_ok q"
    and "resp_ok (st_value st)" "incomplete st \<Longrightarrow> waiting_array st"
  shows "\<exists>stk' q'. push st stk q = Inr (stk', q') \<and> list_all waiting_array stk' \<and> list_all resp_ok q'"
  using assms
proof (induction stk arbitrary: st)
  case Nil
  then show ?case by auto
next
  case (Cons tp rest)
  show ?case
  proof (cases "incomplete st")
    case True
    with Cons.prems show ?thesis by simp
  next
    case False
    from Cons.prems(1) obtain es where es: "st_value tp = Array (Some es)"
        "length es < unat (total tp)" "unat (total tp) \<le> vector_max_size" "list_all resp_ok es"
      by (auto simp: waiting_array_def split: RespValue.splits option.splits)
    let ?tp = "tp\<lparr>st_value := Array (Some (es @ [st_value st]))\<rparr>"
    show ?thesis
    proof (cases "Suc (length es) = unat (total tp)")
      case True
      have "\<exists>stk' q'. push ?tp rest q = Inr (stk', q') \<and> list_all waiting_array stk' \<and> list_all resp_ok q'"
        using Cons.prems es True
        by (intro Cons.IH) (auto simp: incomplete_def list_all_iff)
      with False True es(1) show ?thesis by simp
    next
      case neq: False
      with False es Cons.prems show ?thesis
        by (auto simp: waiting_array_def list_all_iff)
    qed
  qed
qed

lemma push_node_ok:
  assumes "parser_ok p" "resp_ok (st_value (node p))" "incomplete (node p) \<Longrightarrow> waiting_array (node p)"
  shows "\<exists>p'. push_node p = Inr p' \<and> parser_ok p'"
  using push_ok [of "stateStack p" "message_queue p" "node p"] assms
  by (auto simp: push_node_def parser_ok_def)

text \<open>What a step may do: go on in a good state, or stop with one of four failures.\<close>

definition parse_errors :: "kv_error set" where
  "parse_errors = {Runtime_Error ''Parser Error!!'', UB Nullopt_Deref, UB Signed_Overflow, Length_Error}"

definition step_ok :: "RespParser res \<Rightarrow> bool" where
  "step_ok r \<longleftrightarrow> (case r of Inl e \<Rightarrow> e \<in> parse_errors | Inr p \<Rightarrow> parser_ok p)"

lemma step_ok_simps [simp]:
  "step_ok (Inr p) \<longleftrightarrow> parser_ok p"
  "step_ok parse_error" "step_ok (Inl (UB Nullopt_Deref))"
  "step_ok (Inl (UB Signed_Overflow))" "step_ok (Inl Length_Error)"
  by (simp_all add: step_ok_def parse_errors_def)

lemma step_ok_push_node:
  assumes "parser_ok p" "resp_ok (st_value (node p))" "incomplete (node p) \<Longrightarrow> waiting_array (node p)"
  shows "step_ok (push_node p)"
  using push_node_ok [OF assms] by auto

lemma int64_0 [simp]: "in_int64 0"
  by (simp add: in_int64_def int64_min_def int64_max_def)

lemma feed_WaitType_ok: "parser_ok p \<Longrightarrow> step_ok (feed_WaitType p c)"
  by (simp add: feed_WaitType_def start_def parser_ok_def line_ok_def)

lemma feed_ReadSize_ok: "parser_ok p \<Longrightarrow> state p = ReadSize \<Longrightarrow> step_ok (feed_ReadSize p c)"
  by (auto simp: feed_ReadSize_def Let_def parser_ok_def size_digit_def
      split: RespValue.splits option.splits)

lemma feed_WaitLFSZ_ok: "parser_ok p \<Longrightarrow> state p = WaitLFSZ \<Longrightarrow> step_ok (feed_WaitLFSZ p c)"
  by (auto simp: feed_WaitLFSZ_def parser_ok_def incomplete_def waiting_array_def
      split: RespValue.splits option.splits intro!: step_ok_push_node)

lemma int_digit_cases: "int_digit i b d = Inl (UB Signed_Overflow) \<or> (\<exists>j. int_digit i b d = Inr j \<and> in_int64 j)"
  by (simp add: int_digit_def Let_def)

lemma feed_ReadLine_ok:
  assumes "parser_ok p" "state p = ReadLine"
  shows "step_ok (feed_ReadLine p c)"
proof (cases "st_value (node p)")
  case (Integer i)
  let ?t = "if total (node p) = 0 then 1 else total (node p)"
  from Integer assms int_digit_cases [of i "?t = 1" "digit_val c"] show ?thesis
    by (auto simp: feed_ReadLine_def Let_def parser_ok_def incomplete_def)
qed (use assms in \<open>auto simp: feed_ReadLine_def Let_def parser_ok_def incomplete_def line_ok_def\<close>)

lemma feed_ReadBulk_ok: "parser_ok p \<Longrightarrow> state p = ReadBulk \<Longrightarrow> step_ok (feed_ReadBulk p c)"
  by (auto simp: feed_ReadBulk_def Let_def parser_ok_def incomplete_def
      split: RespValue.splits option.splits)

lemma feed_WaitLF_ok: "parser_ok p \<Longrightarrow> state p = WaitLF \<Longrightarrow> step_ok (push_node p)"
  by (rule step_ok_push_node) (auto simp: parser_ok_def)

lemma feed_ok: "parser_ok p \<Longrightarrow> step_ok (feed p c)"
  by (cases "state p")
    (auto simp: feed_def feed_WaitType_ok feed_ReadSize_ok feed_WaitLFSZ_ok feed_ReadLine_ok
      feed_ReadBulk_ok feed_WaitLF_ok, auto simp: parser_ok_def incomplete_def)

lemma append_ok: "parser_ok p \<Longrightarrow> step_ok (append p s)"
proof (induction s arbitrary: p)
  case (Cons c s)
  then show ?case
    using feed_ok [of p c] by (cases "feed p c") (simp_all add: step_ok_def)
qed simp

lemma parser_ok_new [simp]: "parser_ok new_RespParser"
  by (simp add: parser_ok_def new_RespParser_def)

section \<open>The parser inverts the encoder\<close>

text \<open>\<open>deliver\<close> is what \<open>push\<close> does with a complete value, and \<open>delivered p v\<close> the
  result of a run that read exactly \<open>v\<close>: back in \<open>WaitType\<close> with \<open>v\<close> delivered; the
  node left behind is a moved-from object, overwritten before it is read again.\<close>

definition deliver :: "RespValue \<Rightarrow> RespState list \<Rightarrow> RespValue list \<Rightarrow> (RespState list \<times> RespValue list) res"
where
  "deliver v = push \<lparr>st_value = v,
     total = (case v of Array (Some es) \<Rightarrow> of_nat (length es) | _ \<Rightarrow> 0)\<rparr>"

definition delivered :: "RespParser \<Rightarrow> RespValue \<Rightarrow> RespParser res \<Rightarrow> bool" where
  "delivered p v r \<longleftrightarrow> (\<exists>nd. r = bindE (deliver v (stateStack p) (message_queue p))
     (\<lambda>(stk, q). Inr \<lparr>state = WaitType, node = nd, stateStack = stk, message_queue = q\<rparr>))"

lemma vector_max_size_word: "n \<le> vector_max_size \<Longrightarrow> unat (of_nat n :: u64) = n"
  by (simp add: unat_of_nat vector_max_size_def)

lemma string_max_size_word: "n \<le> string_max_size \<Longrightarrow> unat (of_nat n :: u64) = n"
  by (simp add: unat_of_nat string_max_size_def)

lemma push_value_only:
  "\<not> incomplete a \<Longrightarrow> \<not> incomplete b \<Longrightarrow> st_value a = st_value b \<Longrightarrow> push a stk q = push b stk q"
  by (cases stk) (auto split: RespValue.split option.split)

lemma push_complete:
  assumes "\<not> incomplete st" "resp_ok (st_value st)"
  shows "push st stk q = deliver (st_value st) stk q"
proof -
  let ?st = "\<lparr>st_value = st_value st,
     total = (case st_value st of Array (Some es) \<Rightarrow> of_nat (length es) | _ \<Rightarrow> 0)\<rparr>"
  have "\<not> incomplete ?st"
    using assms(2)
    by (auto simp: incomplete_def vector_max_size_word split: RespValue.split option.split)
  with assms(1) have "push st stk q = push ?st stk q"
    by (rule push_value_only) simp
  then show ?thesis by (simp only: deliver_def)
qed

lemma push_node_delivered:
  assumes "\<not> incomplete (node p)" "resp_ok v" "st_value (node p) = v"
  shows "delivered p v (push_node p)"
  unfolding delivered_def
  by (rule exI [of _ "node p"])
    (use assms in \<open>auto simp: push_node_def push_complete intro!: bindE_cong\<close>)

lemmas feed_simps = feed_def feed_WaitType_def feed_ReadSize_def feed_WaitLFSZ_def
  feed_ReadLine_def feed_ReadBulk_def start_def Let_def

text \<open>Reading the body of a line, of a bulk string, and the digits of a size.\<close>

lemma append_SimpleString_body:
  "state p = ReadLine \<Longrightarrow> st_value (node p) = SimpleString a \<Longrightarrow> line_ok s \<Longrightarrow>
   append p s = Inr (p\<lparr>node := (node p)\<lparr>st_value := SimpleString (a @ s)\<rparr>\<rparr>)"
  by (induction s arbitrary: p a) (auto simp: feed_simps line_ok_def)

lemma append_Error_body:
  "state p = ReadLine \<Longrightarrow> st_value (node p) = Error a \<Longrightarrow> line_ok s \<Longrightarrow>
   append p s = Inr (p\<lparr>node := (node p)\<lparr>st_value := Error (a @ s)\<rparr>\<rparr>)"
  by (induction s arbitrary: p a) (auto simp: feed_simps line_ok_def)

lemma append_Bulk_body:
  "state p = ReadBulk \<Longrightarrow> st_value (node p) = BulkString (Some a) \<Longrightarrow>
   length a + length s = unat (total (node p)) \<Longrightarrow>
   append p s = Inr (p\<lparr>node := (node p)\<lparr>st_value := BulkString (Some (a @ s))\<rparr>\<rparr>)"
  by (induction s arbitrary: p a) (auto simp: feed_simps)

lemma size_digit_total:
  "total n = of_nat t \<Longrightarrow> total (size_digit n c) = of_nat (t * 10 + digit_val c)"
  by (simp add: size_digit_def)

lemma append_Array_digits:
  assumes "\<forall>c\<in>set ds. is_digit c" "state p = ReadSize" "total (node p) = of_nat t"
    and "st_value (node p) = Array (Some []) \<or> (ds \<noteq> [] \<and> t = 0 \<and> st_value (node p) = Array None)"
  shows "append p ds = Inr (p\<lparr>node := \<lparr>st_value = Array (Some []), total = of_nat (dec_value t ds)\<rparr>\<rparr>)"
  using assms
proof (induction ds arbitrary: p t)
  case (Cons c ds)
  let ?n = "\<lparr>st_value = Array (Some []), total = of_nat (t * 10 + digit_val c)\<rparr>"
  have "feed p c = Inr (p\<lparr>node := ?n\<rparr>)"
    using Cons.prems by (auto simp: feed_simps size_digit_def)
  moreover have "append (p\<lparr>node := ?n\<rparr>) ds =
      Inr (p\<lparr>node := ?n\<rparr>\<lparr>node := \<lparr>st_value = Array (Some []), total = of_nat (dec_value (t * 10 + digit_val c) ds)\<rparr>\<rparr>)"
    using Cons.prems by (intro Cons.IH) auto
  ultimately show ?case by simp
qed auto

lemma append_Bulk_digits:
  assumes "\<forall>c\<in>set ds. is_digit c" "state p = ReadSize" "total (node p) = of_nat t"
    and "st_value (node p) = BulkString (Some []) \<or> (ds \<noteq> [] \<and> t = 0 \<and> st_value (node p) = BulkString None)"
  shows "append p ds = Inr (p\<lparr>node := \<lparr>st_value = BulkString (Some []), total = of_nat (dec_value t ds)\<rparr>\<rparr>)"
  using assms
proof (induction ds arbitrary: p t)
  case (Cons c ds)
  let ?n = "\<lparr>st_value = BulkString (Some []), total = of_nat (t * 10 + digit_val c)\<rparr>"
  have "feed p c = Inr (p\<lparr>node := ?n\<rparr>)"
    using Cons.prems by (auto simp: feed_simps size_digit_def)
  moreover have "append (p\<lparr>node := ?n\<rparr>) ds =
      Inr (p\<lparr>node := ?n\<rparr>\<lparr>node := \<lparr>st_value = BulkString (Some []), total = of_nat (dec_value (t * 10 + digit_val c) ds)\<rparr>\<rparr>)"
    using Cons.prems by (intro Cons.IH) auto
  ultimately show ?case by simp
qed auto

lemma dec_value_ge: "a \<le> dec_value a ds"
proof (induction ds arbitrary: a)
  case (Cons c ds)
  have "a \<le> a * 10 + digit_val c" by simp
  also have "\<dots> \<le> dec_value (a * 10 + digit_val c) ds" by (rule Cons.IH)
  finally show ?case by simp
qed simp

definition signed :: "bool \<Rightarrow> nat \<Rightarrow> int" where
  "signed pos n = (if pos then int n else - int n)"

lemma int_digit_signed:
  assumes "in_int64 (signed pos (a * 10 + d))"
  shows "int_digit (signed pos a) pos d = Inr (signed pos (a * 10 + d))"
  using assms
  by (cases pos) (auto simp: int_digit_def signed_def in_int64_def int64_min_def int64_max_def Let_def)

lemma in_int64_signed_mono: "in_int64 (signed pos n) \<Longrightarrow> m \<le> n \<Longrightarrow> in_int64 (signed pos m)"
  by (auto simp: signed_def in_int64_def int64_min_def int64_max_def split: if_splits)

text \<open>\<open>total\<close> doubles as the sign while an integer line is read: 0 at the start, then 1 or -1.\<close>

lemma append_Integer_digits:
  assumes "\<forall>c\<in>set ds. is_digit c" "state p = ReadLine"
    and "total (node p) = (if pos then 1 else - 1) \<or> (ds \<noteq> [] \<and> pos \<and> total (node p) = 0)"
    and "st_value (node p) = Integer (signed pos a)" "in_int64 (signed pos (dec_value a ds))"
  shows "append p ds = Inr (p\<lparr>node := \<lparr>st_value = Integer (signed pos (dec_value a ds)),
     total = (if pos then 1 else - 1)\<rparr>\<rparr>)"
  using assms
proof (induction ds arbitrary: p a)
  case (Cons c ds)
  let ?a = "a * 10 + digit_val c"
  let ?n = "\<lparr>st_value = Integer (signed pos ?a), total = (if pos then 1 else - 1)\<rparr>"
  from Cons.prems(5) have "in_int64 (signed pos ?a)"
    by (auto intro: in_int64_signed_mono dec_value_ge)
  then have "int_digit (signed pos a) pos (digit_val c) = Inr (signed pos ?a)"
    by (rule int_digit_signed)
  with Cons.prems have "feed p c = Inr (p\<lparr>node := ?n\<rparr>)"
    by (auto simp: feed_simps)
  moreover have "append (p\<lparr>node := ?n\<rparr>) ds =
      Inr (p\<lparr>node := ?n\<rparr>\<lparr>node := \<lparr>st_value = Integer (signed pos (dec_value ?a ds)),
        total = (if pos then 1 else - 1)\<rparr>\<rparr>)"
    using Cons.prems by (intro Cons.IH) auto
  ultimately show ?case by simp
qed auto

lemma append_Array_header:
  assumes "state p = WaitType" "n \<le> vector_max_size"
  shows "append p (''*'' @ to_string n @ crlf) =
    push_node (p\<lparr>state := WaitLFSZ, node := \<lparr>st_value = Array (Some []), total = of_nat n\<rparr>\<rparr>)"
proof -
  let ?p = "p\<lparr>state := ReadSize, node := \<lparr>st_value = Array None, total = 0\<rparr>\<rparr>"
  have "append ?p (to_string n) =
      Inr (?p\<lparr>node := \<lparr>st_value = Array (Some []), total = of_nat (dec_value 0 (to_string n))\<rparr>\<rparr>)"
    by (rule append_Array_digits) (auto simp: to_string_digits)
  with assms show ?thesis
    by (cases p) (simp add: append_append feed_simps crlf_def vector_max_size_word)
qed

lemma append_Bulk_header:
  assumes "state p = WaitType" "n \<le> string_max_size"
  shows "append p (''$'' @ to_string n @ crlf) =
    Inr (p\<lparr>state := ReadBulk, node := \<lparr>st_value = BulkString (Some []), total = of_nat n\<rparr>\<rparr>)"
proof -
  let ?p = "p\<lparr>state := ReadSize, node := \<lparr>st_value = BulkString None, total = 0\<rparr>\<rparr>"
  have "append ?p (to_string n) =
      Inr (?p\<lparr>node := \<lparr>st_value = BulkString (Some []), total = of_nat (dec_value 0 (to_string n))\<rparr>\<rparr>)"
    by (rule append_Bulk_digits) (auto simp: to_string_digits)
  with assms show ?thesis
    by (cases p) (simp add: append_append feed_simps crlf_def string_max_size_word)
qed

lemma delivered_push_node:
  "append p s = push_node p' \<Longrightarrow> \<not> incomplete (node p') \<Longrightarrow> resp_ok v \<Longrightarrow> st_value (node p') = v \<Longrightarrow>
   stateStack p' = stateStack p \<Longrightarrow> message_queue p' = message_queue p \<Longrightarrow>
   delivered p v (append p s)"
  using push_node_delivered [of p' v] by (simp add: delivered_def)

lemma parse_SimpleString:
  assumes "state p = WaitType" "line_ok s"
  shows "delivered p (SimpleString s) (append p (encode (SimpleString s)))"
  using assms
  by (intro delivered_push_node [of _ _ "p\<lparr>state := WaitLF, node := \<lparr>st_value = SimpleString s, total = 0\<rparr>\<rparr>"])
    (cases p, simp_all add: append_append feed_simps crlf_def append_SimpleString_body incomplete_def)

lemma parse_Error:
  assumes "state p = WaitType" "line_ok s"
  shows "delivered p (Error s) (append p (encode (Error s)))"
  using assms
  by (intro delivered_push_node [of _ _ "p\<lparr>state := WaitLF, node := \<lparr>st_value = Error s, total = 0\<rparr>\<rparr>"])
    (cases p, simp_all add: append_append feed_simps crlf_def append_Error_body incomplete_def)

lemma parse_Bulk:
  assumes "state p = WaitType" "resp_ok (BulkString b)"
  shows "delivered p (BulkString b) (append p (encode (BulkString b)))"
proof (cases b)
  case None
  with assms show ?thesis
    by (intro delivered_push_node [of _ _ "p\<lparr>state := WaitLF, node := \<lparr>st_value = BulkString None, total = 0\<rparr>\<rparr>"])
      (cases p, simp_all add: feed_simps crlf_def incomplete_def)
next
  case (Some s)
  let ?n = "\<lparr>st_value = BulkString (Some s), total = of_nat (length s)\<rparr> :: RespState"
  from assms Some have len: "length s \<le> string_max_size" by simp
  let ?p = "p\<lparr>state := ReadBulk, node := \<lparr>st_value = BulkString (Some []), total = of_nat (length s)\<rparr>\<rparr>"
  have "append p ((''$'' @ to_string (length s) @ crlf) @ s @ crlf) = append ?p (s @ crlf)"
    by (rule append_after [OF append_Bulk_header [OF assms(1) len]])
  also have "\<dots> = push_node (p\<lparr>state := WaitLF, node := ?n\<rparr>)"
    using len by (cases p) (simp add: append_append append_Bulk_body string_max_size_word feed_simps crlf_def)
  finally have "append p ((''$'' @ to_string (length s) @ crlf) @ s @ crlf) =
    push_node (p\<lparr>state := WaitLF, node := ?n\<rparr>)" .
  with Some assms(2) show ?thesis
    by (intro delivered_push_node [of _ _ "p\<lparr>state := WaitLF, node := ?n\<rparr>"])
      (simp_all add: incomplete_def)
qed

lemma parse_Integer:
  assumes "state p = WaitType" "in_int64 i"
  shows "delivered p (Integer i) (append p (encode (Integer i)))"
proof -
  define pos where "pos = (\<not> i < 0)"
  define a where "a = nat \<bar>i\<bar>"
  have i: "i = signed pos a" by (auto simp: pos_def a_def signed_def)
  have str: "int_to_string i = (if pos then [] else ''-'') @ to_string a"
    by (simp add: int_to_string_def pos_def a_def)
  let ?p = "p\<lparr>state := ReadLine, node := \<lparr>st_value = Integer 0, total = (if pos then 0 else - 1)\<rparr>\<rparr>"
  let ?n = "\<lparr>st_value = Integer i, total = (if pos then 1 else - 1)\<rparr> :: RespState"
  have "append ?p (to_string a) = Inr (?p\<lparr>node := \<lparr>st_value = Integer (signed pos (dec_value 0 (to_string a))),
      total = (if pos then 1 else - 1)\<rparr>\<rparr>)"
    using assms(2) i by (intro append_Integer_digits) (auto simp: to_string_digits signed_def)
  then have "append ?p (to_string a) = Inr (?p\<lparr>node := ?n\<rparr>)"
    by (simp add: i [symmetric])
  with assms(1) have "append p (encode (Integer i)) = push_node (p\<lparr>state := WaitLF, node := ?n\<rparr>)"
    by (cases p; cases pos) (simp_all add: str append_append feed_simps crlf_def)
  with assms(2) show ?thesis
    by (intro delivered_push_node [of _ _ "p\<lparr>state := WaitLF, node := ?n\<rparr>"])
      (simp_all add: incomplete_def)
qed

lemma deliver_to_array:
  assumes "resp_ok v"
  shows "deliver v (\<lparr>st_value = Array (Some es), total = n\<rparr> # stk) q =
    (if Suc (length es) = unat n then push \<lparr>st_value = Array (Some (es @ [v])), total = n\<rparr> stk q
     else Inr (\<lparr>st_value = Array (Some (es @ [v])), total = n\<rparr> # stk, q))"
  using assms
  by (auto simp: deliver_def incomplete_def vector_max_size_word Let_def
      split: RespValue.split option.split)

text \<open>Reading the remaining elements \<open>rs\<close> of the array on top of the stack delivers that array.\<close>

lemma parse_elements:
  assumes "\<And>r p. r \<in> set rs \<Longrightarrow> state p = WaitType \<Longrightarrow> resp_ok r \<Longrightarrow> delivered p r (append p (encode r))"
    and "rs \<noteq> []" "state p = WaitType" "stateStack p = \<lparr>st_value = Array (Some es), total = n\<rparr> # stk"
    and "length es + length rs = unat n" "resp_ok (Array (Some (es @ rs)))"
  shows "delivered (p\<lparr>stateStack := stk\<rparr>) (Array (Some (es @ rs))) (append p (concat (map encode rs)))"
  using assms
proof (induction rs arbitrary: p es)
  case (Cons r rs)
  let ?arr = "\<lparr>st_value = Array (Some (es @ [r])), total = n\<rparr>"
  have ok: "resp_ok r" "resp_ok (Array (Some (es @ [r]))) \<or> rs \<noteq> []"
    using Cons.prems(6) by auto
  have "delivered p r (append p (encode r))"
    using Cons.prems(1) [of r p] Cons.prems(3) ok(1) by simp
  then obtain nd where nd: "append p (encode r) =
      bindE (deliver r (\<lparr>st_value = Array (Some es), total = n\<rparr> # stk) (message_queue p))
        (\<lambda>(stk, q). Inr \<lparr>state = WaitType, node = nd, stateStack = stk, message_queue = q\<rparr>)"
    using Cons.prems(4) by (auto simp: delivered_def)
  show ?case
  proof (cases "rs = []")
    case True
    have "push ?arr stk (message_queue p) = deliver (st_value ?arr) stk (message_queue p)"
      using True Cons.prems(5) ok by (intro push_complete) (auto simp: incomplete_def)
    with True nd Cons.prems(5) ok(1) show ?thesis
      by (auto simp: deliver_to_array delivered_def)
  next
    case False
    let ?p = "\<lparr>state = WaitType, node = nd, stateStack = ?arr # stk, message_queue = message_queue p\<rparr>"
    have "Suc (length es) \<noteq> unat n"
      using False Cons.prems(5) by (cases rs) auto
    with nd ok(1) have "append p (encode r) = Inr ?p"
      by (simp add: deliver_to_array)
    then have "append p (concat (map encode (r # rs))) = append ?p (concat (map encode rs))"
      by (simp add: append_after)
    moreover have "delivered (?p\<lparr>stateStack := stk\<rparr>) (Array (Some ((es @ [r]) @ rs)))
        (append ?p (concat (map encode rs)))"
      using False Cons.prems by (intro Cons.IH) auto
    ultimately show ?thesis by (simp add: delivered_def)
  qed
qed simp

lemma parse_encode:
  "state p = WaitType \<Longrightarrow> resp_ok v \<Longrightarrow> delivered p v (append p (encode v))"
proof (induction v arbitrary: p rule: RespValue_induct)
  case Nil_Array
  then show ?case
    by (intro delivered_push_node [of _ _ "p\<lparr>state := WaitLF, node := \<lparr>st_value = Array None, total = 0\<rparr>\<rparr>"])
      (cases p, simp_all add: feed_simps crlf_def incomplete_def)
next
  case (Array vs)
  let ?n = "\<lparr>st_value = Array (Some []), total = of_nat (length vs)\<rparr> :: RespState"
  let ?p = "p\<lparr>state := WaitLFSZ, node := ?n\<rparr>"
  let ?p' = "p\<lparr>state := WaitType, node := ?n, stateStack := ?n # stateStack p\<rparr>"
  from Array.prems(2) have len: "length vs \<le> vector_max_size" by simp
  have hd: "append p (''*'' @ to_string (length vs) @ crlf) = push_node ?p"
    by (rule append_Array_header [OF Array.prems(1) len])
  show ?case
  proof (cases "vs = []")
    case True
    with hd show ?thesis
      by (intro delivered_push_node [of _ _ ?p]) (simp_all add: incomplete_def)
  next
    case False
    then have "push ?n (stateStack p) (message_queue p) = Inr (?n # stateStack p, message_queue p)"
      by (cases "stateStack p") (auto simp: incomplete_def vector_max_size_word len)
    then have "push_node ?p = Inr ?p'"
      by (cases p) (simp add: push_node_def)
    with hd have "append p ((''*'' @ to_string (length vs) @ crlf) @ concat (map encode vs)) =
        append ?p' (concat (map encode vs))"
      by (intro append_after) simp
    moreover have "delivered (?p'\<lparr>stateStack := stateStack p\<rparr>) (Array (Some ([] @ vs)))
        (append ?p' (concat (map encode vs)))"
      using False Array by (intro parse_elements) (auto simp: vector_max_size_word)
    ultimately show ?thesis by (simp add: delivered_def)
  qed
qed (auto intro: parse_SimpleString parse_Error parse_Integer parse_Bulk simp del: encode_Bulk
    encode_SimpleString encode_Error encode_Integer)

section \<open>The parser as a stream codec\<close>

definition between_messages :: "RespParser \<Rightarrow> bool" where
  "between_messages p \<longleftrightarrow> state p = WaitType \<and> stateStack p = []"

lemma parse_one:
  assumes "between_messages p" "resp_ok v"
  shows "\<exists>p'. append p (encode v) = Inr p' \<and> between_messages p' \<and> message_queue p' = message_queue p @ [v]"
proof -
  let ?st = "\<lparr>st_value = v, total = (case v of Array (Some es) \<Rightarrow> of_nat (length es) | _ \<Rightarrow> 0)\<rparr> :: RespState"
  have "\<not> incomplete ?st"
    using assms(2) by (auto simp: incomplete_def vector_max_size_word split: RespValue.split option.split)
  then have "deliver v [] (message_queue p) = Inr ([], message_queue p @ [v])"
    by (simp add: deliver_def)
  with assms parse_encode [of p v] show ?thesis
    by (auto simp: between_messages_def delivered_def)
qed

lemma push_queue: "push st stk q = Inr (stk', q') \<Longrightarrow> \<exists>vs. q' = q @ vs"
  by (induction st stk q rule: push.induct)
    (auto simp: Let_def split: if_splits RespValue.splits option.splits)

lemma push_node_queue: "push_node p = Inr p' \<Longrightarrow> \<exists>vs. message_queue p' = message_queue p @ vs"
  by (auto simp: push_node_def bindE_Inr_iff dest: push_queue)

lemma feed_queue:
  assumes "feed p c = Inr p'"
  shows "\<exists>vs. message_queue p' = message_queue p @ vs"
proof -
  have "push_node p = Inr p' \<or> message_queue p' = message_queue p"
    using assms
    by (auto simp: feed_simps bindE_Inr_iff
        split: ParseState.splits if_splits RespValue.splits option.splits)
  then show ?thesis using push_node_queue by auto
qed

lemma append_queue: "append p s = Inr p' \<Longrightarrow> \<exists>vs. message_queue p' = message_queue p @ vs"
proof (induction s arbitrary: p)
  case (Cons c s)
  then show ?case by (fastforce simp: bindE_Inr_iff dest: feed_queue)
qed auto

interpretation resp: stream_codec encode append between_messages message_queue resp_ok
proof unfold_locales
  fix p v assume "between_messages p" "resp_ok v"
  then show "\<exists>p'. append p (encode v) = Inr p' \<and> between_messages p' \<and>
      message_queue p' = message_queue p @ [v]"
    by (rule parse_one)
qed (auto simp: append_append dest: append_queue)

text \<open>The queue only collects results: what is in it does not influence the parser.\<close>

lemma push_queue_prefix:
  "push st stk (q0 @ q) = bindE (push st stk q) (\<lambda>(stk', q'). Inr (stk', q0 @ q'))"
  by (induction st stk q rule: push.induct)
    (auto simp: Let_def split: RespValue.splits option.splits)

abbreviation requeue :: "RespValue list \<Rightarrow> RespParser \<Rightarrow> RespParser" where
  "requeue q0 p \<equiv> p\<lparr>message_queue := q0 @ message_queue p\<rparr>"

lemma push_node_requeue: "push_node (requeue q0 p) = bindE (push_node p) (\<lambda>p'. Inr (requeue q0 p'))"
  by (auto simp: push_node_def push_queue_prefix bindE_def split: sum.splits prod.splits)

lemma feed_WaitType_requeue: "feed_WaitType (requeue q0 p) c = bindE (feed_WaitType p c) (\<lambda>p'. Inr (requeue q0 p'))"
  by (simp add: feed_WaitType_def start_def)

lemma feed_ReadSize_requeue: "feed_ReadSize (requeue q0 p) c = bindE (feed_ReadSize p c) (\<lambda>p'. Inr (requeue q0 p'))"
  by (cases "st_value (node p)") (simp_all add: feed_ReadSize_def Let_def split: option.split)

lemma feed_WaitLFSZ_requeue: "feed_WaitLFSZ (requeue q0 p) c = bindE (feed_WaitLFSZ p c) (\<lambda>p'. Inr (requeue q0 p'))"
  by (cases "st_value (node p)") (simp_all add: feed_WaitLFSZ_def push_node_requeue)

lemma feed_ReadLine_requeue: "feed_ReadLine (requeue q0 p) c = bindE (feed_ReadLine p c) (\<lambda>p'. Inr (requeue q0 p'))"
  by (cases "st_value (node p)") (simp_all add: feed_ReadLine_def Let_def bindE_def split: sum.split)

lemma feed_ReadBulk_requeue: "feed_ReadBulk (requeue q0 p) c = bindE (feed_ReadBulk p c) (\<lambda>p'. Inr (requeue q0 p'))"
  by (cases "st_value (node p)") (simp_all add: feed_ReadBulk_def Let_def split: option.split)

lemma feed_requeue: "feed (requeue q0 p) c = bindE (feed p c) (\<lambda>p'. Inr (requeue q0 p'))"
  by (cases "state p") (simp_all add: feed_def push_node_requeue feed_WaitType_requeue
      feed_ReadSize_requeue feed_WaitLFSZ_requeue feed_ReadLine_requeue feed_ReadBulk_requeue)

lemma append_requeue: "append (requeue q0 p) s = bindE (append p s) (\<lambda>p'. Inr (requeue q0 p'))"
  by (induction s arbitrary: p) (simp_all add: feed_requeue bindE_assoc)

lemma append_unqueue:
  assumes "append p str = Inr q"
  shows "\<exists>vs. append (p\<lparr>message_queue := []\<rparr>) str = Inr (q\<lparr>message_queue := vs\<rparr>) \<and> message_queue q = message_queue p @ vs"
proof -
  have "bindE (append (p\<lparr>message_queue := []\<rparr>) str) (\<lambda>p'. Inr (requeue (message_queue p) p')) = Inr q"
    using assms append_requeue [of "message_queue p" "p\<lparr>message_queue := []\<rparr>" str] by simp
  then obtain p' where "append (p\<lparr>message_queue := []\<rparr>) str = Inr p'" "q = requeue (message_queue p) p'"
    by (auto elim!: bindE_InrE)
  then show ?thesis by (intro exI [of _ "message_queue p'"]) simp
qed

text \<open>A byte that completes no message leaves the parser in the middle of one.\<close>

lemma push_progress: "push st stk q = Inr (stk', q) \<Longrightarrow> stk' \<noteq> []"
  by (induction st stk q rule: push.induct)
    (auto simp: Let_def split: if_splits RespValue.splits option.splits)

lemma push_node_progress: "push_node p = Inr p' \<Longrightarrow> message_queue p' = message_queue p \<Longrightarrow> \<not> between_messages p'"
  by (auto simp: push_node_def bindE_Inr_iff between_messages_def dest: push_progress)

lemma feed_progress:
  assumes "feed p c = Inr p'" "message_queue p' = message_queue p"
  shows "\<not> between_messages p'"
proof -
  have "push_node p = Inr p' \<or> state p' \<noteq> WaitType"
    using assms(1)
    by (auto simp: feed_simps bindE_Inr_iff
        split: ParseState.splits if_splits RespValue.splits option.splits)
  then show ?thesis using assms(2) push_node_progress by (auto simp: between_messages_def)
qed

lemma append_progress:
  assumes "append p s = Inr p'" "s \<noteq> []" "message_queue p' = message_queue p"
  shows "\<not> between_messages p'"
proof -
  obtain t c where t: "s = t @ [c]" using assms(2) by (metis rev_exhaust)
  then obtain p1 where p1: "append p t = Inr p1" "feed p1 c = Inr p'"
    using assms(1) by (auto simp: append_append bindE_Inr_iff)
  obtain vs ws where "message_queue p1 = message_queue p @ vs" "message_queue p' = message_queue p1 @ ws"
    using append_queue [OF p1(1)] feed_queue [OF p1(2)] by metis
  then have "message_queue p' = message_queue p1" using assms(3) by simp
  with p1(2) show ?thesis by (rule feed_progress)
qed

lemma between_messages_new [simp]: "between_messages new_RespParser"
  by (simp add: between_messages_def new_RespParser_def)

lemma message_queue_new [simp]: "message_queue new_RespParser = []"
  by (simp add: new_RespParser_def)

section \<open>Properties\<close>

text \<open>C1. Whatever values the encoder writes one after the other, and however the network cuts the
  bytes into chunks, a fresh parser that is fed the chunks in order throws nothing and queues
  exactly these values in order, and is then ready for the next message.\<close>

theorem parser_reads_encoded_stream:
  assumes "concat chunks = concat (map encode vs)" "list_all resp_ok vs"
  shows "\<exists>p. foldE append new_RespParser chunks = Inr p \<and> message_queue p = vs \<and>
    state p = WaitType \<and> stateStack p = []"
proof -
  obtain p where "append new_RespParser (concat (map encode vs)) = Inr p" "between_messages p"
      "message_queue p = vs"
    using resp.run_stream [OF between_messages_new assms(2)] by auto
  with assms(1) show ?thesis by (simp add: resp.run_chunks between_messages_def)
qed

theorem parser_reads_encoded_stream_witness:
  "\<exists>p. foldE append new_RespParser [''*2'' @ crlf @ ''+GE'', ''T'' @ crlf @ ''$3'', crlf @ ''k1'', ''x'' @ crlf] = Inr p \<and>
     message_queue p = [Array (Some [SimpleString ''GET'', BulkString (Some ''k1x'')])] \<and>
     state p = WaitType \<and> stateStack p = []"
  by (rule parser_reads_encoded_stream)
    (simp_all add: to_string.simps numeral_2_eq_2 [symmetric] numeral_3_eq_3 [symmetric] line_ok_def string_max_size_def vector_max_size_def)

text \<open>Two well-formed messages never share bytes ambiguously: if a byte stream can be read as
  message \<open>v\<close> followed by \<open>s\<close> and as message \<open>w\<close> followed by \<open>t\<close>, both readings agree.\<close>

theorem encode_unambiguous:
  assumes "resp_ok v" "resp_ok w" "encode v @ s = encode w @ t"
  shows "v = w \<and> s = t"
  by (rule resp.enc_unambiguous [OF between_messages_new assms])

theorem encode_unambiguous_witness:
  "Integer (- 7) = Integer (- 7) \<and> ''rest'' = ''rest''"
  by (rule encode_unambiguous) (simp_all add: in_int64_def int64_min_def int64_max_def)

text \<open>C23. Whatever bytes a peer sends, every value the parser hands out can be sent again and read
  back unchanged (its lines hold no carriage return, its integers fit in 64 bits, its sizes are
  within bounds), and the parser's own state stays consistent.\<close>

theorem parser_delivers_wellformed:
  assumes "append new_RespParser bytes = Inr p"
  shows "parser_ok p \<and> (\<forall>v\<in>set (message_queue p). resp_ok v)"
  using append_ok [OF parser_ok_new, of bytes] assms by (simp add: parser_ok_def list_all_iff)

theorem parser_delivers_wellformed_witness:
  "parser_ok (new_RespParser\<lparr>message_queue := [SimpleString ''A''],
     node := \<lparr>st_value = SimpleString ''A'', total = 0\<rparr>\<rparr>) \<and> resp_ok (SimpleString ''A'')"
  using parser_delivers_wellformed [of "''+A'' @ crlf" "new_RespParser\<lparr>message_queue := [SimpleString ''A''],
      node := \<lparr>st_value = SimpleString ''A'', total = 0\<rparr>\<rparr>"]
  by (simp add: feed_simps crlf_def new_RespParser_def push_node_def incomplete_def)



text \<open>A bulk string or array header without any digit makes the parser call \<open>reserve\<close> on an
  empty \<open>std::optional\<close>, in every parser state that waits for a message, so a peer can cause
  undefined behaviour with three bytes.\<close>

theorem missing_size_is_undefined:
  assumes "state p = WaitType" "c = CHR ''$'' \<or> c = CHR ''*''"
  shows "append p (c # crlf) = Inl (UB Nullopt_Deref)"
  using assms by (auto simp: feed_simps crlf_def)

theorem missing_size_is_undefined_witness:
  "append new_RespParser (''$'' @ crlf) = Inl (UB Nullopt_Deref)"
  using missing_size_is_undefined [of new_RespParser "CHR ''$''"] by (simp add: new_RespParser_def)

end
