(* ===== verification/Snapshot.thy ===== *)
theory Snapshot
  imports KV_Store Resp_Parser
begin

text \<open>
  Snapshots: \<open>HashTable::writetofile\<close> and \<open>readfromfile\<close>, and the loops over the shards in
  \<open>KVStore.cpp\<close>.  A file is its content, a directory a map from file names to contents; whether a
  file can be opened is an argument.  A \<open>uint32_t\<close> is written as its four bytes, least significant
  first (x86-64).  A read that finds fewer bytes than asked for leaves the rest of its target as it
  was, which for a local variable is its indeterminate value (\<open>Uninitialised\<close>).

  What a snapshot keeps of a table is \<open>purge\<close>: the occupied buckets at their places, every other
  bucket empty.  Reading back what was written gives exactly that.
\<close>

section \<open>Bytes\<close>

definition le32 :: "u32 \<Rightarrow> string" where
  "le32 w = map (\<lambda>j. char_of (unat w div 256 ^ j mod 256)) [0, 1, 2, 3]"

definition from_le32 :: "string \<Rightarrow> u32" where
  "from_le32 cs = of_nat (foldr (\<lambda>c n. of_char c + 256 * n) cs 0)"

definition read_u32 :: "string \<Rightarrow> (u32 \<times> string) res" where
  "read_u32 s = (if length s < 4 then Inl (UB Uninitialised) else Inr (from_le32 (take 4 s), drop 4 s))"

text \<open>\<open>str.resize(n)\<close> and \<open>file.read(&str[0], n)\<close>.\<close>

definition resize :: "nat \<Rightarrow> string \<Rightarrow> string" where
  "resize n cs = take n cs @ replicate (n - length cs) (CHR 0x00)"

definition read_into :: "nat \<Rightarrow> string \<Rightarrow> string \<Rightarrow> string \<times> string" where
  "read_into n target s = (let got = take n s in (got @ drop (length got) target, drop n s))"

section \<open>One table\<close>

type_synonym resp_node = "RespValue HNode"

definition node_value :: "resp_node \<Rightarrow> RespValue" where
  "node_value nd = (case hval nd of None \<Rightarrow> default_RespValue | Some v \<Rightarrow> v)"

definition write_node :: "u32 \<Rightarrow> resp_node \<Rightarrow> string" where
  "write_node i nd =
     (let keysize = of_nat (length (hkey nd)) :: u32; v = encode (node_value nd);
          valuesize = of_nat (length v) :: u32
      in le32 i @ le32 keysize @ le32 valuesize @ take (unat keysize) (hkey nd) @ take (unat valuesize) v)"

fun write_nodes :: "nat \<Rightarrow> resp_node list \<Rightarrow> string" where
  "write_nodes i [] = []"
| "write_nodes i (nd # nds) =
     (if status nd = EMPTY \<or> status nd = DELETED then [] else write_node (of_nat i) nd) @ write_nodes (Suc i) nds"

definition snapshot_bytes :: "RespValue HashTable \<Rightarrow> string" where
  "snapshot_bytes t = le32 (of_nat (bucketsz t)) @ le32 (of_nat (sz t)) @ write_nodes 0 (buckets t)"

text \<open>\<open>opened\<close> tells whether one of the two attempts to open the file succeeds.\<close>

definition ht_writetofile :: "bool \<Rightarrow> RespValue HashTable \<Rightarrow> string res" where
  "ht_writetofile opened t = (if opened then Inr (snapshot_bytes t) else Inl (Runtime_Error ''File open failed.''))"

definition parse_value :: "string \<Rightarrow> RespValue res" where
  "parse_value v = bindE (append new_RespParser v) (\<lambda>p.
     if hasResult p then Inr (the (fst (getResult p)))
     else Inl (Runtime_Error ''Parser has no result!!!!!''))"

definition read_node :: "RespValue HashTable \<Rightarrow> string \<Rightarrow> (RespValue HashTable \<times> string) res" where
  "read_node t s =
     bindE (read_u32 s) (\<lambda>(idx, s).
     if unat idx \<ge> length (buckets t) then Inl (UB Out_Of_Bounds) else
     let nd = (buckets t ! unat idx)\<lparr>status := OCCUPIED\<rparr> in
     bindE (read_u32 s) (\<lambda>(keysize, s).
     bindE (read_u32 s) (\<lambda>(valuesize, s).
     let (k, s) = (if keysize > 0 then read_into (unat keysize) (resize (unat keysize) (hkey nd)) s else (hkey nd, s));
         nd = nd\<lparr>hkey := k\<rparr>
     in if valuesize > 0 then
          let (v, s) = read_into (unat valuesize) (resize (unat valuesize) []) s in
          bindE (parse_value v) (\<lambda>x. Inr (put t (unat idx) (nd\<lparr>hval := Some x\<rparr>), s))
        else Inr (put t (unat idx) nd, s))))"

fun read_nodes :: "nat \<Rightarrow> RespValue HashTable \<Rightarrow> string \<Rightarrow> RespValue HashTable res" where
  "read_nodes 0 t s = Inr t"
| "read_nodes (Suc n) t s = bindE (read_node t s) (\<lambda>(t', s'). read_nodes n t' s')"

definition ht_readfromfile :: "string option \<Rightarrow> RespValue HashTable \<Rightarrow> RespValue HashTable res" where
  "ht_readfromfile file t = (case file of
     None \<Rightarrow> Inl (Runtime_Error ''File open failed.'')
   | Some s \<Rightarrow>
       bindE (read_u32 s) (\<lambda>(readbucketsz, s).
       bindE (read_u32 s) (\<lambda>(validsz, s).
         let n = unat readbucketsz in
         read_nodes (unat validsz) (t\<lparr>bucketsz := n, buckets := replicate n empty_Node, sz := unat validsz\<rparr>) s)))"

section \<open>The store\<close>

type_synonym directory = "string \<rightharpoonup> string"

definition shard_file :: "nat \<Rightarrow> string" where
  "shard_file i = ''shard_'' @ to_string i @ ''.snap''"

definition write_shards :: "(nat \<Rightarrow> bool) \<Rightarrow> RespValue KVStore \<Rightarrow> directory \<Rightarrow> directory res" where
  "write_shards opened s dir = foldE (\<lambda>dir i.
     bindE (ht_writetofile (opened i) (data (shards s ! i))) (\<lambda>c. Inr (dir(shard_file i \<mapsto> c)))) dir [0..<shardCount s]"

text \<open>The directory is removed and created anew before the shards are written.\<close>

definition kv_writetofile :: "(nat \<Rightarrow> bool) \<Rightarrow> RespValue KVStore \<Rightarrow> directory res" where
  "kv_writetofile opened s = write_shards opened s Map.empty"

text \<open>The child process of a fork runs the same loop without the locks.\<close>

definition kv_writetofileFork :: "(nat \<Rightarrow> bool) \<Rightarrow> RespValue KVStore \<Rightarrow> directory res" where
  "kv_writetofileFork opened s = write_shards opened s Map.empty"

definition read_shard :: "directory \<Rightarrow> RespValue KVStore \<Rightarrow> nat \<Rightarrow> RespValue KVStore res" where
  "read_shard dir s i =
     (if dir (shard_file i) = None then Inr s
      else bindE (ht_readfromfile (dir (shard_file i)) (data (shards s ! i))) (\<lambda>d.
        Inr (put_shard s i \<lparr>data = d, lru = lru_clear (lru (shards s ! i))\<rparr>)))"

definition kv_readfromfile :: "directory \<Rightarrow> RespValue KVStore \<Rightarrow> RespValue KVStore res" where
  "kv_readfromfile dir s = foldE (read_shard dir) s [0..<shardCount s]"

section \<open>What a snapshot keeps\<close>

definition purge_node :: "'v HNode \<Rightarrow> 'v HNode" where
  "purge_node nd = (if status nd = OCCUPIED then nd else empty_Node)"

definition purge :: "'v HashTable \<Rightarrow> 'v HashTable" where
  "purge t = t\<lparr>buckets := map purge_node (buckets t)\<rparr>"

text \<open>Sizes that fit the fields of the file, and values the parser reads back.\<close>

definition node_fits :: "resp_node \<Rightarrow> bool" where
  "node_fits nd \<longleftrightarrow> status nd = OCCUPIED \<longrightarrow> length (hkey nd) < 2 ^ 32 \<and> hval nd \<noteq> None \<and> resp_ok (node_value nd) \<and>
     length (encode (node_value nd)) < 2 ^ 32"

definition table_fits :: "RespValue HashTable \<Rightarrow> bool" where
  "table_fits t \<longleftrightarrow> bucketsz t < 2 ^ 32 \<and> (\<forall>nd\<in>set (buckets t). node_fits nd)"

section \<open>Lemmas\<close>

lemma le32_length [simp]: "length (le32 w) = 4"
  by (simp add: le32_def)

lemma base256: "n mod 256 + 256 * (n div 256 mod 256 + 256 * (n div 65536 mod 256 + 256 * (n div 16777216))) = n"
  for n :: nat
proof -
  have 1: "n div 65536 = n div 256 div 256" "n div 16777216 = n div 256 div 256 div 256"
    by (simp_all flip: div_mult2_eq)
  show ?thesis unfolding 1 by simp
qed

lemma from_le32_le32 [simp]: "from_le32 (le32 w) = w"
proof -
  have top: "unat w div 16777216 mod 256 = unat w div 16777216"
    using unsigned_less [of w, where 'a = nat] by (simp add: less_mult_imp_div_less)
  have "foldr (\<lambda>c n. of_char c + 256 * n) (le32 w) 0 = unat w"
    using base256 [of "unat w"] by (simp add: le32_def top)
  then show ?thesis by (simp only: from_le32_def of_nat_unat ucast_id)
qed

lemma read_u32_le32 [simp]: "read_u32 (le32 w @ s) = Inr (w, s)"
  by (simp add: read_u32_def)

lemma read_into_exact: "length target = length cs \<Longrightarrow> read_into (length cs) target (cs @ s) = (cs, s)"
  by (simp add: read_into_def)

lemma resize_length [simp]: "length (resize n cs) = n"
  by (simp add: resize_def)

lemma unat_of_nat_small [simp]: "n < 2 ^ 32 \<Longrightarrow> unat (of_nat n :: u32) = n"
  by (simp add: unat_of_nat take_bit_nat_eq_self_iff)

lemma u32_positive: "n < 2 ^ 32 \<Longrightarrow> 0 < (of_nat n :: u32) \<longleftrightarrow> 0 < n"
  by (simp add: word_less_nat_alt)

lemma parse_value_encode:
  assumes "resp_ok v"
  shows "parse_value (encode v) = Inr v"
  using parse_one [OF between_messages_new assms]
  by (auto simp: parse_value_def hasResult_def getResult_def)

lemma encode_positive: "length (encode v) > 0"
  using resp.enc_nonempty [of v] by simp

text \<open>One bucket written and read back into an empty bucket.\<close>

lemma read_write_node:
  assumes "i < length (buckets t)" "i < 2 ^ 32" "buckets t ! i = empty_Node" "status nd = OCCUPIED" "node_fits nd"
  shows "read_node t (write_node (of_nat i) nd @ s) = Inr (put t i nd, s)"
proof -
  from assms(4,5) obtain v where v: "hval nd = Some v" "resp_ok v" "length (encode v) < 2 ^ 32" "length (hkey nd) < 2 ^ 32"
    by (auto simp: node_fits_def node_value_def)
  have nd: "nd = \<lparr>hkey = hkey nd, hval = Some v, status = OCCUPIED\<rparr>" using v(1) assms(4) by (cases nd) simp
  show ?thesis
    using assms(1-3) v encode_positive [of v]
    by (subst nd) (simp add: read_node_def write_node_def node_value_def Let_def empty_Node_def read_into_exact
        parse_value_encode u32_positive)
qed

text \<open>The loop over the buckets, from bucket \<open>length pre\<close> on.\<close>

lemma read_write_nodes:
  assumes "length pre + length nds \<le> 2 ^ 32" "\<forall>nd\<in>set nds. node_fits nd"
  shows "read_nodes (length (filter (\<lambda>nd. status nd = OCCUPIED) nds))
      (t\<lparr>buckets := pre @ replicate (length nds) empty_Node\<rparr>) (write_nodes (length pre) nds) =
    Inr (t\<lparr>buckets := pre @ map purge_node nds\<rparr>)"
  using assms
proof (induction nds arbitrary: pre)
  case (Cons nd nds)
  have IH: "read_nodes (length (filter (\<lambda>nd. status nd = OCCUPIED) nds))
      (t\<lparr>buckets := pre @ x # replicate (length nds) empty_Node\<rparr>) (write_nodes (Suc (length pre)) nds) =
    Inr (t\<lparr>buckets := pre @ x # map purge_node nds\<rparr>)" for x
    using Cons.IH [of "pre @ [x]"] Cons.prems by simp
  show ?case
  proof (cases "status nd = OCCUPIED")
    case False
    then show ?thesis using IH [of empty_Node] by (cases "status nd") (simp_all add: purge_node_def)
  next
    case True
    let ?t = "t\<lparr>buckets := pre @ empty_Node # replicate (length nds) empty_Node\<rparr>"
    have "read_node ?t (write_node (of_nat (length pre)) nd @ s) = Inr (put ?t (length pre) nd, s)" for s
      using Cons.prems True by (intro read_write_node) auto
    moreover have "put ?t (length pre) nd = t\<lparr>buckets := pre @ nd # replicate (length nds) empty_Node\<rparr>"
      by (simp add: put_def)
    ultimately show ?thesis using IH [of nd] True by (simp add: purge_node_def)
  qed
qed simp

lemma read_snapshot:
  assumes "ht_ok t" "table_fits t"
  shows "ht_readfromfile (Some (snapshot_bytes t)) t0 = Inr (purge t)"
proof -
  have len: "length (buckets t) = bucketsz t" and cnt: "sz t = ht_count t" "ht_count t \<le> bucketsz t"
    using assms(1) length_filter_le [of _ "buckets t"] by (auto simp: ht_ok_def ht_core_def ht_count_def)
  let ?t = "t0\<lparr>bucketsz := bucketsz t, sz := sz t\<rparr>"
  have "read_nodes (sz t) (?t\<lparr>buckets := replicate (bucketsz t) empty_Node\<rparr>) (write_nodes 0 (buckets t)) =
      Inr (?t\<lparr>buckets := map purge_node (buckets t)\<rparr>)"
    using read_write_nodes [of "[]" "buckets t" ?t] assms(2) len cnt(1) by (simp add: table_fits_def ht_count_def)
  moreover have "?t\<lparr>buckets := map purge_node (buckets t)\<rparr> = purge t"
    by (simp add: purge_def)
  moreover have "sz t < 2 ^ 32" "bucketsz t < 2 ^ 32" using assms(2) cnt by (simp_all add: table_fits_def)
  ultimately show ?thesis
    by (cases t0) (simp add: ht_readfromfile_def snapshot_bytes_def)
qed

text \<open>Without tombstones the probe paths survive.\<close>

lemma purge_no_tombstone:
  assumes "ht_ok t" "no_tombstone t"
  shows "ht_ok (purge t)" "ht_map (purge t) = ht_map t" "no_tombstone (purge t)"
proof -
  have len: "length (buckets t) = bucketsz t" using assms(1) by (simp add: ht_ok_def ht_core_def)
  have st: "status (purge_node nd) = status nd" if "nd \<in> set (buckets t)" for nd
    using that assms(2) by (cases "status nd") (auto simp: purge_node_def no_tombstone_def empty_Node_def)
  have nth: "status (buckets (purge t) ! i) = status (buckets t ! i)" if "i < bucketsz t" for i
    using that len st by (simp add: purge_def)
  have occ: "buckets (purge t) ! i = buckets t ! i" if "i < bucketsz t" "status (buckets t ! i) = OCCUPIED" for i
    using that len by (simp add: purge_def purge_node_def)
  have sl: "slot (purge t) = slot t" "bucketsz (purge t) = bucketsz t" "sz (purge t) = sz t"
    by (simp_all add: slot_def purge_def fun_eq_iff)
  have hk: "holds_key (purge t) i k \<longleftrightarrow> holds_key t i k" if "i < bucketsz t" for i k
    using nth [OF that] occ [OF that] by (auto simp: holds_key_def)
  have pos: "bucketsz t > 0" using assms(1) by (simp add: ht_ok_def ht_core_def)
  have pt: "on_path (purge t) k i \<longleftrightarrow> on_path t k i" for k i
    using nth pos by (simp add: on_path_def sl)
  have core: "ht_core t" using assms(1) by (simp add: ht_ok_def)
  then have core': "ht_core (purge t)"
    using hk pt occ unfolding ht_core_def sl
    by (auto simp: purge_def holds_key_def)
  have "filter (\<lambda>nd. status nd = OCCUPIED) (map purge_node nds) = filter (\<lambda>nd. status nd = OCCUPIED) nds"
    for nds :: "'a HNode list"
    by (induction nds) (simp_all add: purge_node_def empty_Node_def)
  then show "ht_ok (purge t)"
    using core' assms(1) by (simp add: ht_ok_def ht_count_def over_load_def purge_def)
  show "ht_map (purge t) = ht_map t"
  proof (rule map_eqI)
    fix k v
    have "holds_key (purge t) i k \<and> hval (buckets (purge t) ! i) = Some v \<longleftrightarrow> holds_key t i k \<and> hval (buckets t ! i) = Some v"
      if "i < bucketsz t" for i
      using hk [OF that, of k] occ [OF that] by (metis holds_key_def)
    then show "ht_map (purge t) k = Some v \<longleftrightarrow> ht_map t k = Some v"
      using ht_map_Some_iff [OF core] ht_map_Some_iff [OF core'] sl(2) by metis
  qed
  show "no_tombstone (purge t)" using assms(2) st by (auto simp: no_tombstone_def purge_def)
qed

section \<open>Snapshots of the store\<close>

lemma shard_file_inject [simp]: "shard_file i = shard_file j \<longleftrightarrow> i = j"
  by (simp add: shard_file_def)

lemma foldE_pure: "foldE (\<lambda>s x. Inr (f s x)) s xs = Inr (foldl f s xs)"
  by (induction xs arbitrary: s) simp_all

lemma foldl_map_update:
  assumes "inj f"
  shows "foldl (\<lambda>d i. d(f i \<mapsto> g i)) d xs (f i) = (if i \<in> set xs then Some (g i) else d (f i))"
  using assms by (induction xs arbitrary: d) (auto simp: inj_eq)

lemma write_shards_all:
  "\<exists>dir. write_shards (\<lambda>_. True) s d = Inr dir \<and>
     (\<forall>i < shardCount s. dir (shard_file i) = Some (snapshot_bytes (data (shards s ! i))))"
proof -
  have "inj shard_file" by (simp add: inj_def)
  then show ?thesis
    using foldl_map_update [of shard_file "\<lambda>i. snapshot_bytes (data (shards s ! i))" d "[0..<shardCount s]"]
    by (simp add: write_shards_def ht_writetofile_def foldE_pure)
qed

lemma read_shards:
  assumes "\<And>i. i < n \<Longrightarrow> dir (shard_file i) = Some (c i) \<and> (\<forall>t0. ht_readfromfile (Some (c i)) t0 = Inr (d i))"
    and "n \<le> length (shards s)"
  shows "foldE (read_shard dir) s [0..<n] =
    Inr (s\<lparr>shards := map (\<lambda>i. \<lparr>data = d i, lru = lru_clear (lru (shards s ! i))\<rparr>) [0..<n] @ drop n (shards s)\<rparr>)"
  using assms
proof (induction n)
  case (Suc n)
  let ?f = "\<lambda>i. \<lparr>data = d i, lru = lru_clear (lru (shards s ! i))\<rparr>"
  let ?s = "s\<lparr>shards := map ?f [0..<n] @ drop n (shards s)\<rparr>"
  have nth: "shards ?s ! n = shards s ! n" using Suc.prems(2) by (simp add: nth_append)
  have "read_shard dir ?s n = Inr (put_shard ?s n (?f n))"
    using Suc.prems(1) [of n] nth by (simp add: read_shard_def)
  moreover have "put_shard ?s n (?f n) = s\<lparr>shards := map ?f [0..<Suc n] @ drop (Suc n) (shards s)\<rparr>"
    using Suc.prems(2) Cons_nth_drop_Suc [of n "shards s"]
    by (simp add: put_shard_def list_update_append flip: Cons_nth_drop_Suc)
  ultimately show ?case using Suc by (simp add: foldE_append)
qed simp

lemma snapshot_store:
  assumes "kv_ok s" "\<And>i. i < shardCount s \<Longrightarrow> no_tombstone (data (shards s ! i)) \<and> table_fits (data (shards s ! i))"
    and "kv_ok s0" "shardCount s0 = shardCount s"
  shows "\<exists>dir s'. write_shards (\<lambda>_. True) s Map.empty = Inr dir \<and> kv_readfromfile dir s0 = Inr s' \<and>
    kv_ok s' \<and> kv_map s' = kv_map s \<and> (\<forall>k. \<not> tracked s' k)"
proof -
  obtain dir where dir: "write_shards (\<lambda>_. True) s Map.empty = Inr dir"
      "\<And>i. i < shardCount s \<Longrightarrow> dir (shard_file i) = Some (snapshot_bytes (data (shards s ! i)))"
    using write_shards_all by blast
  let ?f = "\<lambda>i. \<lparr>data = purge (data (shards s ! i)), lru = lru_clear (lru (shards s0 ! i))\<rparr>"
  let ?s = "s0\<lparr>shards := map ?f [0..<shardCount s]\<rparr>"
  have len: "length (shards s0) = shardCount s" using assms(3,4) by (simp add: kv_ok_def)
  have sh: "shard_ok s i (shards s ! i)" if "i < shardCount s" for i using kv_ok_shard [OF assms(1) that] .
  have "foldE (read_shard dir) s0 [0..<shardCount s] =
      Inr (s0\<lparr>shards := map ?f [0..<shardCount s] @ drop (shardCount s) (shards s0)\<rparr>)"
    using dir(2) sh assms(2) len by (intro read_shards) (auto simp: shard_ok_def read_snapshot)
  then have r: "kv_readfromfile dir s0 = Inr ?s" using len by (simp add: kv_readfromfile_def assms(4))
  have so: "shard_of ?s k = shard_of s k" for k by (simp add: shard_of_def assms(4))
  have p: "ht_ok (purge (data (shards s ! i)))" "ht_map (purge (data (shards s ! i))) = ht_map (data (shards s ! i))"
    if "i < shardCount s" for i
    using purge_no_tombstone [of "data (shards s ! i)"] sh [OF that] assms(2) [OF that] by (auto simp: shard_ok_def)
  have "kv_ok ?s" using assms(1,4) sh p
    by (auto simp: kv_ok_def shard_ok_def so lru_clear_ok)
  moreover have "kv_map ?s = kv_map s" using p assms(1) by (simp add: kv_map_def so fun_eq_iff)
  moreover have "\<not> tracked ?s k" for k using assms(1) by (simp add: tracked_def so lru_clear_ok)
  ultimately show ?thesis using dir(1) r by blast
qed

section \<open>A probe path through a tombstone\<close>

text \<open>A table of sixteen buckets of which only the first two are in use.\<close>

definition two_used :: "RespValue HNode \<Rightarrow> RespValue HNode \<Rightarrow> nat \<Rightarrow> RespValue HashTable" where
  "two_used x y n = \<lparr>buckets = x # y # replicate 14 empty_Node, bucketsz = 16, sz = n\<rparr>"

lemma colliding_keys: "unat (gethash ''a'') mod 16 = 0" "unat (gethash ''q'') mod 16 = 0"
  by (simp_all add: gethash_def char_u32_def Let_def)

lemma find_loop_numeral:
  "find_loop t key (numeral n) idx first_del =
     (let nd = buckets t ! idx in
      if status nd = EMPTY then
        Inr (case first_del of None \<Rightarrow> idx | Some d \<Rightarrow> d)
      else if status nd = DELETED then
        find_loop t key (pred_numeral n) (Suc idx mod bucketsz t)
          (case first_del of None \<Rightarrow> Some idx | Some d \<Rightarrow> Some d)
      else if hkey nd = key then Inr idx
      else find_loop t key (pred_numeral n) (Suc idx mod bucketsz t) first_del)"
  by (simp add: numeral_eq_Suc)

lemma new_two_used: "new_HashTable = two_used empty_Node empty_Node 0"
  by (simp add: two_used_def new_HashTable_def numeral_eq_Suc)

lemmas two_used_simps = two_used_def ht_find_def colliding_keys find_loop_numeral put_def Let_def
  over_load_def new_Node_def empty_Node_def

lemma two_used_steps:
  "ht_set (two_used empty_Node empty_Node 0) ''a'' v = Inr (two_used (new_Node ''a'' v) empty_Node 1)"
  "ht_set (two_used (new_Node ''a'' v) empty_Node 1) ''q'' w = Inr (two_used (new_Node ''a'' v) (new_Node ''q'' w) 2)"
  "ht_erase (two_used (new_Node ''a'' v) (new_Node ''q'' w) 2) ''a'' =
     Inr (two_used \<lparr>hkey = ''a'', hval = Some v, status = DELETED\<rparr> (new_Node ''q'' w) 1, True)"
  "ht_get (two_used \<lparr>hkey = ''a'', hval = Some v, status = DELETED\<rparr> (new_Node ''q'' w) 1) ''q'' = Inr (Some w)"
  "ht_get (two_used empty_Node (new_Node ''q'' w) 1) ''q'' = Inr None"
  by (simp_all add: ht_set_def ht_erase_def ht_get_def two_used_simps)

lemma purge_two_used:
  "purge (two_used \<lparr>hkey = k, hval = v, status = DELETED\<rparr> (new_Node k' w) n) = two_used empty_Node (new_Node k' w) n"
  by (simp add: purge_def two_used_def purge_node_def new_Node_def empty_Node_def)

lemma tombstone_run:
  "run_ops ht_lookup ht_set ht_erase new_HashTable [Op_Set ''a'' v, Op_Set ''q'' w, Op_Del ''a''] =
     Inr (two_used \<lparr>hkey = ''a'', hval = Some v, status = DELETED\<rparr> (new_Node ''q'' w) 1, [Stored, Stored, Removed True])"
  by (simp add: new_two_used two_used_steps del: One_nat_def)

lemma new_table_fits: "table_fits new_HashTable"
  by (simp add: table_fits_def new_HashTable_def node_fits_def empty_Node_def)

section \<open>Properties\<close>

text \<open>Reading a snapshot file of a table gives back the occupied buckets of the table at their
  places, with every other bucket empty, whatever the table that reads it held before.  If the table
  had no tombstone, the result is a well-formed table that stands for the same map.\<close>

theorem snapshot_roundtrip:
  assumes "ht_ok t" "table_fits t"
  shows "ht_readfromfile (Some (snapshot_bytes t)) t0 = Inr (purge t) \<and>
    (no_tombstone t \<longrightarrow> ht_ok (purge t) \<and> ht_map (purge t) = ht_map t)"
  using read_snapshot [OF assms] purge_no_tombstone [OF assms(1)] by blast

theorem snapshot_roundtrip_witness:
  "ht_readfromfile (Some (snapshot_bytes new_HashTable)) new_HashTable = Inr (purge new_HashTable) \<and>
   ht_map (purge (new_HashTable :: RespValue HashTable)) = Map.empty"
  using snapshot_roundtrip [OF new_HashTable_ok(1) new_table_fits, of new_HashTable]
  by (simp add: new_HashTable_core(3))

text \<open>A snapshot of a table with tombstones loses keys: after storing two keys that collide and
  deleting the first, the second is found; after writing the table to a file and reading it back it
  is not, because its probe path now starts at an empty bucket.\<close>

theorem snapshot_loses_key:
  "\<exists>t t'. run_ops ht_lookup ht_set ht_erase new_HashTable
        [Op_Set ''a'' (SimpleString ''x''), Op_Set ''q'' (SimpleString ''y''), Op_Del ''a''] =
      Inr (t, [Stored, Stored, Removed True]) \<and>
    ht_get t ''q'' = Inr (Some (SimpleString ''y'')) \<and>
    ht_readfromfile (Some (snapshot_bytes t)) new_HashTable = Inr t' \<and>
    ht_get t' ''q'' = Inr None"
proof -
  let ?t = "two_used \<lparr>hkey = ''a'', hval = Some (SimpleString ''x''), status = DELETED\<rparr>
    (new_Node ''q'' (SimpleString ''y'')) 1"
  have "ht_ok ?t" using ht.run_ops_refines [OF ht.invar_new tombstone_run] by blast
  moreover have "table_fits ?t"
    by (simp add: table_fits_def two_used_def node_fits_def new_Node_def empty_Node_def node_value_def line_ok_def
        string_max_size_def crlf_def)
  ultimately have "ht_readfromfile (Some (snapshot_bytes ?t)) new_HashTable =
      Inr (two_used empty_Node (new_Node ''q'' (SimpleString ''y'')) 1)"
    using read_snapshot purge_two_used by metis
  then show ?thesis using tombstone_run two_used_steps(4,5) by blast
qed

text \<open>C26. Saving a store without tombstones and loading the files into a store with the same number
  of shards restores every key and value; the recency lists start empty, so no restored key is
  tracked until it is written again.\<close>

theorem store_snapshot_roundtrip:
  assumes "kv_ok s" "\<And>i. i < shardCount s \<Longrightarrow> no_tombstone (data (shards s ! i)) \<and> table_fits (data (shards s ! i))"
    and "kv_ok s0" "shardCount s0 = shardCount s"
  shows "\<exists>dir s'. kv_writetofile (\<lambda>_. True) s = Inr dir \<and> kv_writetofileFork (\<lambda>_. True) s = Inr dir \<and>
    kv_readfromfile dir s0 = Inr s' \<and> kv_ok s' \<and> kv_map s' = kv_map s \<and> (\<forall>k. \<not> tracked s' k)"
  using snapshot_store [OF assms] by (simp add: kv_writetofile_def kv_writetofileFork_def)

theorem store_snapshot_roundtrip_witness:
  "\<exists>dir s'. kv_writetofile (\<lambda>_. True) (new_KVStore SHARD_COUNT) = Inr dir \<and>
     kv_writetofileFork (\<lambda>_. True) (new_KVStore SHARD_COUNT) = Inr dir \<and>
     kv_readfromfile dir (new_KVStore SHARD_COUNT) = Inr s' \<and> kv_ok s' \<and>
     kv_map s' = kv_map (new_KVStore SHARD_COUNT) \<and> (\<forall>k. \<not> tracked s' k)"
  by (rule store_snapshot_roundtrip)
    (simp_all add: kv.invar_new, simp add: new_KVStore_def new_Shard_def new_table_fits new_HashTable_core(3))

end
