(* ===== verification/Std_Map.thy ===== *)
theory Std_Map
  imports KV_Prelude
begin

text \<open>
  \<open>std::map\<close> as the repository uses it: an association list in strictly ascending key order, so
  that iteration, \<open>begin()\<close> and \<open>lower_bound\<close> are the list operations they are in the source.
  \<open>map_of\<close> is the finite map the list stands for; a sorted list is determined by it.
\<close>

type_synonym ('k, 'v) smap = "('k \<times> 'v) list"

definition sorted_map :: "('k::linorder, 'v) smap \<Rightarrow> bool" where
  "sorted_map m \<longleftrightarrow> sorted_wrt (<) (map fst m)"

text \<open>\<open>m[k] = v\<close>\<close>

fun map_insert :: "'k::linorder \<Rightarrow> 'v \<Rightarrow> ('k, 'v) smap \<Rightarrow> ('k, 'v) smap" where
  "map_insert k v [] = [(k, v)]"
| "map_insert k v (e # m) =
     (if k < fst e then (k, v) # e # m
      else if k = fst e then (k, v) # m
      else e # map_insert k v m)"

text \<open>\<open>m.erase(k)\<close>\<close>

definition map_erase :: "'k \<Rightarrow> ('k, 'v) smap \<Rightarrow> ('k, 'v) smap" where
  "map_erase k m = filter (\<lambda>e. fst e \<noteq> k) m"

text \<open>\<open>m.lower_bound(k)\<close>: the iterator is the rest of the list, \<open>end()\<close> the empty list.\<close>

definition lower_bound :: "('k::linorder, 'v) smap \<Rightarrow> 'k \<Rightarrow> ('k, 'v) smap" where
  "lower_bound m k = dropWhile (\<lambda>e. fst e < k) m"

lemma sorted_map_Nil [simp]: "sorted_map []"
  by (simp add: sorted_map_def)

lemma sorted_map_Cons: "sorted_map (e # m) \<longleftrightarrow> (\<forall>x\<in>set m. fst e < fst x) \<and> sorted_map m"
  by (auto simp: sorted_map_def)

lemma fst_set_insert: "fst ` set (map_insert k v m) = insert k (fst ` set m)"
  by (induction m) auto

lemma sorted_map_insert [simp]: "sorted_map m \<Longrightarrow> sorted_map (map_insert k v m)"
proof (induction m)
  case (Cons e m)
  have "\<forall>x\<in>set (map_insert k v m). fst e < fst x" if "fst e < k"
  proof
    fix x assume "x \<in> set (map_insert k v m)"
    then have "fst x \<in> insert k (fst ` set m)" by (metis fst_set_insert image_eqI)
    with that Cons.prems show "fst e < fst x" by (auto simp: sorted_map_Cons)
  qed
  with Cons show ?case by (fastforce simp: sorted_map_Cons)
qed (simp add: sorted_map_def)

lemma sorted_map_erase [simp]: "sorted_map m \<Longrightarrow> sorted_map (map_erase k m)"
  by (induction m) (auto simp: map_erase_def sorted_map_Cons)

lemma sorted_map_distinct: "sorted_map m \<Longrightarrow> distinct (map fst m)"
  by (induction m) (auto simp: sorted_map_Cons)

lemma map_of_less: "(\<forall>x\<in>set m. k < fst x) \<Longrightarrow> map_of m k = None" for k :: "'k::linorder"
  by (induction m) auto

lemma map_of_insert [simp]: "sorted_map m \<Longrightarrow> map_of (map_insert k v m) = (map_of m)(k \<mapsto> v)"
  by (induction m) (auto simp: sorted_map_Cons fun_eq_iff)

lemma map_of_erase [simp]: "map_of (map_erase k m) = (map_of m)(k := None)"
  by (induction m) (auto simp: map_erase_def fun_eq_iff)

text \<open>A sorted list is determined by the map it stands for.\<close>

lemma sorted_map_unique:
  assumes "sorted_map m" "sorted_map m'" "map_of m = map_of m'"
  shows "m = m'"
  using assms
proof (induction m arbitrary: m')
  case Nil
  then show ?case by (metis map_of_eq_empty_iff map_of.simps(1))
next
  case (Cons e m)
  obtain k v where e: "e = (k, v)" by (cases e)
  have "map_of m' k = Some v" using Cons.prems(3) e by (metis fun_upd_same map_of_Cons_code(2) map_of.simps(2) fst_conv snd_conv)
  then obtain e' m1 where m': "m' = e' # m1" by (cases m') auto
  obtain k' v' where e': "e' = (k', v')" by (cases e')
  have 1: "map_of m k = None" "map_of m1 k' = None"
    using Cons.prems(1,2) e e' m' by (auto simp: sorted_map_Cons intro: map_of_less)
  have eq: "(if x = k then Some v else map_of m x) = (if x = k' then Some v' else map_of m1 x)" for x
    using fun_cong [OF Cons.prems(3), of x] e e' m' by simp
  have kk: "k = k'"
  proof (rule ccontr)
    assume ne: "k \<noteq> k'"
    from eq [of k] eq [of k'] ne have "map_of m1 k = Some v" "map_of m k' = Some v'" by auto
    then have "k' < k" "k < k'"
      using Cons.prems(1,2) e e' m' map_of_SomeD by (fastforce simp: sorted_map_Cons)+
    then show False by simp
  qed
  have "map_of m = map_of m1"
  proof
    fix x show "map_of m x = map_of m1 x" using eq [of x] 1 kk by (cases "x = k") auto
  qed
  moreover have "v = v'" using eq [of k] kk by simp
  ultimately show ?case using Cons e e' m' kk by (simp add: sorted_map_Cons)
qed

text \<open>\<open>lower_bound\<close> finds the least key that is not below the bound.\<close>

lemma lower_bound_Cons:
  assumes "lower_bound m k = e # r"
  shows "e \<in> set m" "\<not> fst e < k" "\<And>x. sorted_map m \<Longrightarrow> x \<in> set m \<Longrightarrow> \<not> fst x < k \<Longrightarrow> fst e \<le> fst x"
  using assms by (induction m) (auto simp: lower_bound_def sorted_map_Cons split: if_splits)

lemma lower_bound_Nil_iff: "lower_bound m k = [] \<longleftrightarrow> (\<forall>x\<in>set m. fst x < k)"
  by (simp add: lower_bound_def)

lemma map_of_insert_same [simp]: "map_of (map_insert k v m) k = Some v"
  by (induction m) auto

lemma map_insert_twice [simp]: "map_insert k w (map_insert k v m) = map_insert k w m"
  by (induction m) auto

lemma map_insert_idem: "sorted_map m \<Longrightarrow> map_of m k = Some v \<Longrightarrow> map_insert k v m = m"
  by (rule sorted_map_unique) auto

end
