(* ===== verification/Hash_Ring.thy ===== *)
theory Hash_Ring
  imports Std_Map
begin

text \<open>
  Consistent hashing, the \<open>node_hash\<close> part of \<open>util/Cluster.cpp\<close>.  The ring is a \<open>std::map\<close>
  from positions to node identities; a node occupies the 160 positions obtained by applying the
  64-bit mixing function to its identity again and again.  A key belongs to the node at the first
  position at or after its own hash, wrapping around.

  The locale \<open>virtual_ring\<close> is the interface between the ring and the hash: each node has a list
  of positions and the positions of two nodes that do not clash are disjoint.  Its lemmas are about
  any such assignment; the interpretation discharges the law from the bijectivity of the hash.
\<close>

unbundle bit_operations_syntax

section \<open>Hash functions\<close>

definition hash_u64 :: "u64 \<Rightarrow> u64" where
  "hash_u64 x =
     (let x = x XOR drop_bit 30 x; x = x * 0xbf58476d1ce4e5b9;
          x = x XOR drop_bit 27 x; x = x * 0x94d049bb133111eb
      in x XOR drop_bit 31 x)"

definition hash_string :: "string \<Rightarrow> u64" where
  "hash_string str = fold (\<lambda>c h. (h XOR of_char c) * 0x100000001b3) str 0xcbf29ce484222325"

section \<open>The ring\<close>

type_synonym ring = "(u64, u64) smap"

definition VIRTUAL_REPLICAS :: nat where
  "VIRTUAL_REPLICAS = 160"

fun add_points :: "nat \<Rightarrow> u64 \<Rightarrow> u64 \<Rightarrow> ring \<Rightarrow> ring" where
  "add_points 0 hsh node_id m = m"
| "add_points (Suc n) hsh node_id m = (let hsh = hash_u64 hsh in add_points n hsh node_id (map_insert hsh node_id m))"

fun del_points :: "nat \<Rightarrow> u64 \<Rightarrow> ring \<Rightarrow> ring" where
  "del_points 0 hsh m = m"
| "del_points (Suc n) hsh m = (let hsh = hash_u64 hsh in del_points n hsh (map_erase hsh m))"

definition ring_addNode :: "u64 \<Rightarrow> ring \<Rightarrow> ring" where
  "ring_addNode node_id m = add_points VIRTUAL_REPLICAS node_id node_id m"

definition ring_delNode :: "u64 \<Rightarrow> ring \<Rightarrow> ring" where
  "ring_delNode node_id m = del_points VIRTUAL_REPLICAS node_id m"

text \<open>On an empty ring \<open>begin()\<close> is \<open>end()\<close> and must not be dereferenced.\<close>

definition ring_query :: "('p::linorder, 'n) smap \<Rightarrow> 'p \<Rightarrow> 'n res" where
  "ring_query m h = (case lower_bound m h of
     [] \<Rightarrow> (case m of [] \<Rightarrow> Inl (UB End_Deref) | e # _ \<Rightarrow> Inr (snd e))
   | e # _ \<Rightarrow> Inr (snd e))"

text \<open>
  The loop of \<open>queryReplicas\<close>; the iterator is an index into the map.  \<open>seen\<close> and \<open>result\<close> hold
  the same identities; both are kept, as in the source.  The loop may run forever.
\<close>

partial_function (option) replicas_loop :: "ring \<Rightarrow> nat \<Rightarrow> nat \<Rightarrow> u64 list \<Rightarrow> u64 list \<Rightarrow> u64 list option" where
  "replicas_loop m N i result seen =
     (if length result < N \<and> m \<noteq> [] then
        let owner = snd (m ! i);
            new = (owner \<notin> set seen);
            seen = (if new then seen @ [owner] else seen);
            result = (if new then result @ [owner] else result);
            i = (if Suc i = length m then 0 else Suc i)
        in if length seen \<ge> length m then Some result else replicas_loop m N i result seen
      else Some result)"

definition ring_start :: "ring \<Rightarrow> u64 \<Rightarrow> nat" where
  "ring_start m h = (let i = length m - length (lower_bound m h) in if i = length m then 0 else i)"

definition ring_replicas :: "ring \<Rightarrow> u64 \<Rightarrow> u64 \<Rightarrow> int \<Rightarrow> u64 list option" where
  "ring_replicas m self h N =
     (if m = [] then Some [self]
      else replicas_loop m (unat (of_int N :: u64)) (ring_start m h) [] [])"

section \<open>The hash is a bijection\<close>

lemma xorshift_inject:
  fixes x y :: u64
  assumes "k > 0" "x XOR drop_bit k x = y XOR drop_bit k y"
  shows "x = y"
proof (rule bit_word_eqI)
  fix n
  show "bit x n = bit y n" if "n < LENGTH(64)"
  proof (induction "64 - n" arbitrary: n rule: less_induct)
    case less
    have bits: "bit (x XOR drop_bit k x) n = bit (y XOR drop_bit k y) n" using assms(2) by simp
    have "bit x (k + n) = bit y (k + n)"
    proof (cases "k + n < 64")
      case True
      then show ?thesis using less [of "k + n"] assms(1) by linarith
    next
      case False
      then show ?thesis by (simp add: bit_word.rep_eq)
    qed
    with bits show ?case by (auto simp: bit_xor_iff bit_drop_bit_eq ac_simps)
  qed
qed

lemma mult_inject:
  fixes a b c d :: u64
  assumes "d * c = 1" "a * c = b * c"
  shows "a = b"
proof -
  have "a * (c * d) = b * (c * d)" using assms(2) by (simp flip: mult.assoc)
  with assms(1) show ?thesis by (simp add: mult.commute [of c d])
qed

lemma hash_u64_inject: "hash_u64 x = hash_u64 y \<Longrightarrow> x = y"
proof -
  assume "hash_u64 x = hash_u64 y"
  let ?a = "\<lambda>x::u64. x XOR drop_bit 30 x" and ?b = "\<lambda>x::u64. x XOR drop_bit 27 x"
  let ?c = "0xbf58476d1ce4e5b9 :: u64" and ?d = "0x94d049bb133111eb :: u64"
  from \<open>hash_u64 x = hash_u64 y\<close> have "?b (?a x * ?c) * ?d = ?b (?a y * ?c) * ?d"
    unfolding hash_u64_def Let_def by (rule xorshift_inject [rotated]) simp
  then have "?b (?a x * ?c) = ?b (?a y * ?c)"
    by (rule mult_inject [rotated, where d = 3573116690164977347]) simp
  then have "?a x * ?c = ?a y * ?c" by (rule xorshift_inject [rotated]) simp
  then have "?a x = ?a y" by (rule mult_inject [rotated, where d = 10871156337175269513]) simp
  then show "x = y" by (rule xorshift_inject [rotated]) simp
qed

section \<open>Lookup on a ring\<close>

text \<open>The positions in the order a lookup from \<open>h\<close> meets them.\<close>

definition walk :: "('p::linorder, 'n) smap \<Rightarrow> 'p \<Rightarrow> ('p \<times> 'n) list" where
  "walk m h = filter (\<lambda>e. \<not> fst e < h) m @ m"

lemma lower_bound_filter: "sorted_map m \<Longrightarrow> lower_bound m h = filter (\<lambda>e. \<not> fst e < h) m"
proof (induction m)
  case (Cons e m)
  have "filter (\<lambda>e. \<not> fst e < h) m = m" if "\<not> fst e < h"
    using that Cons.prems by (auto simp: sorted_map_Cons filter_id_conv)
  with Cons show ?case by (auto simp: lower_bound_def sorted_map_Cons)
qed (simp add: lower_bound_def)

lemma ring_query_walk:
  "sorted_map m \<Longrightarrow> ring_query m h = (case walk m h of [] \<Rightarrow> Inl (UB End_Deref) | e # _ \<Rightarrow> Inr (snd e))"
  by (simp add: ring_query_def lower_bound_filter walk_def split: list.split)

lemma walk_Nil [simp]: "walk m h = [] \<longleftrightarrow> m = []"
  by (auto simp: walk_def)

lemma walk_filter: "walk (filter P m) h = filter P (walk m h)"
  by (simp add: walk_def conj_commute)

lemma map_fst_walk: "map fst (walk m h) = filter (\<lambda>p. \<not> p < h) (map fst m) @ map fst m"
  by (simp add: walk_def filter_map o_def)

lemma hd_filter: "xs \<noteq> [] \<Longrightarrow> P (hd xs) \<Longrightarrow> filter P xs \<noteq> [] \<and> hd (filter P xs) = hd xs"
  by (cases xs) auto

lemma ring_query_hd: "sorted_map m \<Longrightarrow> m \<noteq> [] \<Longrightarrow> ring_query m h = Inr (snd (hd (walk m h)))"
  using walk_Nil [of m h] by (simp add: ring_query_walk split: list.split)

lemma ring_query_member: "sorted_map m \<Longrightarrow> ring_query m h = Inr n \<Longrightarrow> \<exists>p. (p, n) \<in> set m"
proof -
  assume m: "sorted_map m" "ring_query m h = Inr n"
  then have "m \<noteq> []" by (auto simp: ring_query_def lower_bound_def)
  with m have "hd (walk m h) \<in> set (walk m h)" "snd (hd (walk m h)) = n" by (auto simp: ring_query_hd intro: hd_in_set)
  then show ?thesis by (metis UnE filter_is_subset prod.collapse set_append subsetD walk_def)
qed

text \<open>Positions that are not the answer can be taken away.\<close>

lemma ring_query_filter:
  assumes "sorted_map m" "ring_query m h = Inr n" "\<And>e. e \<in> set m \<Longrightarrow> snd e = n \<Longrightarrow> P e"
  shows "ring_query (filter P m) h = Inr n"
proof -
  have m: "m \<noteq> []" using assms(2) by (auto simp: ring_query_def lower_bound_def)
  then have h: "snd (hd (walk m h)) = n" "hd (walk m h) \<in> set m"
    using assms(1,2) hd_in_set [of "walk m h"] by (auto simp: ring_query_hd walk_def split: if_splits)
  then have w: "filter P (walk m h) \<noteq> [] \<and> hd (filter P (walk m h)) = hd (walk m h)"
    using assms(3) m by (intro hd_filter) auto
  have "sorted_map (filter P m)" using assms(1) by (induction m) (auto simp: sorted_map_Cons)
  moreover have "filter P m \<noteq> []" using w by (metis walk_Nil walk_filter)
  ultimately show ?thesis using w h(1) by (simp add: ring_query_hd walk_filter)
qed

lemma filter_insert: "filter (\<lambda>e. fst e \<noteq> p) (map_insert p n m) = filter (\<lambda>e. fst e \<noteq> p) m"
  by (induction m) auto

lemma map_fst_insert_present: "sorted_map m \<Longrightarrow> p \<in> fst ` set m \<Longrightarrow> map fst (map_insert p n m) = map fst m"
  by (induction m) (auto simp: sorted_map_Cons)

lemma insert_not_Nil [simp]: "map_insert p n m \<noteq> []"
  by (cases m) auto

text \<open>A new position takes over keys for its node, and changes nothing else.\<close>

lemma ring_query_insert:
  assumes "sorted_map m" "m \<noteq> []"
  shows "ring_query (map_insert p n m) h = Inr n \<or> ring_query (map_insert p n m) h = ring_query m h"
proof -
  let ?m = "map_insert p n m" and ?P = "\<lambda>e. fst e \<noteq> p"
  have s: "sorted_map ?m" using assms(1) by simp
  have hs: "hd (walk ?m h) \<in> set ?m"
    using hd_in_set [of "walk ?m h"] by (auto simp: walk_def split: if_splits)
  show ?thesis
  proof (cases "fst (hd (walk ?m h)) = p")
    case True
    then have "map_of ?m p = Some (snd (hd (walk ?m h)))"
      using hs sorted_map_distinct [OF s] by (metis map_of_is_SomeI prod.collapse)
    then show ?thesis using assms(1) s by (simp add: ring_query_hd)
  next
    case False
    have "fst (hd (walk m h)) \<noteq> p"
    proof
      assume "fst (hd (walk m h)) = p"
      moreover have "hd (walk m h) \<in> set m"
        using hd_in_set [of "walk m h"] assms(2) by (auto simp: walk_def split: if_splits)
      ultimately have "map fst ?m = map fst m" using assms(1) by (intro map_fst_insert_present) auto
      then have "map fst (walk ?m h) = map fst (walk m h)" by (simp add: map_fst_walk)
      then have "fst (hd (walk ?m h)) = fst (hd (walk m h))" by (metis assms(2) hd_map insert_not_Nil walk_Nil)
      with False \<open>fst (hd (walk m h)) = p\<close> show False by simp
    qed
    then have "hd (walk ?m h) = hd (walk m h)"
      using False assms(2) hd_filter [of "walk m h" ?P] hd_filter [of "walk ?m h" ?P]
      by (simp flip: walk_filter add: filter_insert)
    then show ?thesis using assms s by (simp add: ring_query_hd)
  qed
qed

section \<open>Membership changes\<close>

definition put_points :: "'p::linorder list \<Rightarrow> 'n \<Rightarrow> ('p, 'n) smap \<Rightarrow> ('p, 'n) smap" where
  "put_points ps n m = fold (\<lambda>p m. map_insert p n m) ps m"

definition cut_points :: "'p list \<Rightarrow> ('p, 'n) smap \<Rightarrow> ('p, 'n) smap" where
  "cut_points ps m = fold map_erase ps m"

datatype 'n member_event = Join 'n | Leave 'n

fun members :: "'n set \<Rightarrow> 'n member_event list \<Rightarrow> 'n set" where
  "members S [] = S"
| "members S (Join n # es) = members (insert n S) es"
| "members S (Leave n # es) = members (S - {n}) es"

fun ring_events :: "('n \<Rightarrow> 'p::linorder list) \<Rightarrow> ('p, 'n) smap \<Rightarrow> 'n member_event list \<Rightarrow> ('p, 'n) smap" where
  "ring_events points m [] = m"
| "ring_events points m (Join n # es) = ring_events points (put_points (points n) n m) es"
| "ring_events points m (Leave n # es) = ring_events points (cut_points (points n) m) es"

fun event_node :: "'n member_event \<Rightarrow> 'n" where
  "event_node (Join n) = n"
| "event_node (Leave n) = n"

lemma members_subset: "members S es \<subseteq> S \<union> event_node ` set es"
  by (induction S es rule: members.induct) auto

lemma put_points_sorted [simp]: "sorted_map m \<Longrightarrow> sorted_map (put_points ps n m)"
  unfolding put_points_def by (induction ps arbitrary: m) auto

lemma map_of_put_points:
  "sorted_map m \<Longrightarrow> map_of (put_points ps n m) p = (if p \<in> set ps then Some n else map_of m p)"
  unfolding put_points_def by (induction ps arbitrary: m) auto

lemma cut_points_filter: "cut_points ps m = filter (\<lambda>e. fst e \<notin> set ps) m"
  unfolding cut_points_def
  by (induction ps arbitrary: m) (auto simp: map_erase_def intro!: filter_cong)

lemma cut_points_sorted [simp]: "sorted_map m \<Longrightarrow> sorted_map (cut_points ps m)"
  unfolding cut_points_def by (induction ps arbitrary: m) auto

lemma map_of_cut_points: "map_of (cut_points ps m) p = (if p \<in> set ps then None else map_of m p)"
  unfolding cut_points_def by (induction ps arbitrary: m) auto

lemma put_points_not_Nil: "m \<noteq> [] \<Longrightarrow> put_points ps n m \<noteq> []"
  unfolding put_points_def by (induction ps arbitrary: m) auto

lemma ring_query_put_points:
  assumes "sorted_map m" "m \<noteq> []"
  shows "ring_query (put_points ps n m) h = Inr n \<or> ring_query (put_points ps n m) h = ring_query m h"
  using assms unfolding put_points_def
proof (induction ps arbitrary: m)
  case (Cons p ps)
  from Cons.IH [of "map_insert p n m"] ring_query_insert [OF Cons.prems, of p n h] Cons.prems show ?case by auto
qed simp

text \<open>
  \<open>ring_of points S m\<close>: the ring holds exactly the positions of the nodes of \<open>S\<close>.
\<close>

definition ring_of :: "('n \<Rightarrow> 'p::linorder list) \<Rightarrow> 'n set \<Rightarrow> ('p, 'n) smap \<Rightarrow> bool" where
  "ring_of points S m \<longleftrightarrow> sorted_map m \<and> (\<forall>p n. map_of m p = Some n \<longleftrightarrow> n \<in> S \<and> p \<in> set (points n))"

locale virtual_ring =
  fixes points :: "'n \<Rightarrow> 'p::linorder list"
    and clash :: "'n \<Rightarrow> 'n \<Rightarrow> bool"
  assumes points_nonempty: "points a \<noteq> []"
    and points_disjoint: "a \<noteq> b \<Longrightarrow> \<not> clash a b \<Longrightarrow> set (points a) \<inter> set (points b) = {}"
begin

lemma ring_of_unique: "ring_of points S m \<Longrightarrow> ring_of points S m' \<Longrightarrow> m = m'"
  by (intro sorted_map_unique map_eqI) (auto simp: ring_of_def)

lemma ring_of_join:
  assumes "ring_of points S m" "\<And>a. a \<in> S \<Longrightarrow> a \<noteq> n \<Longrightarrow> \<not> clash a n"
  shows "ring_of points (insert n S) (put_points (points n) n m)"
proof -
  have "a = n" if "a \<in> S" "p \<in> set (points a)" "p \<in> set (points n)" for a p
    using points_disjoint [of a n] assms(2) [of a] that by blast
  with assms(1) show ?thesis by (auto simp: ring_of_def map_of_put_points)
qed

lemma ring_of_leave:
  assumes "ring_of points S m" "\<And>a. a \<in> S \<Longrightarrow> a \<noteq> n \<Longrightarrow> \<not> clash a n"
  shows "ring_of points (S - {n}) (cut_points (points n) m)"
proof -
  have "a = n" if "a \<in> S" "p \<in> set (points a)" "p \<in> set (points n)" for a p
    using points_disjoint [of a n] assms(2) [of a] that by blast
  with assms(1) show ?thesis by (auto simp: ring_of_def map_of_cut_points)
qed

lemma ring_of_events:
  assumes "ring_of points S m" "S \<subseteq> U" "event_node ` set es \<subseteq> U"
    and "\<And>a b. a \<in> U \<Longrightarrow> b \<in> U \<Longrightarrow> a \<noteq> b \<Longrightarrow> \<not> clash a b"
  shows "ring_of points (members S es) (ring_events points m es)"
  using assms(1-3)
proof (induction es arbitrary: S m)
  case (Cons e es)
  then show ?case
  proof (cases e)
    case (Join n)
    have "ring_of points (insert n S) (put_points (points n) n m)"
      using Cons.prems Join assms(4) by (intro ring_of_join) auto
    then show ?thesis using Cons Join by auto
  next
    case (Leave n)
    have "ring_of points (S - {n}) (cut_points (points n) m)"
      using Cons.prems Leave assms(4) by (intro ring_of_leave) auto
    then show ?thesis using Cons Leave by auto
  qed
qed simp

text \<open>The history does not matter, only who is a member at the end.\<close>

lemma events_confluent:
  assumes "event_node ` set es \<subseteq> U" "event_node ` set es' \<subseteq> U"
    and "\<And>a b. a \<in> U \<Longrightarrow> b \<in> U \<Longrightarrow> a \<noteq> b \<Longrightarrow> \<not> clash a b"
    and "members {} es = members {} es'"
  shows "ring_events points [] es = ring_events points [] es'"
proof (rule ring_of_unique)
  have "ring_of points {} []" by (simp add: ring_of_def)
  then show "ring_of points (members {} es) (ring_events points [] es)"
    and "ring_of points (members {} es) (ring_events points [] es')"
    using ring_of_events [of "{}" "[]" U es] ring_of_events [of "{}" "[]" U es'] assms by auto
qed

text \<open>A key whose owner leaves the ring is the only kind of key that moves.\<close>

lemma leave_keeps_owners:
  assumes "ring_of points S m" "\<And>a. a \<in> S \<Longrightarrow> a \<noteq> n \<Longrightarrow> \<not> clash a n" "ring_query m h = Inr a" "a \<noteq> n"
  shows "ring_query (cut_points (points n) m) h = Inr a"
  unfolding cut_points_filter
proof (rule ring_query_filter [OF _ assms(3)])
  show s: "sorted_map m" using assms(1) by (simp add: ring_of_def)
  fix e assume e: "e \<in> set m" "snd e = a"
  then have "map_of m (fst e) = Some a" using sorted_map_distinct [OF s] by (metis map_of_is_SomeI prod.collapse)
  then have "a \<in> S" "fst e \<in> set (points a)" using assms(1) by (auto simp: ring_of_def)
  then show "fst e \<notin> set (points n)" using points_disjoint [of a n] assms(2) [of a] assms(4) by blast
qed

lemma ring_of_nonempty:
  assumes "ring_of points S m" "n \<in> S"
  shows "m \<noteq> []"
proof -
  obtain p where "p \<in> set (points n)" using points_nonempty [of n] by (cases "points n") auto
  with assms have "map_of m p = Some n" by (simp add: ring_of_def)
  then show ?thesis by auto
qed

lemma owner_is_member:
  assumes "ring_of points S m" "ring_query m h = Inr n"
  shows "n \<in> S"
proof -
  obtain p where "(p, n) \<in> set m" using ring_query_member [of m h n] assms by (auto simp: ring_of_def)
  then have "map_of m p = Some n" using assms(1) by (simp add: ring_of_def sorted_map_distinct)
  then show ?thesis using assms(1) by (auto simp: ring_of_def)
qed

end

section \<open>The positions of a node\<close>

fun hash_chain :: "nat \<Rightarrow> u64 \<Rightarrow> u64 list" where
  "hash_chain 0 x = []"
| "hash_chain (Suc n) x = hash_u64 x # hash_chain n (hash_u64 x)"

definition vpoints :: "u64 \<Rightarrow> u64 list" where
  "vpoints node_id = hash_chain VIRTUAL_REPLICAS node_id"

text \<open>One identity is reached from the other by fewer than 160 applications of the hash.\<close>

definition chained :: "u64 \<Rightarrow> u64 \<Rightarrow> bool" where
  "chained a b \<longleftrightarrow> (\<exists>i < VIRTUAL_REPLICAS. (hash_u64 ^^ i) a = b \<or> (hash_u64 ^^ i) b = a)"

lemma hash_chain_set: "p \<in> set (hash_chain n x) \<longleftrightarrow> (\<exists>i < n. p = (hash_u64 ^^ Suc i) x)"
proof (induction n arbitrary: x)
  case (Suc n)
  have "(\<exists>i < Suc n. p = (hash_u64 ^^ Suc i) x) \<longleftrightarrow> p = hash_u64 x \<or> (\<exists>i < n. p = (hash_u64 ^^ Suc i) (hash_u64 x))"
    by (simp add: Ex_less_Suc2 funpow_swap1)
  with Suc show ?case by simp
qed simp

lemma hash_pow_inject: "(hash_u64 ^^ n) x = (hash_u64 ^^ n) y \<Longrightarrow> x = y"
  by (induction n) (auto dest: hash_u64_inject)

lemma add_points_eq: "add_points n h node m = put_points (hash_chain n h) node m"
  by (induction n arbitrary: h m) (simp_all add: put_points_def Let_def)

lemma del_points_eq: "del_points n h m = cut_points (hash_chain n h) m"
  by (induction n arbitrary: h m) (simp_all add: cut_points_def Let_def)

lemma ring_node_eq:
  "ring_addNode n m = put_points (vpoints n) n m" "ring_delNode n m = cut_points (vpoints n) m"
  by (simp_all add: ring_addNode_def ring_delNode_def vpoints_def add_points_eq del_points_eq)

lemma shared_point_chained:
  assumes "p \<in> set (vpoints a)" "p \<in> set (vpoints b)"
  shows "chained a b"
proof -
  obtain i j where ij: "i < VIRTUAL_REPLICAS" "j < VIRTUAL_REPLICAS"
      "(hash_u64 ^^ Suc i) a = (hash_u64 ^^ Suc j) b"
    using assms by (auto simp: vpoints_def hash_chain_set simp del: funpow.simps)
  have less: "(hash_u64 ^^ (l - k)) y = x" if "k \<le> l" "(hash_u64 ^^ Suc k) x = (hash_u64 ^^ Suc l) y" for k l x y
  proof -
    have "Suc l = Suc k + (l - k)" using that(1) by simp
    then have "(hash_u64 ^^ Suc l) y = (hash_u64 ^^ Suc k) ((hash_u64 ^^ (l - k)) y)"
      by (metis comp_apply funpow_add)
    with that(2) show ?thesis using hash_pow_inject by metis
  qed
  show ?thesis
  proof (cases "i \<le> j")
    case True
    with less [OF True ij(3)] ij(2) show ?thesis by (auto simp: chained_def intro!: exI [of _ "j - i"])
  next
    case False
    with less [of j i b a] ij show ?thesis by (auto simp: chained_def intro!: exI [of _ "i - j"])
  qed
qed

interpretation vring: virtual_ring vpoints chained
proof unfold_locales
  show "vpoints a \<noteq> []" for a by (simp add: vpoints_def VIRTUAL_REPLICAS_def numeral_eq_Suc)
  show "set (vpoints a) \<inter> set (vpoints b) = {}" if "a \<noteq> b" "\<not> chained a b" for a b
    using that shared_point_chained by blast
qed

section \<open>Replica sets\<close>

text \<open>The distinct elements of a list in the order of their first occurrence.\<close>

definition note_new :: "'a list \<Rightarrow> 'a \<Rightarrow> 'a list" where
  "note_new r x = (if x \<in> set r then r else r @ [x])"

definition firsts :: "'a list \<Rightarrow> 'a list" where
  "firsts xs = foldl note_new [] xs"

lemma firsts_Nil [simp]: "firsts [] = []"
  by (simp add: firsts_def)

lemma firsts_snoc: "firsts (xs @ [x]) = note_new (firsts xs) x"
  by (simp add: firsts_def)

lemma firsts_set [simp]: "set (firsts xs) = set xs"
  by (induction xs rule: rev_induct) (auto simp: firsts_snoc note_new_def)

lemma firsts_distinct [simp]: "distinct (firsts xs)"
  by (induction xs rule: rev_induct) (auto simp: firsts_snoc note_new_def)

lemma firsts_length: "length (firsts xs) = card (set xs)"
  by (metis distinct_card firsts_distinct firsts_set)

lemma firsts_append_prefix: "\<exists>zs. firsts (xs @ ys) = firsts xs @ zs"
proof (induction ys rule: rev_induct)
  case (snoc y ys)
  then obtain zs where "firsts (xs @ ys) = firsts xs @ zs" by blast
  moreover have "firsts (xs @ ys @ [y]) = note_new (firsts (xs @ ys)) y" by (metis append_assoc firsts_snoc)
  ultimately show ?case by (simp add: note_new_def)
qed simp

lemma firsts_take: "\<exists>zs. firsts xs = firsts (take k xs) @ zs"
  using firsts_append_prefix [of "take k xs" "drop k xs"] by simp

text \<open>The owners in the order the loop meets them, from position \<open>j\<close> on.\<close>

definition owners_from :: "ring \<Rightarrow> nat \<Rightarrow> u64 list" where
  "owners_from m j = map snd (rotate j m)"

lemma owners_from_simps [simp]:
  "length (owners_from m j) = length m" "set (owners_from m j) = snd ` set m"
  "k < length m \<Longrightarrow> owners_from m j ! k = snd (m ! ((j + k) mod length m))"
  by (simp_all add: owners_from_def nth_rotate)

lemma step_index:
  "j < n \<Longrightarrow> (if Suc ((j + k) mod n) = n then 0 else Suc ((j + k) mod n)) = (j + Suc k) mod n" for n :: nat
  by (simp add: mod_Suc)

lemma replicas_loop_step:
  "length r < N \<Longrightarrow> m \<noteq> [] \<Longrightarrow> replicas_loop m N i r r =
     (let r' = note_new r (snd (m ! i)) in
      if length r' \<ge> length m then Some r'
      else replicas_loop m N (if Suc i = length m then 0 else Suc i) r' r')"
  by (subst replicas_loop.simps) (simp add: note_new_def Let_def)

lemma replicas_loop_state:
  assumes "j < length m" "k \<le> length m" "length (firsts (take k (owners_from m j))) \<le> N"
    and "N \<le> card (snd ` set m) \<or> card (snd ` set m) = length m"
    and "length (firsts (take k (owners_from m j))) < length m"
  shows "replicas_loop m N ((j + k) mod length m) (firsts (take k (owners_from m j))) (firsts (take k (owners_from m j))) =
    Some (take N (firsts (owners_from m j)))"
  using assms
proof (induction "length m - k" arbitrary: k)
  case 0
  then have "k = length m" by simp
  then have "length (firsts (take k (owners_from m j))) = card (snd ` set m)" by (simp add: firsts_length)
  with 0 \<open>k = length m\<close> show ?case by (auto simp: replicas_loop.simps)
next
  case (Suc d)
  let ?xs = "owners_from m j" and ?F = "\<lambda>k. firsts (take k (owners_from m j))"
  obtain zs where zs: "firsts ?xs = ?F k @ zs" using firsts_take by blast
  obtain ys where ys: "firsts ?xs = ?F (Suc k) @ ys" using firsts_take by blast
  show ?case
  proof (cases "length (?F k) < N")
    case False
    with Suc.prems(3) zs show ?thesis by (subst replicas_loop.simps) simp
  next
    case True
    have k: "k < length m" using Suc.hyps(2) by simp
    then have F: "?F (Suc k) = note_new (?F k) (snd (m ! ((j + k) mod length m)))"
      by (simp add: take_Suc_conv_app_nth firsts_snoc)
    have len: "length (?F (Suc k)) \<le> N" using True F by (simp add: note_new_def)
    show ?thesis
    proof (cases "length (?F (Suc k)) \<ge> length m")
      case full: True
      have "length (firsts ?xs) \<le> length m" by (simp add: firsts_length card_length [of "map snd m", simplified])
      moreover have "length (firsts ?xs) = length (?F (Suc k)) + length ys" by (simp add: ys)
      ultimately have "length ys = 0" using full by linarith
      with ys have "firsts ?xs = ?F (Suc k)" by simp
      then have "Some (?F (Suc k)) = Some (take N (firsts ?xs))" using len by simp
      moreover have "m \<noteq> []" using k by auto
      ultimately show ?thesis
        unfolding replicas_loop_step [OF True \<open>m \<noteq> []\<close>] F [symmetric] Let_def using full by simp
    next
      case False
      with Suc.hyps(1) [of "Suc k"] Suc.hyps(2) Suc.prems len have
        "replicas_loop m N ((j + Suc k) mod length m) (?F (Suc k)) (?F (Suc k)) = Some (take N (firsts ?xs))"
        by linarith
      moreover have "m \<noteq> []" using k by auto
      ultimately show ?thesis
        unfolding replicas_loop_step [OF True \<open>m \<noteq> []\<close>] F [symmetric] Let_def step_index [OF Suc.prems(1), of k]
        using False by simp
    qed
  qed
qed

lemma replicas_loop_returns:
  assumes "replicas_loop m N i result seen = Some y"
  shows "\<not> (card (snd ` set m) < N \<and> card (snd ` set m) < length m \<and> i < length m \<and>
      seen = result \<and> distinct result \<and> set result \<subseteq> snd ` set m)"
proof (rule replicas_loop.raw_induct [where P = "\<lambda>m N i result seen y.
    \<not> (card (snd ` set m) < N \<and> card (snd ` set m) < length m \<and> i < length m \<and>
      seen = result \<and> distinct result \<and> set result \<subseteq> snd ` set m)", OF _ assms], goal_cases)
  case (1 f m N i result seen y)
  show ?case
  proof
    assume a: "card (snd ` set m) < N \<and> card (snd ` set m) < length m \<and> i < length m \<and>
      seen = result \<and> distinct result \<and> set result \<subseteq> snd ` set m"
    have small: "length r \<le> card (snd ` set m)" if "distinct r" "set r \<subseteq> snd ` set m" for r
      using that by (metis card_mono distinct_card finite_imageI finite_set)
    let ?r = "note_new result (snd (m ! i))" and ?i = "if Suc i = length m then 0 else Suc i"
    have r: "distinct ?r" "set ?r \<subseteq> snd ` set m" using a by (auto simp: note_new_def)
    have "length result < N" "length ?r < length m" using small [of result] small [of ?r] a r by auto
    then have "f m N ?i ?r ?r = Some y"
      using 1(2) a by (auto simp: note_new_def Let_def split: if_splits)
    moreover have "?i < length m" using a by auto
    ultimately show False using 1(1) [of m N ?i ?r ?r y] a r by blast
  qed
qed

lemma replicas_loop_diverges:
  assumes "card (snd ` set m) < N" "card (snd ` set m) < length m" "i < length m"
  shows "replicas_loop m N i [] [] = None"
  using assms replicas_loop_returns [of m N i "[]" "[]"] by (cases "replicas_loop m N i [] []") auto

lemma ring_start_less: "m \<noteq> [] \<Longrightarrow> ring_start m h < length m"
  by (auto simp: ring_start_def Let_def lower_bound_def)

lemma ring_query_start: "m \<noteq> [] \<Longrightarrow> ring_query m h = Inr (snd (m ! ring_start m h))"
proof -
  assume m: "m \<noteq> []"
  have d: "lower_bound m h = drop (length (takeWhile (\<lambda>e. fst e < h) m)) m"
    by (simp add: lower_bound_def dropWhile_eq_drop)
  let ?k = "length (takeWhile (\<lambda>e. fst e < h) m)"
  have k: "?k \<le> length m" by (rule length_takeWhile_le)
  show ?thesis
  proof (cases "?k = length m")
    case True
    then have "lower_bound m h = []" by (simp add: d)
    with m show ?thesis by (cases m) (simp_all add: ring_query_def ring_start_def)
  next
    case False
    then have "lower_bound m h = m ! ?k # drop (Suc ?k) m" using k by (simp add: d Cons_nth_drop_Suc)
    moreover have "ring_start m h = ?k" using False k by (simp add: ring_start_def Let_def d)
    ultimately show ?thesis by (simp add: ring_query_def)
  qed
qed

section \<open>Histories of the ring\<close>

text \<open>The ring after a history of \<open>addNodeToHash\<close> and \<open>delNodeToHash\<close>.\<close>

fun run_members :: "ring \<Rightarrow> u64 member_event list \<Rightarrow> ring" where
  "run_members m [] = m"
| "run_members m (Join n # es) = run_members (ring_addNode n m) es"
| "run_members m (Leave n # es) = run_members (ring_delNode n m) es"

lemma run_members_eq: "run_members m es = ring_events vpoints m es"
  by (induction m es rule: run_members.induct) (simp_all add: ring_node_eq)

lemma run_members_sorted: "sorted_map m \<Longrightarrow> sorted_map (run_members m es)"
  by (induction m es rule: run_members.induct) (simp_all add: ring_node_eq)

lemma run_members_ring_of:
  assumes "\<forall>a\<in>event_node ` set es. \<forall>b\<in>event_node ` set es. a \<noteq> b \<longrightarrow> \<not> chained a b"
  shows "ring_of vpoints (members {} es) (run_members [] es)"
  unfolding run_members_eq
  using vring.ring_of_events [of "{}" "[]" "event_node ` set es" es] assms by (simp add: ring_of_def)

lemma hash_zero [simp]: "hash_u64 0 = 0" "(hash_u64 ^^ i) 0 = 0"
proof -
  show 0: "hash_u64 0 = 0" by (simp add: hash_u64_def)
  show "(hash_u64 ^^ i) 0 = 0" by (induction i) (simp_all add: 0)
qed

lemma zero_unchained: "b \<noteq> 0 \<Longrightarrow> \<not> chained 0 b" "b \<noteq> 0 \<Longrightarrow> \<not> chained b 0"
  using hash_pow_inject [of _ b 0] by (auto simp: chained_def)

lemma lone_member_owns: "ring_query (run_members [] [Join n]) h = Inr n"
proof -
  have r: "ring_of vpoints {n} (run_members [] [Join n])"
    using run_members_ring_of [of "[Join n]"] by simp
  then have "run_members [] [Join n] \<noteq> []" using vring.ring_of_nonempty by blast
  then obtain a where "ring_query (run_members [] [Join n]) h = Inr a" by (simp add: ring_query_start)
  with vring.owner_is_member [OF r this] show ?thesis by simp
qed

text \<open>A ring with one member has one owner and, unless the hash maps it to itself, many positions.\<close>

lemma lone_member_ring:
  assumes "hash_u64 n \<noteq> n"
  shows "snd ` set (ring_addNode n []) = {n}" "length (ring_addNode n []) > 1"
proof -
  let ?m = "ring_addNode n []"
  have r: "ring_of vpoints {n} ?m" using run_members_ring_of [of "[Join n]"] by simp
  then have s: "distinct (map fst ?m)" by (simp add: ring_of_def sorted_map_distinct)
  have "(p, a) \<in> set ?m \<longleftrightarrow> a = n \<and> p \<in> set (vpoints n)" for p a
    using r s by (auto simp: ring_of_def)
  then have set: "set ?m = (\<lambda>p. (p, n)) ` set (vpoints n)" by auto
  have two: "hash_u64 n \<in> set (vpoints n)" "hash_u64 (hash_u64 n) \<in> set (vpoints n)"
    by (simp_all add: vpoints_def VIRTUAL_REPLICAS_def numeral_eq_Suc)
  with set show "snd ` set ?m = {n}" by force
  have "hash_u64 n \<noteq> hash_u64 (hash_u64 n)" using assms hash_u64_inject by metis
  then have "card {(hash_u64 n, n), (hash_u64 (hash_u64 n), n)} = 2" by simp
  moreover have "card {(hash_u64 n, n), (hash_u64 (hash_u64 n), n)} \<le> card (set ?m)"
    using two set by (intro card_mono) auto
  ultimately show "length ?m > 1" using card_length [of ?m] by simp
qed

section \<open>Properties\<close>

text \<open>The 64-bit mixing function of the ring is a bijection, so two nodes share a virtual
  position only when one identity is reached from the other in fewer than 160 applications.\<close>

theorem ring_hash_bijective:
  "bij hash_u64 \<and> (set (vpoints a) \<inter> set (vpoints b) = {} \<or> chained a b)"
proof -
  have "inj hash_u64" by (auto intro: injI hash_u64_inject)
  then have "bij hash_u64" by (simp add: bij_def finite_UNIV_inj_surj)
  then show ?thesis using shared_point_chained by blast
qed

text \<open>C16. Who owns a key depends only on who is a member, not on the order of joins and leaves:
  two histories over identities that are not chained and with the same members at the end build the
  same ring, so every node of the cluster routes every key alike.\<close>

theorem ring_history_independent:
  assumes "\<forall>a\<in>U. \<forall>b\<in>U. a \<noteq> b \<longrightarrow> \<not> chained a b"
    and "event_node ` set es \<subseteq> U" "event_node ` set es' \<subseteq> U" "members {} es = members {} es'"
  shows "run_members [] es = run_members [] es' \<and> ring_query (run_members [] es) h = ring_query (run_members [] es') h"
  using vring.events_confluent [of es U es'] assms by (simp add: run_members_eq)

theorem ring_history_independent_witness:
  "run_members [] [Join 0, Join 1] = run_members [] [Join 1, Leave 1, Join 0, Join 1] \<and>
   ring_query (run_members [] [Join 0, Join 1]) 42 = ring_query (run_members [] [Join 1, Leave 1, Join 0, Join 1]) 42"
  by (rule ring_history_independent [where U = "{0, 1}"]) (auto simp: zero_unchained)

text \<open>C22. Keys move as little as consistent hashing promises.  When a node joins a ring that is not
  empty, each key stays with its owner or moves to the new node; when a node leaves, only its own
  keys move.\<close>

theorem ring_minimal_disruption:
  assumes "\<forall>a\<in>event_node ` set (Join n # es). \<forall>b\<in>event_node ` set (Join n # es). a \<noteq> b \<longrightarrow> \<not> chained a b"
    and "ring_query (run_members [] es) h = Inr a"
  shows "ring_query (ring_addNode n (run_members [] es)) h \<in> {Inr n, Inr a} \<and>
    (a \<noteq> n \<longrightarrow> ring_query (ring_delNode n (run_members [] es)) h = Inr a)"
proof -
  let ?m = "run_members [] es"
  have r: "ring_of vpoints (members {} es) ?m" using assms(1) by (intro run_members_ring_of) auto
  have s: "sorted_map ?m" by (simp add: run_members_sorted)
  have ne: "?m \<noteq> []" using assms(2) by (auto simp: ring_query_def lower_bound_def)
  have "\<not> chained b n" if "b \<in> members {} es" "b \<noteq> n" for b
    using assms(1) that members_subset [of "{}" es] by auto
  then have "a \<noteq> n \<longrightarrow> ring_query (ring_delNode n ?m) h = Inr a"
    using vring.leave_keeps_owners [OF r _ assms(2)] by (simp add: ring_node_eq)
  then show ?thesis
    using ring_query_put_points [OF s ne, of "vpoints n" n h] assms(2) by (simp add: ring_node_eq)
qed

theorem ring_minimal_disruption_witness:
  "ring_query (run_members [] [Join 0]) 42 = Inr 0 \<and>
   ring_query (ring_addNode 1 (run_members [] [Join 0])) 42 \<in> {Inr 1, Inr 0} \<and>
   ring_query (ring_delNode 1 (run_members [] [Join 0])) 42 = Inr 0"
  using ring_minimal_disruption [of 1 "[Join 0]" 42 0] lone_member_owns [of 0 42]
  by (auto simp: zero_unchained)

text \<open>Looking up the owner of a key is undefined on an empty ring and otherwise returns the
  node at the first position at or after the key's hash, or at the least position if there is none.\<close>

theorem ring_query_correct:
  assumes "sorted_map m"
  shows "(m = [] \<longrightarrow> ring_query m h = Inl (UB End_Deref)) \<and>
    (m \<noteq> [] \<longrightarrow> (\<exists>p n. ring_query m h = Inr n \<and> map_of m p = Some n \<and>
      (if \<exists>q\<in>fst ` set m. h \<le> q then h \<le> p \<and> (\<forall>q\<in>fst ` set m. h \<le> q \<longrightarrow> p \<le> q)
       else \<forall>q\<in>fst ` set m. p \<le> q)))"
proof (cases "lower_bound m h")
  case Nil
  then have below: "\<forall>x\<in>set m. fst x < h" by (simp add: lower_bound_Nil_iff)
  show ?thesis
  proof (cases m)
    case (Cons e r)
    obtain p n where e: "e = (p, n)" by (cases e)
    have "\<not> h \<le> q" if "q \<in> fst ` set m" for q using below that by auto
    moreover have "\<forall>q\<in>fst ` set m. p \<le> q" using assms Cons e by (auto simp: sorted_map_Cons)
    ultimately show ?thesis using Nil Cons e by (auto simp: ring_query_def intro!: exI [of _ p])
  qed (use Nil in \<open>simp add: ring_query_def\<close>)
next
  case (Cons e r)
  obtain p n where e: "e = (p, n)" by (cases e)
  note lb = lower_bound_Cons [OF Cons]
  have "map_of m p = Some n" using lb(1) e sorted_map_distinct [OF assms] by simp
  moreover have "h \<le> p" "\<forall>q\<in>fst ` set m. h \<le> q \<longrightarrow> p \<le> q" using lb(2,3) e assms by auto
  moreover have "p \<in> fst ` set m" using lb(1) e by force
  ultimately show ?thesis using Cons e by (auto simp: ring_query_def intro!: exI [of _ p])
qed

theorem ring_query_correct_witness:
  "\<exists>p n. ring_query [(5 :: u64, 1 :: u64), (9, 2)] 7 = Inr n \<and> map_of [(5 :: u64, 1 :: u64), (9, 2)] p = Some n \<and> 7 \<le> p"
  using ring_query_correct [of "[(5 :: u64, 1 :: u64), (9, 2)]" 7] by (auto simp: sorted_map_def split: if_splits)

text \<open>C37. \<open>queryReplicas\<close> returns the first \<open>N\<close> distinct nodes clockwise from the key, the owner of
  the key first, whenever the ring has that many nodes (or no node has two positions); it never
  returns when the ring has fewer.  With 160 positions per node, asking a ring of one node for two
  replicas is such a call.\<close>

theorem ring_replicas_correct:
  assumes "m \<noteq> []" "N \<ge> 0" "N < 2 ^ 64"
  shows "ring_replicas m self h N =
    (if nat N \<le> card (snd ` set m) \<or> card (snd ` set m) = length m
     then Some (take (nat N) (firsts (owners_from m (ring_start m h)))) else None)"
proof -
  have n: "unat (of_int N :: u64) = nat N"
    using assms(2,3) by (simp add: unsigned_of_int take_bit_int_eq_self)
  note start = ring_start_less [OF assms(1), of h]
  have le: "card (snd ` set m) \<le> length m" using card_length [of "map snd m"] by simp
  show ?thesis
  proof (cases "nat N \<le> card (snd ` set m) \<or> card (snd ` set m) = length m")
    case True
    have "replicas_loop m (nat N) (ring_start m h) [] [] = Some (take (nat N) (firsts (owners_from m (ring_start m h))))"
      using replicas_loop_state [of "ring_start m h" m 0 "nat N"] start True assms(1) by simp
    with True assms(1) n show ?thesis by (simp add: ring_replicas_def)
  next
    case False
    then have "replicas_loop m (nat N) (ring_start m h) [] [] = None"
      using le start by (intro replicas_loop_diverges) auto
    with False assms(1) n show ?thesis by (auto simp: ring_replicas_def)
  qed
qed

theorem ring_replicas_correct_witness:
  "ring_replicas [(5, 1), (9, 2)] 0 7 2 = Some [2, 1] \<and> ring_replicas [(5, 1), (9, 1)] 0 7 2 = None"
  using ring_replicas_correct [of "[(5, 1), (9, 2)]" 2 0 7] ring_replicas_correct [of "[(5, 1), (9, 1)]" 2 0 7]
  by (simp add: ring_start_def lower_bound_def owners_from_def firsts_def note_new_def)

text \<open>In a cluster of one node, asking for the two replicas of a key never returns (for every
  identity that the hash does not map to itself).\<close>

theorem lone_node_replicas_hang:
  assumes "hash_u64 n \<noteq> n"
  shows "ring_replicas (ring_addNode n []) self h 2 = None"
proof -
  note lone = lone_member_ring [OF assms]
  then have "ring_addNode n [] \<noteq> []" by auto
  then have "replicas_loop (ring_addNode n []) 2 (ring_start (ring_addNode n []) h) [] [] = None"
    using lone by (intro replicas_loop_diverges) (simp_all add: ring_start_less)
  with \<open>ring_addNode n [] \<noteq> []\<close> show ?thesis by (simp add: ring_replicas_def)
qed

theorem lone_node_replicas_hang_witness:
  "hash_u64 1 \<noteq> 1 \<and> ring_replicas (ring_addNode 1 []) 1 42 2 = None"
  using lone_node_replicas_hang [of 1 1 42] by (simp add: hash_u64_def Let_def)

end
