(* ===== verification/Cluster_State.thy ===== *)
theory Cluster_State
  imports Hash_Ring
begin

text \<open>
  The membership view of a node, \<open>util/Cluster.cpp\<close> and \<open>Cluster.h\<close>: the ring, the topology, the
  connections to the other nodes, the time of the last heartbeat of each, and the cache of gossip
  identities already seen.  The clock is an argument (\<open>now\<close>, milliseconds as the unsigned 64-bit
  number the subtraction in the source is made in), and so is every random number.  The locks of the
  source each protect one field for the length of one access and have no counterpart here.
\<close>

section \<open>State\<close>

definition HEARTBEAT_TIMEOUT_MS :: u64 where
  "HEARTBEAT_TIMEOUT_MS = 3000"

definition GOSSIP_TIMEOUT_MS :: u64 where
  "GOSSIP_TIMEOUT_MS = 60000"

definition GOSSIP_CACHE_SIZE :: nat where
  "GOSSIP_CACHE_SIZE = 1000"

record Node =
  ip :: string
  port :: u16
  UUID :: u64

record Cluster =
  self_node :: Node
  node_hash :: ring
  heartbeat_time :: "(u64, u64) smap"
  connections :: "(u64, int) smap"
  fd_to_uuid :: "(int, u64) smap"
  topo :: "(u64, Node) smap"
  gossip_cache :: "(u64, u64) smap"
  heartbeat_listensock :: int
  running :: bool

section \<open>Operations\<close>

text \<open>The two constructors; \<open>uuid\<close> is what \<open>generateUUID\<close> draws.\<close>

definition new_Cluster :: "u64 \<Rightarrow> Cluster" where
  "new_Cluster uuid = \<lparr>self_node = \<lparr>ip = ''127.0.0.1'', port = 0, UUID = uuid\<rparr>, node_hash = [], heartbeat_time = [],
     connections = [], fd_to_uuid = [], topo = [], gossip_cache = [], heartbeat_listensock = -1, running = False\<rparr>"

definition new_Cluster_at :: "u64 \<Rightarrow> u16 \<Rightarrow> string \<Rightarrow> Cluster" where
  "new_Cluster_at uuid heartbeat_port addr =
     (let self = \<lparr>ip = addr, port = heartbeat_port - 1, UUID = uuid\<rparr> in
      \<lparr>self_node = self, node_hash = [], heartbeat_time = [], connections = [], fd_to_uuid = [],
       topo = [(uuid, self)], gossip_cache = [], heartbeat_listensock = uint heartbeat_port, running = False\<rparr>)"

text \<open>The messages handed to the send callback, in order; nothing is sent without a callback.\<close>

definition sendHeartbeats :: "bool \<Rightarrow> u64 \<Rightarrow> Cluster \<Rightarrow> Cluster \<times> (string \<times> int) list" where
  "sendHeartbeats send_cb now c =
     (let live = filter (\<lambda>(uuid, fd). \<not> (fd = -1 \<or> \<not> send_cb)) (connections c);
          self = UUID (self_node c)
      in (if live = [] then c else c\<lparr>heartbeat_time := map_insert self now (heartbeat_time c)\<rparr>,
          map (\<lambda>(uuid, fd). (''*2'' @ crlf @ ''+HEARTBEAT'' @ crlf @ ''+'' @ to_string (unat self) @ crlf, fd)) live))"

definition addNodeToHash :: "u64 \<Rightarrow> Cluster \<Rightarrow> Cluster" where
  "addNodeToHash node_id c = c\<lparr>node_hash := ring_addNode node_id (node_hash c)\<rparr>"

definition delNodeToHash :: "u64 \<Rightarrow> Cluster \<Rightarrow> Cluster" where
  "delNodeToHash node_id c = c\<lparr>node_hash := ring_delNode node_id (node_hash c)\<rparr>"

definition delConnection :: "u64 \<Rightarrow> Cluster \<Rightarrow> Cluster" where
  "delConnection uuid c =
     (let fd = (case map_of (connections c) uuid of None \<Rightarrow> -1 | Some fd \<Rightarrow> fd);
          c = (if fd \<noteq> -1 then c\<lparr>fd_to_uuid := map_erase fd (fd_to_uuid c)\<rparr> else c)
      in c\<lparr>connections := map_erase uuid (connections c)\<rparr>)"

definition delTopoNode :: "u64 \<Rightarrow> Cluster \<Rightarrow> Cluster" where
  "delTopoNode uuid c =
     (let c = delConnection uuid c
      in c\<lparr>topo := map_erase uuid (topo c), heartbeat_time := map_erase uuid (heartbeat_time c)\<rparr>)"

definition addTopoNode :: "Node \<Rightarrow> Cluster \<Rightarrow> Cluster" where
  "addTopoNode node c = c\<lparr>topo := map_insert (UUID node) node (topo c)\<rparr>"

definition addConnection :: "u64 \<Rightarrow> int \<Rightarrow> Cluster \<Rightarrow> Cluster" where
  "addConnection uuid fd c =
     c\<lparr>connections := map_insert uuid fd (connections c), fd_to_uuid := map_insert fd uuid (fd_to_uuid c)\<rparr>"

definition getConnection :: "u64 \<Rightarrow> Cluster \<Rightarrow> int" where
  "getConnection uuid c = (case map_of (connections c) uuid of None \<Rightarrow> -1 | Some fd \<Rightarrow> fd)"

definition getUuidByFd :: "int \<Rightarrow> Cluster \<Rightarrow> u64" where
  "getUuidByFd fd c = (case map_of (fd_to_uuid c) fd of None \<Rightarrow> 0 | Some uuid \<Rightarrow> uuid)"

text \<open>\<open>now - ts\<close> is unsigned: a time stamp later than \<open>now\<close> gives a huge difference.\<close>

definition timed_out :: "u64 \<Rightarrow> Cluster \<Rightarrow> u64 list" where
  "timed_out now c = map fst (filter (\<lambda>(uuid, ts). uuid \<noteq> UUID (self_node c) \<and> now - ts > HEARTBEAT_TIMEOUT_MS) (heartbeat_time c))"

text \<open>The second component lists the nodes the failure callback is called for, in order.\<close>

definition checkTimeouts :: "u64 \<Rightarrow> Cluster \<Rightarrow> Cluster \<times> u64 list" where
  "checkTimeouts now c =
     (let dead = timed_out now c in (fold (\<lambda>uuid c. delTopoNode uuid (delNodeToHash uuid c)) dead c, dead))"

definition updateHeartbeat :: "u64 \<Rightarrow> int \<Rightarrow> Cluster \<Rightarrow> Cluster" where
  "updateHeartbeat now fd c = (case map_of (fd_to_uuid c) fd of
     None \<Rightarrow> c
   | Some uuid \<Rightarrow> c\<lparr>heartbeat_time := map_insert uuid now (heartbeat_time c)\<rparr>)"

definition queryNode :: "Cluster \<Rightarrow> string \<Rightarrow> u64 res" where
  "queryNode c str = ring_query (node_hash c) (hash_string str)"

definition queryReplicas :: "Cluster \<Rightarrow> string \<Rightarrow> int \<Rightarrow> u64 list option" where
  "queryReplicas c key N = ring_replicas (node_hash c) (UUID (self_node c)) (hash_string key) N"

definition isMasterFor :: "Cluster \<Rightarrow> string \<Rightarrow> bool res" where
  "isMasterFor c key = bindE (queryNode c key) (\<lambda>owner. Inr (owner = UUID (self_node c)))"

definition isAlive :: "u64 \<Rightarrow> u64 \<Rightarrow> Cluster \<Rightarrow> bool" where
  "isAlive now node_id c = (case map_of (heartbeat_time c) node_id of
     None \<Rightarrow> False
   | Some ts \<Rightarrow> now - ts < HEARTBEAT_TIMEOUT_MS)"

definition findGossip :: "u64 \<Rightarrow> Cluster \<Rightarrow> bool" where
  "findGossip uuid c \<longleftrightarrow> map_of (gossip_cache c) uuid \<noteq> None"

definition addGossip :: "u64 \<Rightarrow> u64 \<Rightarrow> Cluster \<Rightarrow> Cluster" where
  "addGossip now uuid c =
     (let g = map_insert uuid now (gossip_cache c);
          g = filter (\<lambda>(u, ts). \<not> now - ts > GOSSIP_TIMEOUT_MS) g;
          g = (if length g > GOSSIP_CACHE_SIZE then tl g else g)
      in c\<lparr>gossip_cache := g\<rparr>)"

text \<open>\<open>k\<close> is the number drawn from \<open>[0, topo.size() - 1]\<close>.\<close>

definition randomNode :: "nat \<Rightarrow> Cluster \<Rightarrow> u64" where
  "randomNode k c = (if topo c = [] then 0 else fst (topo c ! k))"

definition cluster_start :: "Cluster \<Rightarrow> Cluster" where
  "cluster_start c = c\<lparr>running := True\<rparr>"

definition cluster_stop :: "Cluster \<Rightarrow> Cluster" where
  "cluster_stop c = c\<lparr>running := False\<rparr>"

text \<open>One round of \<open>heartbeatLoop\<close> after its sleep: the state, the messages, the dead nodes.\<close>

definition heartbeat_round :: "bool \<Rightarrow> u64 \<Rightarrow> Cluster \<Rightarrow> Cluster \<times> (string \<times> int) list \<times> u64 list" where
  "heartbeat_round send_cb now c =
     (if \<not> running c then (c, [], [])
      else let (c, msgs) = sendHeartbeats send_cb now c; (c, dead) = checkTimeouts now c in (c, msgs, dead))"

section \<open>Invariant\<close>

definition cluster_ok :: "Cluster \<Rightarrow> bool" where
  "cluster_ok c \<longleftrightarrow> sorted_map (node_hash c) \<and> sorted_map (heartbeat_time c) \<and> sorted_map (connections c) \<and>
     sorted_map (fd_to_uuid c) \<and> sorted_map (topo c) \<and> sorted_map (gossip_cache c) \<and>
     length (gossip_cache c) \<le> GOSSIP_CACHE_SIZE"

lemma sorted_map_filter [simp]: "sorted_map m \<Longrightarrow> sorted_map (filter P m)"
  by (induction m) (auto simp: sorted_map_Cons)

lemma sorted_map_tl [simp]: "sorted_map m \<Longrightarrow> sorted_map (tl m)"
  by (cases m) (auto simp: sorted_map_Cons)

lemma length_map_insert: "length (map_insert k v m) \<le> Suc (length m)"
  by (induction m) auto

lemma ring_sorted [simp]:
  "sorted_map m \<Longrightarrow> sorted_map (ring_addNode n m)" "sorted_map m \<Longrightarrow> sorted_map (ring_delNode n m)"
  by (simp_all add: ring_node_eq)

lemma new_Cluster_ok: "cluster_ok (new_Cluster u)" "cluster_ok (new_Cluster_at u p a)"
  by (simp_all add: cluster_ok_def new_Cluster_def new_Cluster_at_def Let_def sorted_map_def)

lemma cluster_ops_ok:
  assumes "cluster_ok c"
  shows "cluster_ok (addNodeToHash u c)" "cluster_ok (delNodeToHash u c)" "cluster_ok (delConnection u c)"
    "cluster_ok (delTopoNode u c)" "cluster_ok (addTopoNode n c)" "cluster_ok (addConnection u fd c)"
    "cluster_ok (updateHeartbeat now fd c)" "cluster_ok (fst (sendHeartbeats cb now c))"
  using assms
  by (simp_all add: cluster_ok_def addNodeToHash_def delNodeToHash_def delConnection_def delTopoNode_def
      addTopoNode_def addConnection_def updateHeartbeat_def sendHeartbeats_def Let_def split: option.split)

lemma addGossip_ok: "cluster_ok c \<Longrightarrow> cluster_ok (addGossip now u c)"
proof -
  assume c: "cluster_ok c"
  let ?g = "filter (\<lambda>(u, ts). \<not> now - ts > GOSSIP_TIMEOUT_MS) (map_insert u now (gossip_cache c))"
  have "length ?g \<le> Suc GOSSIP_CACHE_SIZE"
    using c length_map_insert [of u now "gossip_cache c"] length_filter_le [of _ "map_insert u now (gossip_cache c)"]
    by (meson cluster_ok_def le_trans not_less_eq_eq)
  with c show ?thesis by (auto simp: cluster_ok_def addGossip_def Let_def)
qed

section \<open>Failure detection\<close>

definition remove_nodes :: "u64 list \<Rightarrow> Cluster \<Rightarrow> Cluster" where
  "remove_nodes dead c = fold (\<lambda>uuid c. delTopoNode uuid (delNodeToHash uuid c)) dead c"

lemma remove_nodes_fields:
  "map_of (topo (remove_nodes dead c)) u = (if u \<in> set dead then None else map_of (topo c) u)"
  "map_of (heartbeat_time (remove_nodes dead c)) u = (if u \<in> set dead then None else map_of (heartbeat_time c) u)"
  "map_of (connections (remove_nodes dead c)) u = (if u \<in> set dead then None else map_of (connections c) u)"
  "node_hash (remove_nodes dead c) = fold ring_delNode dead (node_hash c)"
  "self_node (remove_nodes dead c) = self_node c"
  unfolding remove_nodes_def
  by (induction dead arbitrary: c) (auto simp: delTopoNode_def delConnection_def delNodeToHash_def Let_def)

lemma checkTimeouts_eq: "checkTimeouts now c = (remove_nodes (timed_out now c) c, timed_out now c)"
  by (simp add: checkTimeouts_def remove_nodes_def Let_def)

lemma timed_out_iff:
  assumes "cluster_ok c"
  shows "u \<in> set (timed_out now c) \<longleftrightarrow> u \<noteq> UUID (self_node c) \<and>
    (\<exists>ts. map_of (heartbeat_time c) u = Some ts \<and> now - ts > HEARTBEAT_TIMEOUT_MS)"
proof -
  have "distinct (map fst (heartbeat_time c))" using assms by (simp add: cluster_ok_def sorted_map_distinct)
  then show ?thesis by (force simp: timed_out_def map_of_eq_Some_iff)
qed

lemma remove_nodes_ok: "cluster_ok c \<Longrightarrow> cluster_ok (remove_nodes dead c)"
  unfolding remove_nodes_def by (induction dead arbitrary: c) (simp_all add: cluster_ops_ok)

lemma u64_neg: "d \<noteq> 0 \<Longrightarrow> uint (- d :: u64) = 2 ^ 64 - uint d"
proof -
  assume "d \<noteq> 0"
  then have "uint d \<noteq> 0" by (simp add: uint_0_iff)
  moreover have "uint d mod 2 ^ 64 = uint d" using uint_lt2p [of d] uint_ge_0 [of d] by simp
  ultimately show ?thesis by (simp add: uint_word_ariths zmod_zminus1_eq_if)
qed

lemma u64_less_neg:
  fixes d k :: u64
  assumes "0 < d" "d < - k" "k \<noteq> 0"
  shows "k < - d"
proof -
  have "d \<noteq> 0" using assms(1) by auto
  then show ?thesis using assms(2) u64_neg [of d] u64_neg [OF assms(3)] by (simp add: word_less_def)
qed

text \<open>A full gossip cache: the identities 1 to 1000, all seen at time 5.\<close>

definition full_gossip :: "(u64, u64) smap" where
  "full_gossip = map (\<lambda>i. (of_nat (Suc i), 5)) [0..<1000]"

lemma of_nat_u64_less: "i < j \<Longrightarrow> j < 2 ^ 64 \<Longrightarrow> (of_nat i :: u64) < of_nat j"
  by (simp add: word_less_nat_alt unat_of_nat take_bit_nat_eq_self)

lemma full_gossip:
  "sorted_map full_gossip" "length full_gossip = GOSSIP_CACHE_SIZE"
  "\<forall>(v, ts)\<in>set full_gossip. 0 < v \<and> \<not> 5 - ts > GOSSIP_TIMEOUT_MS"
proof -
  have "sorted_wrt (\<lambda>i j. (of_nat (Suc i) :: u64) < of_nat (Suc j)) [0..<1000]"
    by (rule sorted_wrt_mono_rel [OF _ sorted_wrt_upt]) (intro of_nat_u64_less, auto)
  then show "sorted_map full_gossip" by (simp add: sorted_map_def full_gossip_def sorted_wrt_map o_def)
  show "length full_gossip = GOSSIP_CACHE_SIZE" by (simp add: full_gossip_def GOSSIP_CACHE_SIZE_def)
  have "(0 :: u64) < of_nat (Suc i)" if "i < 1000" for i using of_nat_u64_less [of 0 "Suc i"] that by simp
  then show "\<forall>(v, ts)\<in>set full_gossip. 0 < v \<and> \<not> 5 - ts > GOSSIP_TIMEOUT_MS"
    by (simp add: full_gossip_def GOSSIP_TIMEOUT_MS_def)
qed

section \<open>Properties\<close>



text \<open>The comparison of times wraps around: a peer whose heartbeat is stamped up to
  \<open>2 ^ 64 - 3001\<close> milliseconds after \<open>now\<close> was read, which happens when the heartbeat is recorded
  between the two, is declared dead and not alive.\<close>

theorem fresh_heartbeat_is_dead:
  assumes "cluster_ok c" "u \<noteq> UUID (self_node c)" "map_of (heartbeat_time c) u = Some (now + d)"
    and "d > 0" "d < - HEARTBEAT_TIMEOUT_MS"
  shows "u \<in> set (snd (checkTimeouts now c)) \<and> \<not> isAlive now u c"
proof -
  have diff: "now - (now + d) = - d" by simp
  have late: "HEARTBEAT_TIMEOUT_MS < - d"
    by (rule u64_less_neg [OF assms(4,5)]) (simp add: HEARTBEAT_TIMEOUT_MS_def)
  then have "u \<in> set (timed_out now c)"
    unfolding timed_out_iff [OF assms(1)] using assms(2,3) diff by metis
  moreover have "isAlive now u c = (now - (now + d) < HEARTBEAT_TIMEOUT_MS)" by (simp only: isAlive_def assms(3) option.case)
  ultimately show ?thesis unfolding diff checkTimeouts_eq using less_not_sym [OF late] by simp
qed

theorem fresh_heartbeat_is_dead_witness:
  "2 \<in> set (snd (checkTimeouts 5000 ((new_Cluster 1)\<lparr>heartbeat_time := [(2, 5001)]\<rparr>))) \<and>
   \<not> isAlive 5000 2 ((new_Cluster 1)\<lparr>heartbeat_time := [(2, 5001)]\<rparr>)"
  by (rule fresh_heartbeat_is_dead [where d = 1])
    (simp_all add: cluster_ok_def new_Cluster_def sorted_map_def HEARTBEAT_TIMEOUT_MS_def word_less_def)

lemma addGossip_remembers:
  assumes "cluster_ok c" "length (gossip_cache c) < GOSSIP_CACHE_SIZE"
  shows "findGossip u (addGossip now u c)"
proof -
  let ?i = "map_insert u now (gossip_cache c)"
  let ?g = "filter (\<lambda>(u, ts). \<not> now - ts > GOSSIP_TIMEOUT_MS) ?i"
  have s: "sorted_map (gossip_cache c)" using assms(1) by (simp add: cluster_ok_def)
  have "length ?g \<le> GOSSIP_CACHE_SIZE"
    using assms(2) length_map_insert [of u now "gossip_cache c"] length_filter_le [of "\<lambda>(u, ts). \<not> now - ts > GOSSIP_TIMEOUT_MS" ?i]
    by linarith
  then have g: "gossip_cache (addGossip now u c) = ?g" by (simp add: addGossip_def Let_def)
  have "(u, now) \<in> set ?i" using s map_of_SomeD by (metis fun_upd_same map_of_insert)
  then have "(u, now) \<in> set ?g" by (simp add: GOSSIP_TIMEOUT_MS_def)
  then show ?thesis using g by (force simp: findGossip_def map_of_eq_None_iff)
qed

text \<open>The gossip cache never exceeds its capacity, and while it is not full it remembers what
  was just added.\<close>

theorem gossip_bounded_and_remembered:
  assumes "cluster_ok c"
  shows "cluster_ok (addGossip now u c) \<and> length (gossip_cache (addGossip now u c)) \<le> GOSSIP_CACHE_SIZE \<and>
    (length (gossip_cache c) < GOSSIP_CACHE_SIZE \<longrightarrow> findGossip u (addGossip now u c))"
  using addGossip_ok [OF assms, of now u] addGossip_remembers [OF assms] by (simp add: cluster_ok_def)

theorem gossip_bounded_and_remembered_witness:
  "length (gossip_cache (addGossip 5 7 (new_Cluster 1))) \<le> GOSSIP_CACHE_SIZE \<and> findGossip 7 (addGossip 5 7 (new_Cluster 1))"
  using gossip_bounded_and_remembered [OF new_Cluster_ok(1), of 5 7 1] by (simp add: new_Cluster_def GOSSIP_CACHE_SIZE_def)

text \<open>A full gossip cache evicts by smallest identity, not by age: an identity below all the
  cached ones is forgotten in the very call that adds it, so the message it stands for is processed
  and forwarded every time it arrives.\<close>

theorem gossip_forgets_smallest:
  assumes "length (gossip_cache c) = GOSSIP_CACHE_SIZE" "\<forall>(v, ts)\<in>set (gossip_cache c). u < v \<and> \<not> now - ts > GOSSIP_TIMEOUT_MS"
  shows "\<not> findGossip u (addGossip now u c) \<and> gossip_cache (addGossip now u c) = gossip_cache c"
proof -
  let ?g = "gossip_cache c"
  have "map_insert u now ?g = (u, now) # ?g"
    using assms(2) by (cases ?g) auto
  moreover have "filter (\<lambda>(u, ts). \<not> now - ts > GOSSIP_TIMEOUT_MS) ((u, now) # ?g) = (u, now) # ?g"
    using assms(2) by (auto simp: filter_id_conv GOSSIP_TIMEOUT_MS_def)
  ultimately have g: "gossip_cache (addGossip now u c) = ?g" using assms(1) by (simp add: addGossip_def Let_def)
  moreover have "map_of ?g u = None" using assms(2) by (intro map_of_less) auto
  ultimately show ?thesis by (simp add: findGossip_def)
qed

theorem gossip_forgets_smallest_witness:
  "cluster_ok ((new_Cluster 1)\<lparr>gossip_cache := full_gossip\<rparr>) \<and>
   \<not> findGossip 0 (addGossip 5 0 ((new_Cluster 1)\<lparr>gossip_cache := full_gossip\<rparr>)) \<and>
   gossip_cache (addGossip 5 0 ((new_Cluster 1)\<lparr>gossip_cache := full_gossip\<rparr>)) = full_gossip"
  using gossip_forgets_smallest [of "(new_Cluster 1)\<lparr>gossip_cache := full_gossip\<rparr>" 0 5] full_gossip
  by (simp add: cluster_ok_def new_Cluster_def)

end
