(* ===== verification/Node_Utils.thy ===== *)
theory Node_Utils
  imports Cluster_State Resp_Parser
begin

text \<open>
  How nodes and topologies travel: \<open>encodeNode\<close> and \<open>encodeTopo\<close> of \<open>resp/RespEncoder.cpp\<close> and the
  readers of \<open>util/Utils.cpp\<close>.  \<open>node_resp\<close> is the RESP value a node is written as; the lemmas show
  that the hand-written encoders print exactly that value, that the parser reads it back, and that
  the readers recover the nodes.
\<close>

section \<open>Definitions\<close>

definition signed_char :: "char \<Rightarrow> int" where
  "signed_char c = (let n = of_char c in if n < 128 then n else n - 256)"

text \<open>No digit is checked and the arithmetic wraps around.\<close>

definition to_uint64_t :: "string \<Rightarrow> u64" where
  "to_uint64_t str = fold (\<lambda>c ret. ret * 10 + of_int (signed_char c - 48)) str 0"

definition getNode :: "RespValue \<Rightarrow> Node res" where
  "getNode value = (case value of
     Array (Some [ip_, port_, UUID_]) \<Rightarrow>
       (case (ip_, port_, UUID_) of
          (SimpleString a, Integer p, SimpleString u) \<Rightarrow> Inr \<lparr>ip = a, port = of_int p, UUID = to_uint64_t u\<rparr>
        | _ \<Rightarrow> Inl (Runtime_Error ''getNode: Invalid node element types''))
   | _ \<Rightarrow> Inl (Runtime_Error ''getNode: Invalid node format, expected Array of 3 elements''))"

definition getTopo :: "RespValue \<Rightarrow> Node list res" where
  "getTopo value = (case value of
     Array (Some nodes) \<Rightarrow> foldE (\<lambda>tp v. bindE (getNode v) (\<lambda>n. Inr (tp @ [n]))) [] nodes
   | _ \<Rightarrow> Inl (Runtime_Error ''getTopo: Invalid topo format, expected Array''))"

type_synonym groups = "(u64, u64 list) smap"

text \<open>The members of a group: later elements that are simple strings and do not read as 0.\<close>

definition group_members :: "RespValue list \<Rightarrow> u64 list" where
  "group_members vs = concat (map (\<lambda>v. case v of
     SimpleString s \<Rightarrow> (let uid = to_uint64_t s in if uid \<noteq> 0 then [uid] else []) | _ \<Rightarrow> []) vs)"

definition read_group :: "groups \<Rightarrow> RespValue \<Rightarrow> groups res" where
  "read_group groups g = (case g of
     Array (Some (gid # m # ms)) \<Rightarrow>
       (case gid of
          SimpleString s \<Rightarrow> Inr (map_insert (to_uint64_t s) (group_members (m # ms)) groups)
        | _ \<Rightarrow> Inl (UB Null_Deref))
   | _ \<Rightarrow> Inr groups)"

definition getTopoV2 :: "RespValue \<Rightarrow> groups \<Rightarrow> (Node list \<times> groups) res" where
  "getTopoV2 value groups = (case value of
     Array (Some (part1 # rest)) \<Rightarrow>
       bindE (getTopo part1) (\<lambda>nodes.
         case rest of
           Array (Some gs) # _ \<Rightarrow> bindE (foldE read_group groups gs) (\<lambda>groups. Inr (nodes, groups))
         | _ \<Rightarrow> Inr (nodes, groups))
   | _ \<Rightarrow> Inl (Runtime_Error ''getTopoV2: Invalid format''))"

definition encodeNode :: "Node \<Rightarrow> string" where
  "encodeNode n = ''*3'' @ crlf @ ''+'' @ ip n @ crlf @ '':'' @ to_string (unat (port n)) @ crlf @
     ''+'' @ to_string (unat (UUID n)) @ crlf"

definition encodeTopo :: "(u64, Node) smap \<Rightarrow> string" where
  "encodeTopo tp = foldl (\<lambda>ret (uuid, n). ret @ encodeNode n) (''*'' @ to_string (length tp) @ crlf) tp"

section \<open>The RESP value of a node\<close>

definition node_resp :: "Node \<Rightarrow> RespValue" where
  "node_resp n = Array (Some [SimpleString (ip n), Integer (uint (port n)),
     SimpleString (to_string (unat (UUID n)))])"

definition topo_resp :: "(u64, Node) smap \<Rightarrow> RespValue" where
  "topo_resp tp = Array (Some (map (node_resp \<circ> snd) tp))"

definition topo_ok :: "(u64, Node) smap \<Rightarrow> bool" where
  "topo_ok tp \<longleftrightarrow> length tp \<le> vector_max_size \<and> (\<forall>(u, n)\<in>set tp. line_ok (ip n))"

lemma signed_char_digit: "is_digit c \<Longrightarrow> signed_char c - 48 = int (digit_val c)"
proof -
  assume c: "is_digit c"
  have "(of_char c :: int) = int (of_char c)" by (simp add: of_char_def)
  with c show ?thesis by (simp add: signed_char_def Let_def is_digit_def digit_val_def of_nat_diff)
qed

lemma fold_digits:
  "\<forall>c\<in>set str. is_digit c \<Longrightarrow>
   fold (\<lambda>c ret. ret * 10 + of_int (signed_char c - 48)) str (of_nat a :: u64) = of_nat (dec_value a str)"
proof (induction str arbitrary: a)
  case (Cons c str)
  have "(of_nat a * 10 + of_int (signed_char c - 48) :: u64) = of_nat (a * 10 + digit_val c)"
    using Cons.prems by (simp add: signed_char_digit)
  with Cons show ?case by (simp del: of_nat_add of_nat_mult)
qed simp

lemma to_uint64_t_dec: "\<forall>c\<in>set str. is_digit c \<Longrightarrow> to_uint64_t str = of_nat (dec_value 0 str)"
  using fold_digits [of str 0] by (simp add: to_uint64_t_def)

lemma to_uint64_t_to_string: "to_uint64_t (to_string n) = of_nat n"
  by (simp add: to_uint64_t_dec to_string_digits)

lemma to_uint64_t_unat [simp]: "to_uint64_t (to_string (unat w)) = w"
  by (simp add: to_uint64_t_to_string)

lemma int_to_string_uint [simp]: "int_to_string (uint w) = to_string (unat w)"
  using uint_ge_0 [of w] by (simp add: int_to_string_def not_less)

lemma encodeNode_eq: "encodeNode n = encode (node_resp n)"
  by (simp add: encodeNode_def node_resp_def to_string.simps [of 3] numeral_3_eq_3 [symmetric])

lemma foldl_encodeNode:
  "foldl (\<lambda>ret (uuid, n). ret @ encodeNode n) acc tp = acc @ concat (map (encode \<circ> node_resp \<circ> snd) tp)"
  by (induction tp arbitrary: acc) (auto simp: encodeNode_eq)

lemma encodeTopo_eq: "encodeTopo tp = encode (topo_resp tp)"
  by (simp add: encodeTopo_def foldl_encodeNode topo_resp_def o_assoc)

lemma node_resp_ok: "line_ok (ip n) \<Longrightarrow> resp_ok (node_resp n)"
proof -
  assume "line_ok (ip n)"
  moreover have "uint (port n) < 2 ^ 16" "- (2 ^ 63) \<le> uint (port n)"
    using uint_lt2p [of "port n"] order_trans [OF _ uint_ge_0, of "- (2 ^ 63)" "port n"] by simp_all
  ultimately show ?thesis
    by (simp add: node_resp_def in_int64_def int64_min_def int64_max_def vector_max_size_def)
qed

lemma topo_resp_ok: "topo_ok tp \<Longrightarrow> resp_ok (topo_resp tp)"
  by (auto simp: topo_resp_def topo_ok_def intro!: node_resp_ok)

lemma getNode_node_resp: "getNode (node_resp n) = Inr n"
  by (simp add: getNode_def node_resp_def)

lemma foldE_getNode:
  "foldE (\<lambda>tp v. bindE (getNode v) (\<lambda>n. Inr (tp @ [n]))) acc (map (node_resp \<circ> snd) tp) = Inr (acc @ map snd tp)"
  by (induction tp arbitrary: acc) (simp_all add: getNode_node_resp)

lemma getTopo_topo_resp: "getTopo (topo_resp tp) = Inr (map snd tp)"
  by (simp add: getTopo_def topo_resp_def foldE_getNode)

section \<open>The RESP value of the groups\<close>

definition group_resp :: "u64 \<times> u64 list \<Rightarrow> RespValue" where
  "group_resp = (\<lambda>(gid, ms). Array (Some (SimpleString (to_string (unat gid)) #
     map (\<lambda>i. SimpleString (to_string (unat (if i < length ms then ms ! i else 0)))) [0, 1, 2])))"

definition groups_ok :: "groups \<Rightarrow> bool" where
  "groups_ok gs \<longleftrightarrow> sorted_map gs \<and> length gs \<le> vector_max_size \<and>
     (\<forall>(gid, ms)\<in>set gs. length ms \<le> 3 \<and> 0 \<notin> set ms)"

text \<open>The zeros that fill a short group are not read as members.\<close>

lemma group_members_padded:
  assumes "length ms \<le> 3" "0 \<notin> set ms"
  shows "group_members (map (\<lambda>i. SimpleString (to_string (unat (if i < length ms then ms ! i else 0)))) [0, 1, 2]) = ms"
proof -
  have "ms = [] \<or> (\<exists>a. ms = [a]) \<or> (\<exists>a b. ms = [a, b]) \<or> (\<exists>a b c. ms = [a, b, c])"
    using assms(1) by (cases ms; cases "tl ms"; cases "tl (tl ms)"; cases "tl (tl (tl ms))") auto
  then show ?thesis using assms(2) by (auto simp: group_members_def to_uint64_t_to_string simp del: unsigned_0)
qed

lemma read_group_resp:
  assumes "length ms \<le> 3" "0 \<notin> set ms"
  shows "read_group gs (group_resp (gid, ms)) = Inr (map_insert gid ms gs)"
  using group_members_padded [OF assms] by (simp add: read_group_def group_resp_def)

lemma read_groups_resp:
  assumes "\<forall>(gid, ms)\<in>set gs. length ms \<le> 3 \<and> 0 \<notin> set ms" "sorted_map acc"
  shows "\<exists>m. foldE read_group acc (map group_resp gs) = Inr m \<and> sorted_map m \<and>
    map_of m = map_of acc ++ map_of (rev gs)"
  using assms
proof (induction gs arbitrary: acc)
  case (Cons g gs)
  obtain gid ms where g: "g = (gid, ms)" by (cases g)
  with Cons.prems have "read_group acc (group_resp g) = Inr (map_insert gid ms acc)"
    by (simp add: read_group_resp)
  with Cons.IH [of "map_insert gid ms acc"] Cons.prems show ?case by (auto simp: g simp del: fun_upd_apply)
qed simp

lemma map_of_rev: "distinct (map fst gs) \<Longrightarrow> map_of (rev gs) = map_of gs"
  by (rule map_eqI) (simp add: rev_map [symmetric])

lemma read_groups:
  assumes "groups_ok gs"
  shows "foldE read_group [] (map group_resp gs) = Inr gs"
proof -
  obtain m where m: "foldE read_group [] (map group_resp gs) = Inr m" "sorted_map m" "map_of m = map_of (rev gs)"
    using read_groups_resp [of gs "[]"] assms by (auto simp: groups_ok_def)
  have "map_of (rev gs) = map_of gs"
    using assms by (intro map_of_rev sorted_map_distinct) (simp add: groups_ok_def)
  then have "m = gs" using m(2,3) assms by (intro sorted_map_unique) (simp_all add: groups_ok_def)
  with m(1) show ?thesis by simp
qed

definition network_resp :: "(u64, Node) smap \<Rightarrow> groups \<Rightarrow> RespValue" where
  "network_resp tp gs = Array (Some [topo_resp tp, Array (Some (map group_resp gs))])"

lemma network_resp_ok: "topo_ok tp \<Longrightarrow> groups_ok gs \<Longrightarrow> resp_ok (network_resp tp gs)"
  using topo_resp_ok [of tp]
  by (auto simp: network_resp_def groups_ok_def group_resp_def vector_max_size_def)

lemma getTopoV2_network: "groups_ok gs \<Longrightarrow> getTopoV2 (network_resp tp gs) [] = Inr (map snd tp, gs)"
  by (simp add: getTopoV2_def network_resp_def getTopo_topo_resp read_groups)

end
