(* ===== verification/Raft_Codec.thy ===== *)
theory Raft_Codec
  imports Resp_Encoder
begin

text \<open>
  The wire format of the Raft messages, first part of \<open>raft/RaftNode.cpp\<close>: the four encoders, the
  splitter \<open>parseParts\<close>, and \<open>std::stoull\<close> as the handlers use it.  Log terms are 64-bit words;
  indices are natural numbers, with the wrap-around of \<open>uint64_t\<close> written out where the source can
  reach it.

  A field on the wire is a line that starts with \<open>+\<close>; \<open>parse_fields\<close> says that \<open>parseParts\<close> reads
  back the fields of a message.  The two reply encoders print a second \<open>+\<close> before the flag.
\<close>

record LogEntry =
  entry_term :: u64
  command :: string

section \<open>Encoders\<close>

text \<open>The count of entries is an \<open>int\<close>; a log has far fewer than \<open>2 ^ 31\<close> entries.\<close>

definition encodeAppendEntries :: "u64 \<Rightarrow> u64 \<Rightarrow> nat \<Rightarrow> u64 \<Rightarrow> nat \<Rightarrow> LogEntry list \<Rightarrow> string" where
  "encodeAppendEntries gid trm prevIdx prevTerm leaderCommit entries =
     (let cnt = length entries; total = 7 + cnt;
          s = ''*'' @ to_string total @ crlf @ ''+RAFT_AE'' @ crlf @ ''+'' @ to_string (unat gid) @ crlf @ ''+'' @
              to_string (unat trm) @ crlf @ ''+'' @ to_string prevIdx @ crlf @ ''+'' @
              to_string (unat prevTerm) @ crlf @ ''+'' @ to_string leaderCommit @ crlf @ ''+'' @
              to_string cnt @ crlf
      in foldl (\<lambda>s e. s @ ''+'' @ command e @ crlf) s entries)"

definition encodeAppendEntriesReply :: "u64 \<Rightarrow> u64 \<Rightarrow> bool \<Rightarrow> nat \<Rightarrow> string" where
  "encodeAppendEntriesReply gid trm success matchIdx =
     ''*5'' @ crlf @ ''+RAFT_AER'' @ crlf @ ''+'' @ to_string (unat gid) @ crlf @ ''+'' @
     to_string (unat trm) @ crlf @ ''+'' @ (if success then ''+1'' @ crlf else ''+0'' @ crlf) @
     ''+'' @ to_string matchIdx @ crlf"

definition encodeRequestVote :: "u64 \<Rightarrow> u64 \<Rightarrow> nat \<Rightarrow> u64 \<Rightarrow> string" where
  "encodeRequestVote gid trm lastIdx lastTerm =
     ''*5'' @ crlf @ ''+RAFT_RV'' @ crlf @ ''+'' @ to_string (unat gid) @ crlf @ ''+'' @
     to_string (unat trm) @ crlf @ ''+'' @ to_string lastIdx @ crlf @ ''+'' @ to_string (unat lastTerm) @ crlf"

definition encodeRequestVoteReply :: "u64 \<Rightarrow> u64 \<Rightarrow> bool \<Rightarrow> string" where
  "encodeRequestVoteReply gid trm granted =
     ''*4'' @ crlf @ ''+RAFT_RVR'' @ crlf @ ''+'' @ to_string (unat gid) @ crlf @ ''+'' @
     to_string (unat trm) @ crlf @ ''+'' @ (if granted then ''+1'' @ crlf else ''+0'' @ crlf)"

section \<open>Reading\<close>

text \<open>The rest of the text after \<open>start = pos + 2\<close> is \<open>drop 2\<close> of the text from the carriage return.\<close>

function parseParts :: "string \<Rightarrow> string list" where
  "parseParts raw =
     (if CHR 0x0D \<notin> set raw then []
      else let chunk = takeWhile (\<lambda>c. c \<noteq> CHR 0x0D) raw;
               rest = drop 2 (dropWhile (\<lambda>c. c \<noteq> CHR 0x0D) raw)
           in (if chunk \<noteq> [] \<and> hd chunk = CHR ''+'' then [tl chunk] else []) @ parseParts rest)"
  by auto
termination
proof (relation "measure length", goal_cases)
  case (2 raw chunk rest)
  have "dropWhile (\<lambda>c. c \<noteq> CHR 0x0D) raw \<noteq> []" using 2(1) by auto
  then have "length rest < length (dropWhile (\<lambda>c. c \<noteq> CHR 0x0D) raw)"
    unfolding 2(3) by (cases "dropWhile (\<lambda>c. c \<noteq> CHR 0x0D) raw") simp_all
  then show ?case using length_dropWhile_le [of "\<lambda>c. c \<noteq> CHR 0x0D" raw] by simp
qed simp

declare parseParts.simps [simp del]

definition stoull :: "string \<Rightarrow> u64 res" where
  "stoull str =
     (let s = dropWhile is_space str;
          neg = (s \<noteq> [] \<and> hd s = CHR ''-'');
          s = (if s \<noteq> [] \<and> hd s \<in> {CHR ''-'', CHR ''+''} then tl s else s);
          ds = takeWhile is_digit s;
          v = dec_value 0 ds
      in if ds = [] then Inl Invalid_Argument
         else if v \<ge> 2 ^ 64 then Inl Out_Of_Range
         else Inr (if neg then - of_nat v else of_nat v))"

section \<open>Lemmas\<close>

lemma stoull_to_string: "n < 2 ^ 64 \<Longrightarrow> stoull (to_string n) = Inr (of_nat n)"
proof -
  assume n: "n < 2 ^ 64"
  obtain c cs where c: "to_string n = c # cs" "is_digit c" using to_string_Cons_digit by blast
  have ns: "\<not> is_space c" "c \<notin> {CHR ''-'', CHR ''+''}" using c(2) by (auto simp: is_space_def is_digit_def)
  have all: "takeWhile is_digit (to_string n) = to_string n"
    using to_string_digits [of n] by (simp add: takeWhile_eq_all_conv)
  have sp: "dropWhile is_space (to_string n) = to_string n" using c(1) ns(1) by simp
  have sg: "to_string n \<noteq> [] \<and> hd (to_string n) = CHR ''-'' \<longleftrightarrow> False"
    "to_string n \<noteq> [] \<and> hd (to_string n) \<in> {CHR ''-'', CHR ''+''} \<longleftrightarrow> False"
    using c(1) ns(2) by auto
  show ?thesis unfolding stoull_def Let_def sp sg if_False all dec_value_to_string using n by simp
qed

lemma stoull_unat [simp]: "stoull (to_string (unat w)) = Inr (w :: u64)"
proof -
  have "unat w < 2 ^ 64" using unsigned_less [of w, where 'a = nat] by simp
  then show ?thesis by (simp add: stoull_to_string)
qed

text \<open>A line without the mark is skipped, a line with it gives a field.\<close>

lemma parse_line:
  assumes "CHR 0x0D \<notin> set w"
  shows "parseParts (w @ crlf @ rest) = (if w \<noteq> [] \<and> hd w = CHR ''+'' then [tl w] else []) @ parseParts rest"
proof -
  have "takeWhile (\<lambda>c. c \<noteq> CHR 0x0D) (w @ crlf @ rest) = w"
    "dropWhile (\<lambda>c. c \<noteq> CHR 0x0D) (w @ crlf @ rest) = crlf @ rest"
    using assms by (induction w) (auto simp: crlf_def)
  then show ?thesis by (subst parseParts.simps) (simp add: crlf_def Let_def)
qed

definition field :: "string \<Rightarrow> string" where
  "field w = ''+'' @ w @ crlf"

lemma parse_fields:
  assumes "\<forall>w\<in>set ws. CHR 0x0D \<notin> set w"
  shows "parseParts (concat (map field ws) @ rest) = ws @ parseParts rest"
  using assms
proof (induction ws)
  case (Cons w ws)
  have "parseParts (field w @ r) = w # parseParts r" for r
    using parse_line [of "CHR ''+'' # w" r] Cons.prems by (simp add: field_def)
  with Cons show ?case by simp
qed simp

lemma parse_Nil [simp]: "parseParts [] = []"
  by (subst parseParts.simps) simp

lemma parse_message:
  assumes "\<forall>w\<in>set ws. CHR 0x0D \<notin> set w"
  shows "parseParts (''*'' @ to_string n @ crlf @ concat (map field ws)) = ws"
  using parse_line [of "''*'' @ to_string n" "concat (map field ws)"] parse_fields [OF assms, of "[]"] by simp

end
