(* ===== verification/Raft_Node.thy ===== *)
theory Raft_Node
  imports Raft_Codec
begin

text \<open>
  The state machine of one Raft group, \<open>raft/RaftNode.cpp\<close>.  Each operation returns the new node and
  the messages it hands to the send callback, in order.  \<open>std::rand\<close> is the argument \<open>rand\<close>, a
  sequence of numbers of which the node counts how many it has drawn.  \<open>disk\<close> is the content of the
  log file, \<open>diskBuf\<close> the write buffer; the stream buffer of the C++ library between the two is not
  modelled, and opening the file succeeds.

  Operations run under the mutex of the node, one at a time (\<open>propose\<close> releases it between its two
  halves; the steps below are not interleaved there).  An operation that throws gives no state.
\<close>

section \<open>State\<close>

datatype raft_role = Follower | Candidate | Leader

record RaftNode =
  currentTerm :: u64
  votedFor :: "u64 option"
  rlog :: "LogEntry list"
  commitIndex :: nat
  lastApplied :: nat
  role :: raft_role
  groupId :: u64
  selfId :: u64
  peers :: "u64 list"
  nextIndex :: "nat list"
  matchIndex :: "nat list"
  voteCount :: nat
  electionTimer :: int
  heartbeatTimer :: int
  draws :: nat
  disk :: string
  diskBuf :: string

type_synonym message = "u64 \<times> string"
type_synonym raft_res = "(RaftNode \<times> message list) res"

definition sentinel :: LogEntry where
  "sentinel = \<lparr>entry_term = 0, command = []\<rparr>"

section \<open>Helpers\<close>

definition lastLogIndex :: "RaftNode \<Rightarrow> nat" where
  "lastLogIndex n = length (rlog n) - 1"

definition lastLogTerm :: "RaftNode \<Rightarrow> u64" where
  "lastLogTerm n = (if length (rlog n) \<le> 1 then 0 else entry_term (last (rlog n)))"

definition peerIndex :: "RaftNode \<Rightarrow> u64 \<Rightarrow> nat" where
  "peerIndex n uuid = length (takeWhile (\<lambda>p. p \<noteq> uuid) (peers n))"

definition hasPendingApply :: "RaftNode \<Rightarrow> bool" where
  "hasPendingApply n \<longleftrightarrow> commitIndex n > lastApplied n"

definition takePendingApply :: "RaftNode \<Rightarrow> RaftNode \<times> LogEntry list" where
  "takePendingApply n =
     (n\<lparr>lastApplied := max (lastApplied n) (commitIndex n)\<rparr>,
      map (\<lambda>i. rlog n ! i) (filter (\<lambda>i. i < length (rlog n)) [Suc (lastApplied n)..<Suc (commitIndex n)]))"

section \<open>Persistence\<close>

definition log_line :: "LogEntry \<Rightarrow> string" where
  "log_line e = to_string (unat (entry_term e)) @ '' '' @ command e @ [CHR 0x0A]"

definition appendToDisk :: "LogEntry \<Rightarrow> RaftNode \<Rightarrow> RaftNode" where
  "appendToDisk e n =
     (let n = n\<lparr>diskBuf := diskBuf n @ log_line e\<rparr> in
      if length (diskBuf n) \<ge> 1024 then n\<lparr>disk := disk n @ diskBuf n, diskBuf := []\<rparr> else n)"

definition flushDisk :: "RaftNode \<Rightarrow> RaftNode" where
  "flushDisk n = (if diskBuf n = [] then n else n\<lparr>disk := disk n @ diskBuf n, diskBuf := []\<rparr>)"

definition rewriteDisk :: "RaftNode \<Rightarrow> RaftNode" where
  "rewriteDisk n = n\<lparr>disk := concat (map log_line (tl (rlog n)))\<rparr>"

text \<open>The lines \<open>std::getline\<close> delivers.\<close>

function getlines :: "string \<Rightarrow> string list" where
  "getlines s = (if s = [] then []
     else takeWhile (\<lambda>c. c \<noteq> CHR 0x0A) s # getlines (drop 1 (dropWhile (\<lambda>c. c \<noteq> CHR 0x0A) s)))"
  by auto
termination
proof (relation "measure length", goal_cases)
  case (2 s)
  then show ?case using length_dropWhile_le [of "\<lambda>c. c \<noteq> CHR 0x0A" s] by (cases s) auto
qed simp

declare getlines.simps [simp del]

definition load_line :: "LogEntry list \<Rightarrow> string \<Rightarrow> LogEntry list res" where
  "load_line lg line =
     (if line = [] \<or> CHR '' '' \<notin> set line then Inr lg
      else bindE (stoull (takeWhile (\<lambda>c. c \<noteq> CHR '' '') line)) (\<lambda>trm.
        Inr (lg @ [\<lparr>entry_term = trm, command = drop 1 (dropWhile (\<lambda>c. c \<noteq> CHR '' '') line)\<rparr>])))"

definition loadFromDisk :: "RaftNode \<Rightarrow> RaftNode res" where
  "loadFromDisk n = bindE (foldE load_line (rlog n) (getlines (disk n))) (\<lambda>lg.
     let lg = (if lg = [] \<or> entry_term (hd lg) \<noteq> 0 then sentinel # lg else lg)
     in Inr (n\<lparr>rlog := lg, commitIndex := length lg - 1, lastApplied := 0\<rparr>))"

section \<open>Roles\<close>

definition resetElectionTimer :: "(nat \<Rightarrow> nat) \<Rightarrow> RaftNode \<Rightarrow> RaftNode" where
  "resetElectionTimer rand n =
     n\<lparr>electionTimer := 150 + int (rand (draws n) mod (300 - 150 + 1)), draws := Suc (draws n)\<rparr>"

definition becomeFollower :: "(nat \<Rightarrow> nat) \<Rightarrow> u64 \<Rightarrow> RaftNode \<Rightarrow> RaftNode" where
  "becomeFollower rand trm n =
     (resetElectionTimer rand (n\<lparr>role := Follower, currentTerm := trm, votedFor := None\<rparr>))\<lparr>voteCount := 0\<rparr>"

definition becomeCandidate :: "(nat \<Rightarrow> nat) \<Rightarrow> RaftNode \<Rightarrow> RaftNode" where
  "becomeCandidate rand n = resetElectionTimer rand
     (n\<lparr>role := Candidate, currentTerm := currentTerm n + 1, votedFor := Some (selfId n), voteCount := 1\<rparr>)"

definition becomeLeader :: "RaftNode \<Rightarrow> RaftNode" where
  "becomeLeader n = n\<lparr>role := Leader, nextIndex := replicate (length (peers n)) (lastLogIndex n + 1),
     matchIndex := replicate (length (peers n)) 0, voteCount := 0, heartbeatTimer := 0\<rparr>"

definition new_RaftNode :: "(nat \<Rightarrow> nat) \<Rightarrow> u64 \<Rightarrow> u64 \<Rightarrow> u64 list \<Rightarrow> string \<Rightarrow> RaftNode res" where
  "new_RaftNode rand group_id self_id ps file =
     bindE (loadFromDisk \<lparr>currentTerm = 0, votedFor = None, rlog = [sentinel], commitIndex = 0, lastApplied = 0,
         role = Follower, groupId = group_id, selfId = self_id, peers = ps, nextIndex = [], matchIndex = [],
         voteCount = 0, electionTimer = 0, heartbeatTimer = 0, draws = 0, disk = file, diskBuf = []\<rparr>) (\<lambda>n.
       Inr (if ps = [] then becomeLeader n else resetElectionTimer rand n))"

section \<open>Sending\<close>

definition sendAppendEntries :: "RaftNode \<Rightarrow> u64 \<Rightarrow> message list res" where
  "sendAppendEntries n peer =
     (let pi = peerIndex n peer in
      if pi \<ge> length (peers n) then Inr []
      else if pi \<ge> length (nextIndex n) then Inl (UB Out_Of_Bounds)
      else let ni = nextIndex n ! pi;
               prevIdx = (ni + 2 ^ 64 - 1) mod 2 ^ 64;
               prevTerm = (if prevIdx < length (rlog n) then entry_term (rlog n ! prevIdx) else 0);
               entries = drop ni (rlog n)
           in Inr [(peer, encodeAppendEntries (groupId n) (currentTerm n) prevIdx prevTerm (commitIndex n) entries)])"

definition send_to_all :: "RaftNode \<Rightarrow> message list res" where
  "send_to_all n = foldE (\<lambda>ms peer. bindE (sendAppendEntries n peer) (\<lambda>m. Inr (ms @ m))) [] (peers n)"

definition sendRequestVote :: "RaftNode \<Rightarrow> message list" where
  "sendRequestVote n = map (\<lambda>peer. (peer, encodeRequestVote (groupId n) (currentTerm n) (lastLogIndex n) (lastLogTerm n))) (peers n)"

section \<open>Timers and proposals\<close>

definition tick :: "(nat \<Rightarrow> nat) \<Rightarrow> RaftNode \<Rightarrow> raft_res" where
  "tick rand n =
     (let n = flushDisk n in
      if role n = Leader then
        let n = n\<lparr>heartbeatTimer := heartbeatTimer n - 1\<rparr> in
        if heartbeatTimer n \<le> 0 then
          let n = n\<lparr>heartbeatTimer := 50\<rparr> in bindE (send_to_all n) (\<lambda>ms. Inr (n, ms))
        else Inr (n, [])
      else
        let n = n\<lparr>electionTimer := electionTimer n - 1\<rparr> in
        if electionTimer n \<le> 0 then
          let n = becomeCandidate rand n in Inr (n, sendRequestVote n)
        else Inr (n, []))"

definition propose :: "string \<Rightarrow> RaftNode \<Rightarrow> raft_res" where
  "propose cmd n =
     (if role n \<noteq> Leader then Inr (n, [])
      else let entry = \<lparr>entry_term = currentTerm n, command = cmd\<rparr>;
               n = n\<lparr>rlog := rlog n @ [entry]\<rparr>;
               n = (if peers n = [] then n\<lparr>commitIndex := lastLogIndex n\<rparr> else n);
               n = appendToDisk entry n
           in bindE (send_to_all n) (\<lambda>ms. Inr (n, ms)))"

section \<open>Messages\<close>

text \<open>The loop over the commands of an \<open>AppendEntries\<close> message; \<open>idx\<close> is \<open>prevIdx + 1 + i\<close>, which
  does not wrap around since \<open>prevIdx\<close> is an index of the log.\<close>

fun append_entries :: "u64 \<Rightarrow> nat \<Rightarrow> string list \<Rightarrow> RaftNode \<times> bool \<Rightarrow> RaftNode \<times> bool" where
  "append_entries trm idx [] (n, truncated) = (n, truncated)"
| "append_entries trm idx (cmd # cmds) (n, truncated) =
     (let conflict = (idx < length (rlog n) \<and> entry_term (rlog n ! idx) \<noteq> trm);
          n = (if conflict then n\<lparr>rlog := take idx (rlog n)\<rparr> else n);
          entry = \<lparr>entry_term = trm, command = cmd\<rparr>;
          n = (if idx \<ge> length (rlog n) then appendToDisk entry (n\<lparr>rlog := rlog n @ [entry]\<rparr>) else n)
      in append_entries trm (Suc idx) cmds (n, truncated \<or> conflict))"

text \<open>
  The handlers in two parts: the reading of the numbers, and what is done with them
  (\<open>on_...\<close>).  \<open>accept_entries\<close> is the tail of \<open>handleAppendEntries\<close> after the consistency check.
\<close>

definition accept_entries :: "u64 \<Rightarrow> string list \<Rightarrow> u64 \<Rightarrow> nat \<Rightarrow> nat \<Rightarrow> RaftNode \<Rightarrow> raft_res" where
  "accept_entries from_peer parts trm prevIdx leaderCommit n =
     bindE (if length parts > 6 then
              bindE (stoull (parts ! 6)) (\<lambda>cnt.
                Inr (append_entries trm (prevIdx + 1) (take (unat cnt) (drop 7 parts)) (n, False)))
            else Inr (n, False)) (\<lambda>(n, truncated).
     let n = (if truncated then rewriteDisk n else n);
         n = (if leaderCommit > commitIndex n then n\<lparr>commitIndex := min leaderCommit (lastLogIndex n)\<rparr> else n)
     in Inr (n, [(from_peer, encodeAppendEntriesReply (groupId n) (currentTerm n) True (lastLogIndex n))]))"

definition hear_leader :: "(nat \<Rightarrow> nat) \<Rightarrow> u64 \<Rightarrow> RaftNode \<Rightarrow> RaftNode" where
  "hear_leader rand trm n =
     resetElectionTimer rand (if trm > currentTerm n \<or> role n = Candidate then becomeFollower rand trm n else n)"

definition on_AppendEntries :: "(nat \<Rightarrow> nat) \<Rightarrow> u64 \<Rightarrow> string list \<Rightarrow> u64 \<Rightarrow> nat \<Rightarrow> u64 \<Rightarrow> nat \<Rightarrow> RaftNode \<Rightarrow> raft_res" where
  "on_AppendEntries rand from_peer parts trm prevIdx prevTerm leaderCommit n =
     (if trm < currentTerm n then
        Inr (n, [(from_peer, encodeAppendEntriesReply (groupId n) (currentTerm n) False 0)])
      else
        let n = hear_leader rand trm n in
        if prevIdx > 0 \<and> (prevIdx \<ge> length (rlog n) \<or> entry_term (rlog n ! prevIdx) \<noteq> prevTerm) then
          Inr (n, [(from_peer, encodeAppendEntriesReply (groupId n) (currentTerm n) False 0)])
        else accept_entries from_peer parts trm prevIdx leaderCommit n)"

definition handleAppendEntries :: "(nat \<Rightarrow> nat) \<Rightarrow> u64 \<Rightarrow> string \<Rightarrow> RaftNode \<Rightarrow> raft_res" where
  "handleAppendEntries rand from_peer raw n =
     (let parts = parseParts raw in
      if length parts < 6 then Inr (n, []) else
      bindE (stoull (parts ! 2)) (\<lambda>trm.
      bindE (stoull (parts ! 3)) (\<lambda>prevIdx.
      bindE (stoull (parts ! 4)) (\<lambda>prevTerm.
      bindE (stoull (parts ! 5)) (\<lambda>leaderCommit.
        on_AppendEntries rand from_peer parts trm (unat prevIdx) prevTerm (unat leaderCommit) n)))))"

definition raft_quorum :: "nat \<Rightarrow> nat" where
  "raft_quorum npeers = npeers div 2 + 1"

definition advanceCommitIndex :: "RaftNode \<Rightarrow> RaftNode res" where
  "advanceCommitIndex n =
     (let sorted = rev (sort (matchIndex n @ [lastLogIndex n]));
          quorum = raft_quorum (length (peers n)) in
      if quorum - 1 \<ge> length sorted then Inl (UB Out_Of_Bounds)
      else let newCommit = sorted ! (quorum - 1) in
        if newCommit > commitIndex n then
          if newCommit \<ge> length (rlog n) then Inl (UB Out_Of_Bounds)
          else if entry_term (rlog n ! newCommit) = currentTerm n then Inr (n\<lparr>commitIndex := newCommit\<rparr>)
          else Inr n
        else Inr n)"

definition on_AppendEntriesReply :: "(nat \<Rightarrow> nat) \<Rightarrow> u64 \<Rightarrow> u64 \<Rightarrow> bool \<Rightarrow> nat \<Rightarrow> RaftNode \<Rightarrow> raft_res" where
  "on_AppendEntriesReply rand from_peer trm success matchIdx n =
     (if trm > currentTerm n then Inr (becomeFollower rand trm n, []) else
      let pi = peerIndex n from_peer in
      if pi \<ge> length (peers n) then Inr (n, [])
      else if pi \<ge> length (nextIndex n) then Inl (UB Out_Of_Bounds)
      else if success then
        bindE (advanceCommitIndex (n\<lparr>nextIndex := (nextIndex n)[pi := (matchIdx + 1) mod 2 ^ 64],
                                     matchIndex := (matchIndex n)[pi := matchIdx]\<rparr>)) (\<lambda>n. Inr (n, []))
      else
        let n = (if nextIndex n ! pi > 1 then n\<lparr>nextIndex := (nextIndex n)[pi := nextIndex n ! pi - 1]\<rparr> else n)
        in bindE (sendAppendEntries n from_peer) (\<lambda>ms. Inr (n, ms)))"

definition handleAppendEntriesReply :: "(nat \<Rightarrow> nat) \<Rightarrow> u64 \<Rightarrow> string \<Rightarrow> RaftNode \<Rightarrow> raft_res" where
  "handleAppendEntriesReply rand from_peer raw n =
     (if role n \<noteq> Leader then Inr (n, []) else
      let parts = parseParts raw in
      if length parts < 4 then Inr (n, []) else
      bindE (stoull (parts ! 2)) (\<lambda>trm.
      if length parts \<le> 4 then Inl (UB Out_Of_Bounds) else
      bindE (stoull (parts ! 4)) (\<lambda>matchIdx.
        on_AppendEntriesReply rand from_peer trm (parts ! 3 = ''1'') (unat matchIdx) n)))"

definition on_RequestVote :: "(nat \<Rightarrow> nat) \<Rightarrow> u64 \<Rightarrow> u64 \<Rightarrow> nat \<Rightarrow> u64 \<Rightarrow> RaftNode \<Rightarrow> raft_res" where
  "on_RequestVote rand from_peer trm candLastIdx candLastTerm n =
     (if trm < currentTerm n then
        Inr (n, [(from_peer, encodeRequestVoteReply (groupId n) (currentTerm n) False)])
      else
        let n = (if trm > currentTerm n then becomeFollower rand trm n else n);
            logOk = (candLastTerm > lastLogTerm n \<or> candLastTerm = lastLogTerm n \<and> candLastIdx \<ge> lastLogIndex n);
            canVote = (votedFor n = None \<or> votedFor n = Some from_peer) in
        if canVote \<and> logOk then
          let n = resetElectionTimer rand (n\<lparr>votedFor := Some from_peer\<rparr>)
          in Inr (n, [(from_peer, encodeRequestVoteReply (groupId n) (currentTerm n) True)])
        else Inr (n, [(from_peer, encodeRequestVoteReply (groupId n) (currentTerm n) False)]))"

definition handleRequestVote :: "(nat \<Rightarrow> nat) \<Rightarrow> u64 \<Rightarrow> string \<Rightarrow> RaftNode \<Rightarrow> raft_res" where
  "handleRequestVote rand from_peer raw n =
     (let parts = parseParts raw in
      if length parts < 5 then Inr (n, []) else
      bindE (stoull (parts ! 2)) (\<lambda>trm.
      bindE (stoull (parts ! 3)) (\<lambda>candLastIdx.
      bindE (stoull (parts ! 4)) (\<lambda>candLastTerm.
        on_RequestVote rand from_peer trm (unat candLastIdx) candLastTerm n))))"

definition on_RequestVoteReply :: "(nat \<Rightarrow> nat) \<Rightarrow> u64 \<Rightarrow> bool \<Rightarrow> RaftNode \<Rightarrow> raft_res" where
  "on_RequestVoteReply rand trm granted n =
     (if trm > currentTerm n then Inr (becomeFollower rand trm n, [])
      else if granted then
        let n = n\<lparr>voteCount := voteCount n + 1\<rparr> in
        Inr (if voteCount n \<ge> raft_quorum (length (peers n)) then becomeLeader n else n, [])
      else Inr (n, []))"

definition handleRequestVoteReply :: "(nat \<Rightarrow> nat) \<Rightarrow> string \<Rightarrow> RaftNode \<Rightarrow> raft_res" where
  "handleRequestVoteReply rand raw n =
     (if role n \<noteq> Candidate then Inr (n, []) else
      let parts = parseParts raw in
      if length parts < 4 then Inr (n, []) else
      bindE (stoull (parts ! 2)) (\<lambda>trm. on_RequestVoteReply rand trm (parts ! 3 = ''1'') n))"

definition step :: "(nat \<Rightarrow> nat) \<Rightarrow> u64 \<Rightarrow> string \<Rightarrow> RaftNode \<Rightarrow> raft_res" where
  "step rand from_peer raw n =
     (let parts = parseParts raw in
      if parts = [] then Inr (n, [])
      else if parts ! 0 = ''RAFT_AE'' then handleAppendEntries rand from_peer raw n
      else if parts ! 0 = ''RAFT_AER'' then handleAppendEntriesReply rand from_peer raw n
      else if parts ! 0 = ''RAFT_RV'' then handleRequestVote rand from_peer raw n
      else if parts ! 0 = ''RAFT_RVR'' then handleRequestVoteReply rand raw n
      else Inr (n, []))"

end
