(* ===== verification/Raft_Safety.thy ===== *)
theory Raft_Safety
  imports Raft_Node "HOL-Library.Multiset"
begin

text \<open>
  What the Raft node of \<open>Raft_Node\<close> guarantees and what it does not: the messages it prints are read
  back field by field, terms never decrease, a vote is kept within a term (except by a candidate that
  hears from a leader), the commit index advances only with a quorum, a group without peers applies
  its proposals in order and recovers them from its log file; a group with peers never elects a
  leader from the replies its members send.
\<close>

section \<open>Messages are read back\<close>

lemma foldl_command_fields:
  "foldl (\<lambda>s e. s @ ''+'' @ command e @ crlf) s es = s @ concat (map (field \<circ> command) es)"
  by (induction es arbitrary: s) (simp_all add: field_def)

lemma parse_AppendEntriesReply:
  "parseParts (encodeAppendEntriesReply gid trm success idx) =
     [''RAFT_AER'', to_string (unat gid), to_string (unat trm), if success then ''+1'' else ''+0'', to_string idx]"
proof -
  have "encodeAppendEntriesReply gid trm success idx = ''*'' @ to_string 5 @ crlf @ concat (map field
      [''RAFT_AER'', to_string (unat gid), to_string (unat trm), if success then ''+1'' else ''+0'', to_string idx])"
    by (simp add: encodeAppendEntriesReply_def field_def to_string.simps [of 5])
  then show ?thesis by (simp only:) (rule parse_message, auto)
qed

lemma parse_RequestVoteReply:
  "parseParts (encodeRequestVoteReply gid trm granted) =
     [''RAFT_RVR'', to_string (unat gid), to_string (unat trm), if granted then ''+1'' else ''+0'']"
proof -
  have "encodeRequestVoteReply gid trm granted = ''*'' @ to_string 4 @ crlf @ concat (map field
      [''RAFT_RVR'', to_string (unat gid), to_string (unat trm), if granted then ''+1'' else ''+0''])"
    by (simp add: encodeRequestVoteReply_def field_def to_string.simps [of 4])
  then show ?thesis by (simp only:) (rule parse_message, auto)
qed

lemma parse_RequestVote:
  "parseParts (encodeRequestVote gid trm lastIdx lastTerm) =
     [''RAFT_RV'', to_string (unat gid), to_string (unat trm), to_string lastIdx, to_string (unat lastTerm)]"
proof -
  have "encodeRequestVote gid trm lastIdx lastTerm = ''*'' @ to_string 5 @ crlf @ concat (map field
      [''RAFT_RV'', to_string (unat gid), to_string (unat trm), to_string lastIdx, to_string (unat lastTerm)])"
    by (simp add: encodeRequestVote_def field_def to_string.simps [of 5])
  then show ?thesis by (simp only:) (rule parse_message, auto)
qed

lemma encodeAppendEntries_fields:
  "encodeAppendEntries gid trm prevIdx prevTerm leaderCommit es = ''*'' @ to_string (7 + length es) @ crlf @
     concat (map field ([''RAFT_AE'', to_string (unat gid), to_string (unat trm), to_string prevIdx,
       to_string (unat prevTerm), to_string leaderCommit, to_string (length es)] @ map command es))"
  unfolding encodeAppendEntries_def Let_def foldl_command_fields by (simp add: field_def o_def)

lemma parse_AppendEntries:
  assumes "\<forall>e\<in>set es. CHR 0x0D \<notin> set (command e)"
  shows "parseParts (encodeAppendEntries gid trm prevIdx prevTerm leaderCommit es) =
    [''RAFT_AE'', to_string (unat gid), to_string (unat trm), to_string prevIdx, to_string (unat prevTerm),
     to_string leaderCommit, to_string (length es)] @ map command es"
  unfolding encodeAppendEntries_fields by (rule parse_message) (use assms in auto)

text \<open>Whatever the commands are, the first field is the tag.\<close>

lemma parse_AppendEntries_tag:
  "\<exists>ps. parseParts (encodeAppendEntries gid trm prevIdx prevTerm leaderCommit es) = ''RAFT_AE'' # ps"
proof -
  have "parseParts (''*'' @ to_string k @ crlf @ field ''RAFT_AE'' @ rest) = ''RAFT_AE'' # parseParts rest" for k rest
    using parse_line [of "''*'' @ to_string k" "field ''RAFT_AE'' @ rest"] parse_fields [of "[''RAFT_AE'']" rest] by simp
  then show ?thesis unfolding encodeAppendEntries_fields by simp
qed

section \<open>Frame lemmas\<close>

lemma appendToDisk_frame [simp]:
  "currentTerm (appendToDisk e n) = currentTerm n" "votedFor (appendToDisk e n) = votedFor n"
  "rlog (appendToDisk e n) = rlog n" "commitIndex (appendToDisk e n) = commitIndex n"
  "lastApplied (appendToDisk e n) = lastApplied n" "role (appendToDisk e n) = role n"
  "peers (appendToDisk e n) = peers n" "groupId (appendToDisk e n) = groupId n" "selfId (appendToDisk e n) = selfId n"
  "disk (appendToDisk e n) @ diskBuf (appendToDisk e n) = disk n @ diskBuf n @ log_line e"
  by (simp_all add: appendToDisk_def Let_def)

lemma flushDisk_frame [simp]:
  "currentTerm (flushDisk n) = currentTerm n" "votedFor (flushDisk n) = votedFor n"
  "rlog (flushDisk n) = rlog n" "commitIndex (flushDisk n) = commitIndex n"
  "lastApplied (flushDisk n) = lastApplied n" "role (flushDisk n) = role n" "peers (flushDisk n) = peers n"
  "electionTimer (flushDisk n) = electionTimer n" "diskBuf (flushDisk n) = []" "disk (flushDisk n) = disk n @ diskBuf n"
  by (simp_all add: flushDisk_def)

lemma rewriteDisk_frame [simp]:
  "currentTerm (rewriteDisk n) = currentTerm n" "votedFor (rewriteDisk n) = votedFor n"
  "rlog (rewriteDisk n) = rlog n" "commitIndex (rewriteDisk n) = commitIndex n" "role (rewriteDisk n) = role n"
  "peers (rewriteDisk n) = peers n" "diskBuf (rewriteDisk n) = diskBuf n"
  by (simp_all add: rewriteDisk_def)

lemma resetElectionTimer_frame [simp]:
  "currentTerm (resetElectionTimer r n) = currentTerm n" "votedFor (resetElectionTimer r n) = votedFor n"
  "rlog (resetElectionTimer r n) = rlog n" "commitIndex (resetElectionTimer r n) = commitIndex n"
  "role (resetElectionTimer r n) = role n" "peers (resetElectionTimer r n) = peers n"
  "lastApplied (resetElectionTimer r n) = lastApplied n" "disk (resetElectionTimer r n) = disk n" "diskBuf (resetElectionTimer r n) = diskBuf n"
  by (simp_all add: resetElectionTimer_def)

lemma becomeFollower_frame [simp]:
  "currentTerm (becomeFollower r t n) = t" "votedFor (becomeFollower r t n) = None"
  "rlog (becomeFollower r t n) = rlog n" "commitIndex (becomeFollower r t n) = commitIndex n"
  "role (becomeFollower r t n) = Follower" "peers (becomeFollower r t n) = peers n"
  "disk (becomeFollower r t n) = disk n" "diskBuf (becomeFollower r t n) = diskBuf n"
  by (simp_all add: becomeFollower_def)

lemma append_entries_frame:
  "append_entries t i cmds (n, b) = (n', b') \<Longrightarrow>
   currentTerm n' = currentTerm n \<and> votedFor n' = votedFor n \<and> commitIndex n' = commitIndex n \<and>
   role n' = role n \<and> peers n' = peers n"
proof (induction cmds arbitrary: i n b)
  case (Cons c cmds)
  from Cons.IH [OF Cons.prems [unfolded append_entries.simps Let_def]] show ?case by auto
qed auto

lemma advanceCommitIndex_frame:
  "advanceCommitIndex n = Inr n' \<Longrightarrow>
   currentTerm n' = currentTerm n \<and> votedFor n' = votedFor n \<and> role n' = role n \<and> peers n' = peers n"
  by (auto simp: advanceCommitIndex_def Let_def split: if_splits)

section \<open>Each message handler\<close>

text \<open>What every handler keeps: the term does not decrease, the peers stay, and within a term a
  vote once given stays.\<close>

definition raft_keeps :: "RaftNode \<Rightarrow> RaftNode \<Rightarrow> bool" where
  "raft_keeps n n' \<longleftrightarrow> currentTerm n \<le> currentTerm n' \<and> peers n' = peers n \<and>
     (currentTerm n' = currentTerm n \<and> role n \<noteq> Candidate \<and> votedFor n \<noteq> None \<longrightarrow> votedFor n' = votedFor n)"

lemma raft_keeps_refl: "raft_keeps n n"
  by (simp add: raft_keeps_def)

lemma raft_keeps_same:
  "currentTerm n' = currentTerm n \<Longrightarrow> peers n' = peers n \<Longrightarrow> votedFor n' = votedFor n \<Longrightarrow> raft_keeps n n'"
  by (simp add: raft_keeps_def)

lemma raft_keeps_newer: "currentTerm n < currentTerm n' \<Longrightarrow> peers n' = peers n \<Longrightarrow> raft_keeps n n'"
  by (auto simp: raft_keeps_def)

lemma if_Inr_cases: "(if c then Inr (a, m) else r) = Inr (b, ms) \<Longrightarrow> b = a \<or> r = Inr (b, ms)"
  by (auto split: if_splits)

lemma accept_entries_frame:
  assumes "accept_entries p parts t i lc n = Inr (n', ms)"
  shows "currentTerm n' = currentTerm n \<and> peers n' = peers n \<and> votedFor n' = votedFor n \<and> role n' = role n"
proof -
  obtain n1 b where n1: "(if length parts > 6 then bindE (stoull (parts ! 6)) (\<lambda>cnt.
        Inr (append_entries t (i + 1) (take (unat cnt) (drop 7 parts)) (n, False))) else Inr (n, False)) = Inr (n1, b)"
      "n' = (let n2 = (if b then rewriteDisk n1 else n1) in
        if lc > commitIndex n2 then n2\<lparr>commitIndex := min lc (lastLogIndex n2)\<rparr> else n2)"
    using assms by (auto simp: accept_entries_def bindE_Inr_iff Let_def)
  have "currentTerm n1 = currentTerm n \<and> peers n1 = peers n \<and> votedFor n1 = votedFor n \<and> role n1 = role n"
    using n1(1) by (auto simp: bindE_Inr_iff split: if_splits dest: append_entries_frame)
  then show ?thesis using n1(2) by (simp add: Let_def)
qed

lemma on_AppendEntries_keeps:
  assumes "on_AppendEntries rand p parts t i pt lc n = Inr (n', ms)"
  shows "raft_keeps n n' \<and> (role n' = Leader \<longrightarrow> role n = Leader)"
proof (cases "t < currentTerm n")
  case True
  with assms show ?thesis by (simp add: on_AppendEntries_def raft_keeps_refl)
next
  case False
  let ?n = "hear_leader rand t n"
  have k: "raft_keeps n ?n" "role ?n = Leader \<longrightarrow> role n = Leader"
    using False by (auto simp: raft_keeps_def hear_leader_def)
  have "n' = ?n \<or> accept_entries p parts t i lc ?n = Inr (n', ms)"
    using assms False by (simp add: on_AppendEntries_def Let_def split: if_splits)
  then show ?thesis
  proof
    assume "accept_entries p parts t i lc ?n = Inr (n', ms)"
    from accept_entries_frame [OF this] k show ?thesis by (simp add: raft_keeps_def)
  qed (use k in simp)
qed

lemma on_AppendEntriesReply_keeps:
  assumes "on_AppendEntriesReply rand p t s i n = Inr (n', ms)"
  shows "raft_keeps n n' \<and> (role n' = Leader \<longrightarrow> role n = Leader)"
proof (cases "t > currentTerm n")
  case True
  with assms show ?thesis by (auto simp: on_AppendEntriesReply_def raft_keeps_newer)
next
  case False
  with assms have "currentTerm n' = currentTerm n \<and> peers n' = peers n \<and> votedFor n' = votedFor n \<and> role n' = role n"
    by (auto simp: on_AppendEntriesReply_def Let_def bindE_Inr_iff split: if_splits dest: advanceCommitIndex_frame)
  then show ?thesis by (simp add: raft_keeps_same)
qed

lemma on_RequestVote_keeps:
  assumes "on_RequestVote rand p t i lt n = Inr (n', ms)"
  shows "raft_keeps n n' \<and> (role n' = Leader \<longrightarrow> role n = Leader)"
proof (cases "t < currentTerm n")
  case True
  with assms show ?thesis by (simp add: on_RequestVote_def raft_keeps_refl)
next
  case False
  show ?thesis
  proof (cases "t > currentTerm n")
    case True
    with assms False show ?thesis
      by (auto simp: on_RequestVote_def Let_def split: if_splits intro!: raft_keeps_newer)
  next
    case eq: False
    with assms False show ?thesis
      by (auto simp: on_RequestVote_def Let_def raft_keeps_def split: if_splits)
  qed
qed

lemma on_RequestVoteReply_keeps:
  assumes "on_RequestVoteReply rand t g n = Inr (n', ms)"
  shows "raft_keeps n n' \<and> (\<not> g \<longrightarrow> role n' = Leader \<longrightarrow> role n = Leader)"
proof (cases "t > currentTerm n")
  case True
  with assms show ?thesis by (auto simp: on_RequestVoteReply_def intro!: raft_keeps_newer)
next
  case False
  with assms show ?thesis
    by (auto simp: on_RequestVoteReply_def becomeLeader_def Let_def raft_keeps_def split: if_splits)
qed

lemma handlers_keep:
  "handleAppendEntries rand p raw n = Inr (n', ms) \<Longrightarrow> raft_keeps n n' \<and> (role n' = Leader \<longrightarrow> role n = Leader)"
  "handleAppendEntriesReply rand p raw n = Inr (n', ms) \<Longrightarrow> raft_keeps n n' \<and> (role n' = Leader \<longrightarrow> role n = Leader)"
  "handleRequestVote rand p raw n = Inr (n', ms) \<Longrightarrow> raft_keeps n n' \<and> (role n' = Leader \<longrightarrow> role n = Leader)"
  "handleRequestVoteReply rand raw n = Inr (n', ms) \<Longrightarrow> raft_keeps n n' \<and>
     (length (parseParts raw) < 4 \<or> parseParts raw ! 3 \<noteq> ''1'' \<longrightarrow> role n' = Leader \<longrightarrow> role n = Leader)"
proof -
  assume "handleAppendEntries rand p raw n = Inr (n', ms)"
  then have "n' = n \<or> (\<exists>parts t i pt lc. on_AppendEntries rand p parts t i pt lc n = Inr (n', ms))"
    unfolding handleAppendEntries_def Let_def by (auto simp: bindE_Inr_iff split: if_splits)
  then show "raft_keeps n n' \<and> (role n' = Leader \<longrightarrow> role n = Leader)"
    using on_AppendEntries_keeps raft_keeps_refl by metis
next
  assume "handleAppendEntriesReply rand p raw n = Inr (n', ms)"
  then have "n' = n \<or> (\<exists>t s i. on_AppendEntriesReply rand p t s i n = Inr (n', ms))"
    unfolding handleAppendEntriesReply_def Let_def by (auto simp: bindE_Inr_iff split: if_splits)
  then show "raft_keeps n n' \<and> (role n' = Leader \<longrightarrow> role n = Leader)"
    using on_AppendEntriesReply_keeps raft_keeps_refl by metis
next
  assume "handleRequestVote rand p raw n = Inr (n', ms)"
  then have "n' = n \<or> (\<exists>t i lt. on_RequestVote rand p t i lt n = Inr (n', ms))"
    unfolding handleRequestVote_def Let_def by (auto simp: bindE_Inr_iff split: if_splits)
  then show "raft_keeps n n' \<and> (role n' = Leader \<longrightarrow> role n = Leader)"
    using on_RequestVote_keeps raft_keeps_refl by metis
next
  assume "handleRequestVoteReply rand raw n = Inr (n', ms)"
  then have "n' = n \<or> length (parseParts raw) \<ge> 4 \<and> (\<exists>t. on_RequestVoteReply rand t (parseParts raw ! 3 = ''1'') n = Inr (n', ms))"
    unfolding handleRequestVoteReply_def Let_def by (auto simp: bindE_Inr_iff split: if_splits)
  then show "raft_keeps n n' \<and> (length (parseParts raw) < 4 \<or> parseParts raw ! 3 \<noteq> ''1'' \<longrightarrow> role n' = Leader \<longrightarrow> role n = Leader)"
  proof (elim disjE conjE exE)
    fix t assume "on_RequestVoteReply rand t (parseParts raw ! 3 = ''1'') n = Inr (n', ms)" "length (parseParts raw) \<ge> 4"
    with on_RequestVoteReply_keeps [OF this(1)] show ?thesis by auto
  qed (simp add: raft_keeps_refl)
qed

text \<open>The replies the peers print never carry the flag the candidate looks for.\<close>

definition vote_recognised :: "string \<Rightarrow> bool" where
  "vote_recognised raw \<longleftrightarrow> length (parseParts raw) \<ge> 4 \<and> parseParts raw ! 0 = ''RAFT_RVR'' \<and> parseParts raw ! 3 = ''1''"

lemma step_keeps:
  assumes "step rand p raw n = Inr (n', ms)"
  shows "raft_keeps n n' \<and> (role n' = Leader \<longrightarrow> role n = Leader \<or> vote_recognised raw)"
proof (cases "parseParts raw = []")
  case True
  with assms show ?thesis by (simp add: step_def raft_keeps_refl)
next
  case ne: False
  let ?tag = "parseParts raw ! 0"
  consider "?tag = ''RAFT_AE''" | "?tag = ''RAFT_AER''" | "?tag = ''RAFT_RV''" | "?tag = ''RAFT_RVR''"
    | "?tag \<notin> {''RAFT_AE'', ''RAFT_AER'', ''RAFT_RV'', ''RAFT_RVR''}" by blast
  then show ?thesis
  proof cases
    case 1
    then show ?thesis using assms ne handlers_keep(1) [of rand p raw n n' ms] by (simp add: step_def)
  next
    case 2
    then show ?thesis using assms ne handlers_keep(2) [of rand p raw n n' ms] by (simp add: step_def)
  next
    case 3
    then show ?thesis using assms ne handlers_keep(3) [of rand p raw n n' ms] by (simp add: step_def)
  next
    case 4
    then show ?thesis using assms ne handlers_keep(4) [of rand raw n n' ms]
      by (auto simp: step_def vote_recognised_def not_less)
  next
    case 5
    then show ?thesis using assms ne by (simp add: step_def raft_keeps_refl)
  qed
qed

section \<open>Runs\<close>

text \<open>The messages a node of this program can send.\<close>

inductive protocol_message :: "string \<Rightarrow> bool" where
  "protocol_message (encodeAppendEntries gid trm prevIdx prevTerm leaderCommit es)"
| "protocol_message (encodeAppendEntriesReply gid trm success matchIdx)"
| "protocol_message (encodeRequestVote gid trm lastIdx lastTerm)"
| "protocol_message (encodeRequestVoteReply gid trm granted)"

text \<open>The states a node with the peers \<open>ps\<close> can reach while its peers run the same program.\<close>

inductive raft_reach :: "(nat \<Rightarrow> nat) \<Rightarrow> u64 list \<Rightarrow> RaftNode \<Rightarrow> bool" for rand ps where
  start: "new_RaftNode rand gid self ps content = Inr n \<Longrightarrow> raft_reach rand ps n"
| ticked: "raft_reach rand ps n \<Longrightarrow> tick rand n = Inr (n', ms) \<Longrightarrow> raft_reach rand ps n'"
| received: "raft_reach rand ps n \<Longrightarrow> protocol_message raw \<Longrightarrow> step rand p raw n = Inr (n', ms) \<Longrightarrow> raft_reach rand ps n'"
| proposed: "raft_reach rand ps n \<Longrightarrow> propose cmd n = Inr (n', ms) \<Longrightarrow> raft_reach rand ps n'"
| applied: "raft_reach rand ps n \<Longrightarrow> takePendingApply n = (n', es) \<Longrightarrow> raft_reach rand ps n'"

lemma protocol_message_not_recognised: "protocol_message raw \<Longrightarrow> \<not> vote_recognised raw"
proof (induction rule: protocol_message.induct)
  case (1 gid trm prevIdx prevTerm leaderCommit es)
  then show ?case using parse_AppendEntries_tag [of gid trm prevIdx prevTerm leaderCommit es]
    by (auto simp: vote_recognised_def)
qed (simp_all add: vote_recognised_def parse_AppendEntriesReply parse_RequestVote parse_RequestVoteReply)

lemma tick_role:
  assumes "tick rand n = Inr (n', ms)"
  shows "peers n' = peers n \<and> (role n' = Leader \<longrightarrow> role n = Leader)"
  using assms by (auto simp: tick_def Let_def becomeCandidate_def bindE_Inr_iff split: if_splits)

lemma propose_role:
  assumes "propose cmd n = Inr (n', ms)"
  shows "peers n' = peers n \<and> role n' = role n"
  using assms by (auto simp: propose_def Let_def bindE_Inr_iff split: if_splits)

lemma new_RaftNode_role:
  assumes "new_RaftNode rand gid self ps content = Inr n"
  shows "peers n = ps \<and> (role n = Leader \<longleftrightarrow> ps = [])"
proof (cases "ps = []")
  case True
  with assms show ?thesis by (auto simp: new_RaftNode_def loadFromDisk_def Let_def bindE_Inr_iff becomeLeader_def)
next
  case False
  with assms show ?thesis by (auto simp: new_RaftNode_def loadFromDisk_def Let_def bindE_Inr_iff)
qed

lemma reach_not_leader: "raft_reach rand ps n \<Longrightarrow> ps \<noteq> [] \<Longrightarrow> peers n = ps \<and> role n \<noteq> Leader"
proof (induction rule: raft_reach.induct)
  case (start gid self content n)
  then show ?case using new_RaftNode_role by blast
next
  case (ticked n n' ms)
  then show ?case using tick_role by metis
next
  case (received n raw p n' ms)
  then show ?case using step_keeps [OF received(3)] protocol_message_not_recognised by (auto simp: raft_keeps_def)
next
  case (proposed n cmd n' ms)
  then show ?case using propose_role by metis
next
  case (applied n n' es)
  then show ?case by (auto simp: takePendingApply_def)
qed

section \<open>Quorums\<close>

text \<open>Two sets of \<open>quorum\<close> members of a group of \<open>size\<close> meet.\<close>

locale majority =
  fixes size quorum :: nat
  assumes majority: "2 * quorum > size"
begin

lemma quorums_meet:
  assumes "finite U" "card U = size" "A \<subseteq> U" "B \<subseteq> U" "card A \<ge> quorum" "card B \<ge> quorum"
  shows "A \<inter> B \<noteq> {}"
proof
  assume "A \<inter> B = {}"
  moreover have "finite A" "finite B" using assms(1,3,4) finite_subset by auto
  ultimately have "card (A \<union> B) = card A + card B" by (simp add: card_Un_disjoint)
  moreover have "card (A \<union> B) \<le> size" using card_mono [of U "A \<union> B"] assms by simp
  ultimately show False using majority assms(5,6) by linarith
qed

end

interpretation odd_group: majority "2 * k + 1" "raft_quorum (2 * k)" for k
  by unfold_locales (simp add: raft_quorum_def)

text \<open>Positions of a descending list: at least \<open>i + 1\<close> elements are as large as the \<open>i\<close>-th.\<close>

lemma rev_sort_count:
  fixes xs :: "nat list"
  assumes "i < length xs"
  shows "length (filter (\<lambda>x. x \<ge> rev (sort xs) ! i) xs) \<ge> Suc i"
proof -
  let ?ys = "rev (sort xs)"
  have s: "sorted_wrt (\<ge>) ?ys" by (simp add: sorted_wrt_rev)
  have "filter (\<lambda>x. x \<ge> ?ys ! i) (take (Suc i) ?ys) = take (Suc i) ?ys"
  proof (rule filter_True, rule ballI)
    fix x assume "x \<in> set (take (Suc i) ?ys)"
    then obtain j where j: "j < Suc i" "j < length ?ys" "x = ?ys ! j" by (auto simp: in_set_conv_nth)
    show "x \<ge> ?ys ! i"
    proof (cases "j = i")
      case False
      then show ?thesis using sorted_wrt_nth_less [OF s, of j i] j assms by simp
    qed (use j in simp)
  qed
  then have "length (filter (\<lambda>x. x \<ge> ?ys ! i) ?ys) \<ge> length (take (Suc i) ?ys)"
    by (metis append_take_drop_id filter_append le_add1 length_append)
  moreover have "length (filter (\<lambda>x. x \<ge> ?ys ! i) ?ys) = length (filter (\<lambda>x. x \<ge> ?ys ! i) xs)"
    by (metis (no_types, lifting) mset_filter mset_rev mset_sort size_mset)
  ultimately show ?thesis using assms by simp
qed

lemma advanceCommitIndex_quorum:
  assumes "advanceCommitIndex n = Inr n'" "commitIndex n' \<noteq> commitIndex n"
  shows "commitIndex n < commitIndex n' \<and> commitIndex n' < length (rlog n) \<and>
    entry_term (rlog n ! commitIndex n') = currentTerm n \<and>
    length (filter (\<lambda>i. i \<ge> commitIndex n') (matchIndex n @ [lastLogIndex n])) \<ge> raft_quorum (length (peers n))"
proof -
  let ?xs = "matchIndex n @ [lastLogIndex n]" and ?q = "raft_quorum (length (peers n))"
  have q: "?q > 0" by (simp add: raft_quorum_def)
  from assms have *: "?q - 1 < length ?xs" "commitIndex n' = rev (sort ?xs) ! (?q - 1)"
      "commitIndex n < commitIndex n'" "commitIndex n' < length (rlog n)" "entry_term (rlog n ! commitIndex n') = currentTerm n"
    by (auto simp: advanceCommitIndex_def Let_def split: if_splits)
  have "length (filter (\<lambda>i. i \<ge> commitIndex n') ?xs) \<ge> Suc (?q - 1)"
    using rev_sort_count [OF *(1)] unfolding *(2) .
  with q * show ?thesis by simp
qed

section \<open>The log file\<close>

lemma getlines_Nil [simp]: "getlines [] = []"
  by (subst getlines.simps) simp

lemma getlines_line:
  assumes "CHR 0x0A \<notin> set w"
  shows "getlines (w @ CHR 0x0A # rest) = w # getlines rest"
proof -
  have "takeWhile (\<lambda>c. c \<noteq> CHR 0x0A) (w @ CHR 0x0A # rest) = w"
    "dropWhile (\<lambda>c. c \<noteq> CHR 0x0A) (w @ CHR 0x0A # rest) = CHR 0x0A # rest"
    using assms by (induction w) auto
  then show ?thesis by (subst getlines.simps) simp
qed

lemma load_line_entry:
  "load_line lg (to_string (unat (entry_term e)) @ '' '' @ command e) = Inr (lg @ [e])"
proof -
  let ?t = "to_string (unat (entry_term e))"
  have b: "CHR '' '' \<notin> set ?t" by (rule to_string_nonmember) simp
  have "takeWhile (\<lambda>c. c \<noteq> CHR '' '') (?t @ CHR '' '' # r) = ?t"
    "dropWhile (\<lambda>c. c \<noteq> CHR '' '') (?t @ CHR '' '' # r) = CHR '' '' # r" for r
    using b by (auto simp: takeWhile_append dropWhile_append)
  then show ?thesis by (simp add: load_line_def)
qed

definition one_line :: "LogEntry \<Rightarrow> bool" where
  "one_line e \<longleftrightarrow> CHR 0x0A \<notin> set (command e)"

lemma load_log_lines:
  assumes "\<forall>e\<in>set es. one_line e"
  shows "foldE load_line lg (getlines (concat (map log_line es))) = Inr (lg @ es)"
  using assms
proof (induction es arbitrary: lg)
  case (Cons e es)
  let ?w = "to_string (unat (entry_term e)) @ '' '' @ command e"
  have "CHR 0x0A \<notin> set ?w"
    using Cons.prems to_string_nonmember [of "CHR 0x0A" "unat (entry_term e)"] by (simp add: one_line_def)
  from getlines_line [OF this, of "concat (map log_line es)"]
  have "getlines (concat (map log_line (e # es))) = ?w # getlines (concat (map log_line es))"
    by (simp add: log_line_def)
  with Cons load_line_entry [of lg e] show ?case by simp
qed simp

lemma new_RaftNode_load:
  assumes "\<forall>e\<in>set es. one_line e"
  shows "\<exists>n. new_RaftNode rand gid self ps (concat (map log_line es)) = Inr n \<and> rlog n = sentinel # es \<and>
    commitIndex n = length es \<and> lastApplied n = 0 \<and> peers n = ps \<and> currentTerm n = 0 \<and>
    role n = (if ps = [] then Leader else Follower) \<and> disk n = concat (map log_line es) \<and> diskBuf n = []"
  using load_log_lines [OF assms, of "[sentinel]"]
  by (simp add: new_RaftNode_def loadFromDisk_def becomeLeader_def sentinel_def)

section \<open>A group of one\<close>

text \<open>A node without peers leads, has committed its whole log and written it out.\<close>

definition solo_ok :: "RaftNode \<Rightarrow> LogEntry list \<Rightarrow> bool" where
  "solo_ok n es \<longleftrightarrow> role n = Leader \<and> peers n = [] \<and> rlog n = sentinel # es \<and> commitIndex n = length es \<and>
     disk n @ diskBuf n = concat (map log_line es)"

lemma solo_propose:
  assumes "solo_ok n es"
  shows "\<exists>n'. propose cmd n = Inr (n', []) \<and> solo_ok n' (es @ [\<lparr>entry_term = currentTerm n, command = cmd\<rparr>]) \<and>
    lastApplied n' = lastApplied n \<and> currentTerm n' = currentTerm n"
  using assms
  by (auto simp: propose_def Let_def solo_ok_def send_to_all_def lastLogIndex_def simp flip: append_assoc)

lemma solo_proposals:
  assumes "solo_ok n es"
  shows "\<exists>n'. foldE (\<lambda>n cmd. bindE (propose cmd n) (\<lambda>(n', _). Inr n')) n cmds = Inr n' \<and>
    solo_ok n' (es @ map (\<lambda>c. \<lparr>entry_term = currentTerm n, command = c\<rparr>) cmds) \<and> lastApplied n' = lastApplied n"
  using assms
proof (induction cmds arbitrary: n es)
  case (Cons c cmds)
  obtain n1 where n1: "propose c n = Inr (n1, [])" "solo_ok n1 (es @ [\<lparr>entry_term = currentTerm n, command = c\<rparr>])"
      "lastApplied n1 = lastApplied n" "currentTerm n1 = currentTerm n"
    using solo_propose [OF Cons.prems, of c] by blast
  from Cons.IH [OF n1(2)] n1 show ?case by simp
qed auto

lemma pending_all:
  assumes "rlog n = sentinel # es" "commitIndex n = length es" "lastApplied n = 0"
  shows "snd (takePendingApply n) = es"
proof -
  have "filter (\<lambda>i. i < Suc (length es)) [Suc 0..<Suc (length es)] = [Suc 0..<Suc (length es)]"
    by (rule filter_True) auto
  moreover have "map (\<lambda>i. (sentinel # es) ! i) [Suc 0..<Suc (length es)] = es"
    by (simp add: map_Suc_upt [symmetric] map_nth o_def del: upt_Suc)
  ultimately show ?thesis using assms by (simp add: takePendingApply_def)
qed

lemma solo_apply: "solo_ok n es \<Longrightarrow> lastApplied n = 0 \<Longrightarrow> snd (takePendingApply n) = es"
  by (simp add: solo_ok_def pending_all)

section \<open>Properties\<close>

text \<open>C15. A group with peers never has a leader: both reply encoders print the flag with a second
  plus sign, so the candidate reads it as the text +1 and never as 1.  In every state a node with
  peers reaches, on whatever messages peers running the same program send, it is not the leader, and
  every proposal is dropped without effect.\<close>

theorem raft_no_leader_with_peers:
  assumes "raft_reach rand ps n" "ps \<noteq> []"
  shows "role n \<noteq> Leader \<and> propose cmd n = Inr (n, [])"
  using reach_not_leader [OF assms] by (simp add: propose_def)

theorem raft_no_leader_with_peers_witness:
  "\<exists>n n'. new_RaftNode (\<lambda>_. 0) 1 2 [3] [] = Inr n \<and> tick (\<lambda>_. 0) n = Inr (n', []) \<and>
     role n' \<noteq> Leader \<and> propose ''SET k v'' n' = Inr (n', [])"
proof -
  obtain n where n: "new_RaftNode (\<lambda>_. 0) 1 2 [3] [] = Inr n" "role n = Follower" "electionTimer n = 150" "diskBuf n = []"
    by (simp add: new_RaftNode_def loadFromDisk_def sentinel_def resetElectionTimer_def)
  obtain n' where n': "tick (\<lambda>_. 0) n = Inr (n', [])" using n(2-4) by (simp add: tick_def flushDisk_def)
  have "raft_reach (\<lambda>_. 0) [3] n'" using n(1) n' raft_reach.start raft_reach.ticked by blast
  from raft_no_leader_with_peers [OF this, of "''SET k v''"] n(1) n' show ?thesis by auto
qed

text \<open>The other messages keep Raft's basic promises, whatever text arrives: a step never lowers
  the term, never changes the peers, and within a term a node that is not a candidate keeps the vote
  it has given.\<close>

theorem raft_step_keeps_term_and_vote:
  assumes "step rand p raw n = Inr (n', ms)"
  shows "currentTerm n \<le> currentTerm n' \<and> peers n' = peers n \<and>
    (currentTerm n' = currentTerm n \<and> role n \<noteq> Candidate \<and> votedFor n \<noteq> None \<longrightarrow> votedFor n' = votedFor n)"
  using step_keeps [OF assms] by (simp add: raft_keeps_def)

definition example_node :: "raft_role \<Rightarrow> u64 \<Rightarrow> u64 option \<Rightarrow> u64 list \<Rightarrow> LogEntry list \<Rightarrow> RaftNode" where
  "example_node r trm v ps lg = \<lparr>currentTerm = trm, votedFor = v, rlog = lg, commitIndex = 0, lastApplied = 0,
     role = r, groupId = 1, selfId = 2, peers = ps, nextIndex = replicate (length ps) 1,
     matchIndex = replicate (length ps) 0, voteCount = 1, electionTimer = 9, heartbeatTimer = 0, draws = 0,
     disk = concat (map log_line (tl lg)), diskBuf = []\<rparr>"

lemma step_RequestVote:
  "lastIdx < 2 ^ 64 \<Longrightarrow> step rand p (encodeRequestVote gid trm lastIdx lastTerm) n = on_RequestVote rand p trm lastIdx lastTerm n"
  by (simp add: step_def handleRequestVote_def parse_RequestVote stoull_to_string unat_of_nat take_bit_nat_eq_self)

lemma step_AppendEntries:
  assumes "prevIdx < 2 ^ 64" "leaderCommit < 2 ^ 64" "\<forall>e\<in>set es. CHR 0x0D \<notin> set (command e)"
  shows "step rand p (encodeAppendEntries gid trm prevIdx prevTerm leaderCommit es) n =
    on_AppendEntries rand p (parseParts (encodeAppendEntries gid trm prevIdx prevTerm leaderCommit es))
      trm prevIdx prevTerm leaderCommit n"
  using assms
  by (simp add: step_def handleAppendEntries_def parse_AppendEntries stoull_to_string unat_of_nat take_bit_nat_eq_self)

theorem raft_step_keeps_term_and_vote_witness:
  "\<exists>n' ms. step (\<lambda>_. 0) 4 (encodeRequestVote 1 5 0 0) (example_node Follower 5 (Some 3) [3, 4] [sentinel]) = Inr (n', ms) \<and>
     votedFor n' = Some 3"
proof -
  let ?n = "example_node Follower 5 (Some 3) [3, 4] [sentinel]"
  obtain n' ms where s: "step (\<lambda>_. 0) 4 (encodeRequestVote 1 5 0 0) ?n = Inr (n', ms)" "currentTerm n' = 5"
    by (simp add: step_RequestVote on_RequestVote_def example_node_def)
  from raft_step_keeps_term_and_vote [OF s(1)] s show ?thesis by (simp add: example_node_def)
qed

text \<open>A candidate can vote twice in one term: it has voted for itself, an \<open>AppendEntries\<close> message
  of the same term makes it a follower and clears the vote, and it then grants its vote in that term
  to another node.\<close>

theorem raft_candidate_votes_twice:
  "\<exists>n1 n2 m1. tick (\<lambda>_. 0) ((example_node Follower 4 None [3, 4] [sentinel])\<lparr>electionTimer := 1\<rparr>) = Inr (n1, m1) \<and>
     role n1 = Candidate \<and> currentTerm n1 = 5 \<and> votedFor n1 = Some 2 \<and>
     bindE (step (\<lambda>_. 0) 3 (encodeAppendEntries 1 5 0 0 0 []) n1) (\<lambda>(n, _).
       step (\<lambda>_. 0) 4 (encodeRequestVote 1 5 0 0) n) = Inr (n2, [(4, encodeRequestVoteReply 1 5 True)]) \<and>
     currentTerm n2 = 5 \<and> votedFor n2 = Some 4"
  by (simp add: tick_def flushDisk_def example_node_def becomeCandidate_def resetElectionTimer_def step_AppendEntries
      step_RequestVote on_AppendEntries_def on_RequestVote_def hear_leader_def becomeFollower_def accept_entries_def
      parse_AppendEntries sentinel_def lastLogTerm_def lastLogIndex_def stoull_to_string Let_def)


definition replicated_node :: RaftNode where
  "replicated_node = (example_node Leader 5 None [3, 4] [sentinel, \<lparr>entry_term = 5, command = ''SET k v''\<rparr>])\<lparr>matchIndex := [1, 0]\<rparr>"


text \<open>In a group of even size the quorum is not a majority: with one peer the leader alone is a
  quorum, so an entry that no other node holds is committed as soon as any reply is processed.\<close>

theorem raft_pair_commits_alone:
  assumes "length (peers n) = 1" "length (matchIndex n) = 1" "matchIndex n ! 0 \<le> lastLogIndex n"
    and "commitIndex n < lastLogIndex n" "entry_term (last (rlog n)) = currentTerm n"
  shows "2 * raft_quorum (length (peers n)) \<le> length (peers n) + 1 \<and>
    advanceCommitIndex n = Inr (n\<lparr>commitIndex := lastLogIndex n\<rparr>)"
proof -
  obtain m where m: "matchIndex n = [m]" using assms(2) by (cases "matchIndex n") auto
  have "rlog n \<noteq> []" using assms(4) by (auto simp: lastLogIndex_def)
  then have l: "lastLogIndex n < length (rlog n)" "rlog n ! lastLogIndex n = last (rlog n)"
    by (auto simp: lastLogIndex_def last_conv_nth)
  have "rev (sort [m, lastLogIndex n]) ! 0 = lastLogIndex n" using assms(3) m by (simp add: insort_key.simps)
  with m l assms show ?thesis by (simp add: advanceCommitIndex_def raft_quorum_def)
qed

theorem raft_pair_commits_alone_witness:
  "advanceCommitIndex (example_node Leader 5 None [3] [sentinel, \<lparr>entry_term = 5, command = ''SET k v''\<rparr>]) =
   Inr ((example_node Leader 5 None [3] [sentinel, \<lparr>entry_term = 5, command = ''SET k v''\<rparr>])\<lparr>commitIndex := 1\<rparr>)"
  using raft_pair_commits_alone [of "example_node Leader 5 None [3] [sentinel, \<lparr>entry_term = 5, command = ''SET k v''\<rparr>]"]
  by (simp add: example_node_def lastLogIndex_def)

text \<open>C32. A group without peers is a durable log.  From a log file with the entries \<open>es\<close>, the node
  starts as the leader; every proposal is accepted and committed; applying hands out the old and the
  new commands exactly once and in order; and a node started from what was written out (file and
  buffer) applies the same entries again.  Commands must not contain a line feed.\<close>

theorem raft_solo_durable:
  assumes "\<forall>e\<in>set es. one_line e" "\<forall>c\<in>set cmds. CHR 0x0A \<notin> set c"
  shows "\<exists>n n' es' r. new_RaftNode rand gid self [] (concat (map log_line es)) = Inr n \<and>
    foldE (\<lambda>n cmd. bindE (propose cmd n) (\<lambda>(n', _). Inr n')) n cmds = Inr n' \<and>
    snd (takePendingApply n') = es @ es' \<and> map command es' = cmds \<and>
    new_RaftNode rand gid self [] (disk (flushDisk n')) = Inr r \<and> snd (takePendingApply r) = es @ es'"
proof -
  obtain n where n: "new_RaftNode rand gid self [] (concat (map log_line es)) = Inr n" "solo_ok n es" "lastApplied n = 0" "currentTerm n = 0"
    using new_RaftNode_load [OF assms(1), of rand gid self "[]"] by (auto simp: solo_ok_def)
  let ?es = "map (\<lambda>c. \<lparr>entry_term = 0, command = c\<rparr>) cmds :: LogEntry list"
  obtain n' where n': "foldE (\<lambda>n cmd. bindE (propose cmd n) (\<lambda>(n', _). Inr n')) n cmds = Inr n'"
      "solo_ok n' (es @ ?es)" "lastApplied n' = 0"
    using solo_proposals [OF n(2), of cmds] n(3,4) by auto
  have one: "\<forall>e\<in>set (es @ ?es). one_line e" using assms by (auto simp: one_line_def)
  obtain r where r: "new_RaftNode rand gid self [] (concat (map log_line (es @ ?es))) = Inr r" "solo_ok r (es @ ?es)" "lastApplied r = 0"
    using new_RaftNode_load [OF one, of rand gid self "[]"] by (auto simp: solo_ok_def)
  have "disk (flushDisk n') = concat (map log_line (es @ ?es))" using n'(2) by (simp add: solo_ok_def)
  moreover have "map command ?es = cmds" by (simp add: o_def)
  ultimately show ?thesis using n(1) n' r solo_apply [OF n'(2,3)] solo_apply [OF r(2,3)] by metis
qed

theorem raft_solo_durable_witness:
  "\<exists>n n' es' r. new_RaftNode (\<lambda>_. 0) 1 2 [] (concat (map log_line [\<lparr>entry_term = 3, command = ''SET a b''\<rparr>])) = Inr n \<and>
    foldE (\<lambda>n cmd. bindE (propose cmd n) (\<lambda>(n', _). Inr n')) n [''SET k v'', ''DEL a''] = Inr n' \<and>
    snd (takePendingApply n') = [\<lparr>entry_term = 3, command = ''SET a b''\<rparr>] @ es' \<and> map command es' = [''SET k v'', ''DEL a''] \<and>
    new_RaftNode (\<lambda>_. 0) 1 2 [] (disk (flushDisk n')) = Inr r \<and>
    snd (takePendingApply r) = [\<lparr>entry_term = 3, command = ''SET a b''\<rparr>] @ es'"
  by (rule raft_solo_durable) (simp_all add: one_line_def)

text \<open>A follower that overwrites a conflicting entry corrupts its log file: the new entry is put
  into the write buffer, the whole log is then written out, and the next flush appends the entry a
  second time.  After a restart the node has an entry its leader never sent twice.\<close>

theorem raft_truncation_duplicates_entry:
  "\<exists>n ms r. step (\<lambda>_. 0) 3 (encodeAppendEntries 1 6 0 0 0 [\<lparr>entry_term = 6, command = ''SET k new''\<rparr>])
        (example_node Follower 5 None [3, 4] [sentinel, \<lparr>entry_term = 5, command = ''SET k old''\<rparr>]) = Inr (n, ms) \<and>
    rlog n = [sentinel, \<lparr>entry_term = 6, command = ''SET k new''\<rparr>] \<and>
    new_RaftNode (\<lambda>_. 0) 1 2 [3, 4] (disk (flushDisk n)) = Inr r \<and>
    rlog r = [sentinel, \<lparr>entry_term = 6, command = ''SET k new''\<rparr>, \<lparr>entry_term = 6, command = ''SET k new''\<rparr>]"
proof -
  let ?e = "\<lparr>entry_term = 6, command = ''SET k new''\<rparr> :: LogEntry"
  let ?n = "example_node Follower 5 None [3, 4] [sentinel, \<lparr>entry_term = 5, command = ''SET k old''\<rparr>]"
  have parts: "parseParts (encodeAppendEntries 1 6 0 0 0 [?e]) =
      [''RAFT_AE'', to_string 1, to_string 6, to_string 0, to_string 0, to_string 0, to_string 1, ''SET k new'']"
    by (subst parse_AppendEntries) simp_all
  have one: "stoull ''1'' = Inr 1" using stoull_to_string [of 1] by (simp add: to_string.simps)
  obtain n ms where s: "step (\<lambda>_. 0) 3 (encodeAppendEntries 1 6 0 0 0 [?e]) ?n = Inr (n, ms)"
      "rlog n = [sentinel, ?e]" "disk n = log_line ?e" "diskBuf n = log_line ?e"
    by (simp add: step_AppendEntries parts on_AppendEntries_def accept_entries_def hear_leader_def becomeFollower_def
        resetElectionTimer_def example_node_def one Let_def appendToDisk_def log_line_def to_string.simps
        rewriteDisk_def sentinel_def lastLogIndex_def)
  have "\<forall>e\<in>set [?e, ?e]. one_line e" by (simp add: one_line_def)
  from new_RaftNode_load [OF this, of "\<lambda>_. 0" 1 2 "[3, 4]"] s show ?thesis by auto
qed

end
