(* ===== verification/Server_State.thy ===== *)
theory Server_State
  imports Snapshot Node_Utils Raft_Safety
begin

text \<open>
  The state of a server, \<open>server/Server.h\<close>, with the append-only file of \<open>kvstore/AOF.cpp\<close>, the
  outgoing message queue, and the Raft group table of \<open>server/Server.cpp\<close>.  Sockets and epoll are
  not part of it: a message in the queue is a text with the descriptor it goes to, where -1 asks the
  main loop to connect to a node and -2 to rebuild the Raft groups.

  \<open>raft_files\<close> are the log files of the groups that are not open; the file of an open group is the
  \<open>disk\<close> of its node.  \<open>slots\<close> are the elements of a request during its handling: \<open>None\<close> is a
  pointer that was moved out, which \<open>encode\<close> must not meet.
\<close>

section \<open>Append-only file\<close>

definition AOF_BUFFER_SIZE :: nat where
  "AOF_BUFFER_SIZE = 1024 * 1024"

definition AOF_FSYNC_TIME_MS :: int where
  "AOF_FSYNC_TIME_MS = 1000"

text \<open>\<open>aof_file\<close> is the content of the file; times are milliseconds of the steady clock.\<close>

record AOF =
  aof_file :: string
  aof_buffer :: string
  last_fsync :: int

definition aof_flush :: "int \<Rightarrow> AOF \<Rightarrow> AOF" where
  "aof_flush now a = a\<lparr>aof_file := aof_file a @ aof_buffer a, aof_buffer := [], last_fsync := now\<rparr>"

text \<open>The destructor writes what is still buffered.\<close>

definition delete_AOF :: "int \<Rightarrow> AOF \<Rightarrow> AOF" where
  "delete_AOF now a = aof_flush now a"

definition aof_append_text :: "int \<Rightarrow> string \<Rightarrow> AOF \<Rightarrow> AOF" where
  "aof_append_text now text a =
     (let a = a\<lparr>aof_buffer := aof_buffer a @ text\<rparr> in
      if length (aof_buffer a) > AOF_BUFFER_SIZE \<or> now - last_fsync a > AOF_FSYNC_TIME_MS
      then aof_flush now a else a)"

text \<open>The encoder dereferences every element of the request.\<close>

definition encode_slots :: "slots \<Rightarrow> string res" where
  "encode_slots es = (if None \<in> set es then Inl (UB Null_Deref) else Inr (encode (Array (Some (map the es)))))"

definition aof_append :: "int \<Rightarrow> slots \<Rightarrow> AOF \<Rightarrow> AOF res" where
  "aof_append now request a = bindE (encode_slots request) (\<lambda>text. Inr (aof_append_text now text a))"

section \<open>Server\<close>

record Server =
  kvstore :: "RespValue KVStore"
  aof :: AOF
  cluster :: Cluster
  out_queue :: "(string \<times> int) list"
  syncing :: bool
  pending_sync_nodes :: int
  raft_groups :: "(u64, RaftNode) smap"
  masterToGroup :: "(u64, u64) smap"
  groupMembers :: "(u64, u64 list) smap"
  raft_files :: "u64 \<rightharpoonup> string"

definition enqueue_msg :: "string \<Rightarrow> int \<Rightarrow> Server \<Rightarrow> Server" where
  "enqueue_msg text fd s = s\<lparr>out_queue := out_queue s @ [(text, fd)]\<rparr>"

definition markSyncing :: "int \<Rightarrow> Server \<Rightarrow> Server" where
  "markSyncing expected s = s\<lparr>pending_sync_nodes := expected, syncing := True\<rparr>"

definition onSyncDone :: "Server \<Rightarrow> Server" where
  "onSyncDone s =
     (let s' = s\<lparr>pending_sync_nodes := pending_sync_nodes s - 1\<rparr> in
      if pending_sync_nodes s = 1 then s'\<lparr>syncing := False\<rparr> else s')"

text \<open>\<open>getRaftGroup\<close> and \<open>getGroupForKey\<close> return a pointer; here the group's identity.\<close>

definition getRaftGroup :: "u64 \<Rightarrow> Server \<Rightarrow> RaftNode option" where
  "getRaftGroup gid s = map_of (raft_groups s) gid"

definition getGroupForKey :: "string \<Rightarrow> Server \<Rightarrow> u64 option res" where
  "getGroupForKey key s = bindE (queryNode (cluster s) key) (\<lambda>owner.
     Inr (case map_of (masterToGroup s) owner of
       None \<Rightarrow> None
     | Some gid \<Rightarrow> (if getRaftGroup gid s = None then None else Some gid)))"

text \<open>The send callback of a Raft node: a message for a peer without a connection is dropped.\<close>

definition raft_send :: "message \<Rightarrow> Server \<Rightarrow> Server" where
  "raft_send msg s =
     (let fd = getConnection (fst msg) (cluster s) in if fd = -1 then s else enqueue_msg (snd msg) fd s)"

definition run_raft :: "u64 \<Rightarrow> (RaftNode \<Rightarrow> raft_res) \<Rightarrow> Server \<Rightarrow> Server res" where
  "run_raft gid f s = (case getRaftGroup gid s of
     None \<Rightarrow> Inr s
   | Some rn \<Rightarrow> bindE (f rn) (\<lambda>(rn', ms).
       Inr (fold raft_send ms (s\<lparr>raft_groups := map_insert gid rn' (raft_groups s)\<rparr>))))"

text \<open>The callback of \<open>sendDataToNode\<close> for one entry of the store.\<close>

definition send_entry :: "u64 \<Rightarrow> int \<Rightarrow> Server \<Rightarrow> string \<times> RespValue \<Rightarrow> Server res" where
  "send_entry target_uuid target_fd s = (\<lambda>(key, v). bindE (queryNode (cluster s) key) (\<lambda>owner_uuid.
     Inr (if owner_uuid = target_uuid
          then enqueue_msg (''*3'' @ crlf @ ''+SET'' @ crlf @ ''+'' @ key @ crlf @ encode v) target_fd s
          else s)))"

definition sendDataToNode :: "u64 \<Rightarrow> Server \<Rightarrow> Server res" where
  "sendDataToNode target_uuid s =
     (let target_fd = getConnection target_uuid (cluster s) in
      if target_fd = -1 then Inr s
      else bindE (foldE (send_entry target_uuid target_fd) s (kv_entries (kvstore s))) (\<lambda>s.
             Inr (enqueue_msg (''*2'' @ crlf @ ''+SYNCDONE'' @ crlf @ ''+'' @
               to_string (unat (UUID (self_node (cluster s)))) @ crlf) target_fd s)))"

section \<open>Raft groups\<close>

text \<open>The three members of group \<open>gi\<close>: the node with that index and its two successors.\<close>

definition group_of :: "u64 list \<Rightarrow> nat \<Rightarrow> u64 list" where
  "group_of nodeIds gi = map (\<lambda>j. nodeIds ! ((gi + j) mod length nodeIds)) [0, 1, 2]"

text \<open>The groups of the node with index \<open>selfIdx\<close>: its own and those of its two predecessors.\<close>

definition group_indices :: "nat \<Rightarrow> nat \<Rightarrow> nat list" where
  "group_indices selfIdx N = map (\<lambda>d. (selfIdx + 2 * N - d) mod N) [0, 1, 2]"

definition open_group :: "(nat \<Rightarrow> nat) \<Rightarrow> u64 list \<Rightarrow> u64 \<Rightarrow> (u64 \<rightharpoonup> string) \<Rightarrow> Server \<Rightarrow> nat \<Rightarrow> Server res" where
  "open_group rand nodeIds self files s gi =
     (let members = group_of nodeIds gi;
          ps = firsts (filter (\<lambda>u. u \<noteq> self) members);
          gid = of_nat gi :: u64;
          file = (case files gid of None \<Rightarrow> [] | Some c \<Rightarrow> c)
      in bindE (new_RaftNode rand gid self ps file) (\<lambda>rn.
        Inr (s\<lparr>raft_groups := (if map_of (raft_groups s) gid = None then map_insert gid rn (raft_groups s) else raft_groups s),
               groupMembers := map_insert gid (firsts members) (groupMembers s),
               masterToGroup := map_insert (nodeIds ! gi) gid (masterToGroup s)\<rparr>)))"

text \<open>Destroying the nodes closes their files; what is still in a write buffer is lost.\<close>

definition close_groups :: "Server \<Rightarrow> Server" where
  "close_groups s = s\<lparr>raft_files := raft_files s ++ map_of (map (\<lambda>(gid, rn). (gid, disk rn)) (raft_groups s)),
     raft_groups := [], masterToGroup := [], groupMembers := []\<rparr>"

definition initRaftGroups :: "(nat \<Rightarrow> nat) \<Rightarrow> Server \<Rightarrow> Server res" where
  "initRaftGroups rand s =
     (let nodeIds = map fst (topo (cluster s)); N = length nodeIds in
      if N = 0 then Inr s
      else let self = UUID (self_node (cluster s));
               selfIdx = (let i = length (takeWhile (\<lambda>u. u \<noteq> self) nodeIds) in if i < N then i else 0);
               s = close_groups s;
               s = s\<lparr>cluster := fold addNodeToHash nodeIds (cluster s)\<rparr>
           in foldE (open_group rand nodeIds self (raft_files s)) s (group_indices selfIdx N))"

end
