(* ===== verification/Server_Handler.thy ===== *)
theory Server_Handler
  imports Server_State
begin

text \<open>
  The request handlers of \<open>server/Handler.cpp\<close>.  A handler takes the request, the server and the
  clocks it reads (\<open>st\<close> the steady clock of the append-only file, \<open>now\<close> the system clock of the
  cluster), and returns the server with the reply text; an empty reply is not sent.  A handler that
  throws gives no state; in the program the exception ends the pool task, the client gets no reply,
  and what the handler did before it threw stays.
\<close>

section \<open>Data commands\<close>

text \<open>The elements of the request array; a nil array has no value to ask for its size.\<close>

definition request_elements :: "RespValue \<Rightarrow> RespValue list res" where
  "request_elements request = (case request of
     Array (Some es) \<Rightarrow> Inr es
   | Array None \<Rightarrow> Inl (UB Nullopt_Deref)
   | _ \<Rightarrow> Inl (UB Null_Deref))"

definition SET_noAOF :: "RespValue \<Rightarrow> Server \<Rightarrow> (Server \<times> string) res" where
  "SET_noAOF request s = bindE (request_elements request) (\<lambda>es.
     if length es \<noteq> 3 then Inl (Runtime_Error ''SET: Wrong number of arguments'')
     else case es ! 1 of
       SimpleString key \<Rightarrow> bindE (kv_set (kvstore s) key (es ! 2)) (\<lambda>(kv, deleted_key).
         Inr (s\<lparr>kvstore := kv\<rparr>, encode (SimpleString ''OK'')))
     | _ \<Rightarrow> Inl (Runtime_Error ''SET: Key is not a SimpleString''))"

text \<open>The reply that sends the client to the owner of the key.\<close>

definition moved_reply :: "string \<Rightarrow> Server \<Rightarrow> string res" where
  "moved_reply key s = bindE (queryNode (cluster s) key) (\<lambda>master_uuid.
     let addr = (case map_of (topo (cluster s)) master_uuid of
         Some n \<Rightarrow> ip n @ '':'' @ to_string (unat (port n))
       | None \<Rightarrow> to_string (unat master_uuid))
     in Inr (encode (Error (''MOVED '' @ addr))))"

definition value_string :: "RespValue \<Rightarrow> string res" where
  "value_string v = (case v of
     BulkString None \<Rightarrow> Inl (UB Nullopt_Deref)
   | BulkString (Some b) \<Rightarrow> Inr b
   | SimpleString b \<Rightarrow> Inr b
   | _ \<Rightarrow> Inr [])"

definition propose_for :: "string \<Rightarrow> string \<Rightarrow> Server \<Rightarrow> Server res" where
  "propose_for key cmd s = bindE (getGroupForKey key s) (\<lambda>rn. case rn of
     None \<Rightarrow> Inr s
   | Some gid \<Rightarrow> run_raft gid (propose cmd) s)"

definition SET :: "int \<Rightarrow> RespValue \<Rightarrow> Server \<Rightarrow> (Server \<times> string) res" where
  "SET st request s = bindE (request_elements request) (\<lambda>es.
     if length es \<noteq> 3 then Inl (Runtime_Error ''SET: Wrong number of arguments'')
     else case es ! 1 of
       SimpleString key \<Rightarrow>
         bindE (isMasterFor (cluster s) key) (\<lambda>master.
         if \<not> master then bindE (moved_reply key s) (\<lambda>r. Inr (s, r))
         else bindE (value_string (es ! 2)) (\<lambda>val_str.
           bindE (propose_for key (''SET '' @ key @ '' '' @ val_str) s) (\<lambda>s.
           bindE (aof_append st (map Some es) (aof s)) (\<lambda>a.
           bindE (kv_set (kvstore s) key (es ! 2)) (\<lambda>(kv, _).
             Inr (s\<lparr>aof := a, kvstore := kv\<rparr>, encode (SimpleString ''OK'')))))))
     | _ \<Rightarrow> Inl (Runtime_Error ''SET: Key is not a SimpleString''))"

definition GET :: "RespValue \<Rightarrow> Server \<Rightarrow> (Server \<times> string) res" where
  "GET request s = bindE (request_elements request) (\<lambda>es.
     if length es \<noteq> 2 then Inl (Runtime_Error ''GET: Wrong number of arguments'')
     else case es ! 1 of
       SimpleString key \<Rightarrow> bindE (getValue (kvstore s) key) (\<lambda>(kv, result).
         Inr (s\<lparr>kvstore := kv\<rparr>, if result \<noteq> [] then result else encode (BulkString None)))
     | _ \<Rightarrow> Inl (Runtime_Error ''GET: Key is not a SimpleString''))"

definition DEL_noAOF :: "RespValue \<Rightarrow> Server \<Rightarrow> (Server \<times> string) res" where
  "DEL_noAOF request s = bindE (request_elements request) (\<lambda>es.
     if length es \<noteq> 2 then Inl (Runtime_Error ''DEL_noAOF: Usage: DEL key'')
     else case es ! 1 of
       SimpleString key \<Rightarrow> bindE (kv_del (kvstore s) key) (\<lambda>(kv, ret).
         Inr (s\<lparr>kvstore := kv\<rparr>, encode (Integer (of_bool ret))))
     | _ \<Rightarrow> Inl (Runtime_Error ''DEL_noAOF: Key is not a SimpleString''))"

text \<open>\<open>DEL\<close> moves the key out of the request before it appends the request to the file.\<close>

definition DEL :: "int \<Rightarrow> RespValue \<Rightarrow> Server \<Rightarrow> (Server \<times> string) res" where
  "DEL st request s = bindE (request_elements request) (\<lambda>es.
     if length es \<noteq> 2 then Inl (Runtime_Error ''DEL: Usage: DEL key'')
     else case es ! 1 of
       SimpleString key \<Rightarrow>
         bindE (isMasterFor (cluster s) key) (\<lambda>master.
         if \<not> master then bindE (moved_reply key s) (\<lambda>r. Inr (s, r))
         else bindE (propose_for key (''DEL '' @ key) s) (\<lambda>s.
           bindE (aof_append st ((map Some es)[1 := None]) (aof s)) (\<lambda>a.
           bindE (kv_del (kvstore s) key) (\<lambda>(kv, ret).
             Inr (s\<lparr>aof := a, kvstore := kv\<rparr>, encode (Integer (of_bool ret)))))))
     | _ \<Rightarrow> Inl (Runtime_Error ''DEL: Key is not a SimpleString''))"

definition EXIST :: "RespValue \<Rightarrow> Server \<Rightarrow> (Server \<times> string) res" where
  "EXIST request s = bindE (request_elements request) (\<lambda>es.
     if length es \<noteq> 2 then Inl (Runtime_Error ''EXIST: Usage: EXIST key'')
     else case es ! 1 of
       SimpleString key \<Rightarrow> bindE (kv_get (kvstore s) key) (\<lambda>(kv, r).
         Inr (s\<lparr>kvstore := kv\<rparr>, encode (Integer (of_bool (r \<noteq> None)))))
     | _ \<Rightarrow> Inl (Runtime_Error ''EXIST: Key is not a SimpleString''))"

section \<open>Cluster commands\<close>

definition group_text :: "u64 \<times> u64 list \<Rightarrow> string" where
  "group_text = (\<lambda>(gid, members). ''*4'' @ crlf @ ''+'' @ to_string (unat gid) @ crlf @
     concat (map (\<lambda>i. ''+'' @ to_string (unat (if i < length members then members ! i else 0)) @ crlf) [0, 1, 2]))"

definition GETNETWORK :: "Server \<Rightarrow> string" where
  "GETNETWORK s = ''*2'' @ crlf @ encodeTopo (topo (cluster s)) @
     ''*'' @ to_string (length (groupMembers s)) @ crlf @ concat (map group_text (groupMembers s))"

definition broadcast :: "RespValue \<Rightarrow> Server \<Rightarrow> Server" where
  "broadcast request s = fold (\<lambda>(uuid, fd). enqueue_msg (encode request) fd) (connections (cluster s)) s"

definition NODEIN :: "u64 \<Rightarrow> RespValue \<Rightarrow> Server \<Rightarrow> (Server \<times> string) res" where
  "NODEIN now request s = bindE (request_elements request) (\<lambda>es.
     if length es \<noteq> 3 then Inl (Runtime_Error ''NODEIN: Wrong number of arguments'')
     else case es ! 1 of
       SimpleString u \<Rightarrow>
         if findGossip (to_uint64_t u) (cluster s) then Inr (s, [])
         else let s = s\<lparr>cluster := addGossip now (to_uint64_t u) (cluster s)\<rparr>; s = broadcast request s in
         bindE (getNode (es ! 2)) (\<lambda>new_node.
           if getConnection (UUID new_node) (cluster s) \<noteq> -1 then
             let s = s\<lparr>cluster := addTopoNode new_node (addNodeToHash (UUID new_node) (cluster s))\<rparr> in
             bindE (sendDataToNode (UUID new_node) s) (\<lambda>s. Inr (enqueue_msg ''REBUILD_RAFTS'' (-2) s, []))
           else
             let s = enqueue_msg (ip new_node @ '' '' @ to_string (unat (port new_node)) @ '' '' @
                       to_string (unat (UUID new_node))) (-1) s;
                 s = s\<lparr>cluster := addTopoNode new_node (addNodeToHash (UUID new_node) (cluster s))\<rparr>
             in Inr (enqueue_msg ''REBUILD_RAFTS'' (-2) s, []))
     | _ \<Rightarrow> Inl (Runtime_Error ''NODEIN: UUID is not a SimpleString''))"

text \<open>\<open>int uuid = to_uint64_t(...)\<close>: the identity is cut to 32 bits and sign-extended when it is used.\<close>

definition int_of_uuid :: "u64 \<Rightarrow> u64" where
  "int_of_uuid u = scast (ucast u :: u32)"

definition NODEOUT :: "u64 \<Rightarrow> RespValue \<Rightarrow> Server \<Rightarrow> (Server \<times> string) res" where
  "NODEOUT now request s = bindE (request_elements request) (\<lambda>es.
     if length es \<noteq> 3 then Inl (Runtime_Error ''NODEOUT: Wrong number of arguments'')
     else case es ! 1 of
       SimpleString u \<Rightarrow>
         if findGossip (to_uint64_t u) (cluster s) then Inr (s, [])
         else let s = s\<lparr>cluster := addGossip now (to_uint64_t u) (cluster s)\<rparr>; s = broadcast request s in
         (case es ! 2 of
            SimpleString n \<Rightarrow>
              let uuid = int_of_uuid (to_uint64_t n)
              in Inr (s\<lparr>cluster := delConnection uuid (delTopoNode uuid (delNodeToHash uuid (cluster s)))\<rparr>, [])
          | _ \<Rightarrow> Inl (Runtime_Error ''NODEOUT: node_id is not a SimpleString''))
     | _ \<Rightarrow> Inl (Runtime_Error ''NODEOUT:UUID is not a SimpleString''))"

definition handleRaft :: "(nat \<Rightarrow> nat) \<Rightarrow> u64 \<Rightarrow> RespValue \<Rightarrow> int \<Rightarrow> Server \<Rightarrow> (Server \<times> string) res" where
  "handleRaft rand now request fd s = bindE (request_elements request) (\<lambda>es.
     if length es < 2 then Inr (s, [])
     else let gid = (case es ! 1 of SimpleString g \<Rightarrow> to_uint64_t g | _ \<Rightarrow> 0) in
       if getRaftGroup gid s = None then Inr (s, [])
       else let s = s\<lparr>cluster := updateHeartbeat now fd (cluster s)\<rparr> in
         bindE (run_raft gid (step rand (getUuidByFd fd (cluster s)) (encode request)) s) (\<lambda>s. Inr (s, [])))"

definition HEARTBEAT :: "u64 \<Rightarrow> int \<Rightarrow> Server \<Rightarrow> (Server \<times> string) res" where
  "HEARTBEAT now fd s = Inr (s\<lparr>cluster := updateHeartbeat now fd (cluster s)\<rparr>, [])"

definition SYNCDONE :: "RespValue \<Rightarrow> Server \<Rightarrow> (Server \<times> string) res" where
  "SYNCDONE request s = bindE (request_elements request) (\<lambda>es.
     if length es < 2 then Inl (Runtime_Error ''SYNCDONE: missing node UUID'') else Inr (onSyncDone s, []))"

definition HELLO :: "RespValue \<Rightarrow> int \<Rightarrow> Server \<Rightarrow> (Server \<times> string) res" where
  "HELLO request fd s = bindE (request_elements request) (\<lambda>es.
     if length es \<noteq> 2 then Inl (Runtime_Error ''HELLO: Wrong number of arguments'')
     else case es ! 1 of
       SimpleString u \<Rightarrow> Inr (s\<lparr>cluster := addConnection (to_uint64_t u) fd (cluster s)\<rparr>, encode (SimpleString ''OK''))
     | _ \<Rightarrow> Inl (Runtime_Error ''HELLO: UUID is not a SimpleString''))"

section \<open>Dispatch\<close>

definition handle :: "(nat \<Rightarrow> nat) \<Rightarrow> int \<Rightarrow> u64 \<Rightarrow> RespValue \<Rightarrow> int \<Rightarrow> Server \<Rightarrow> (Server \<times> string) res" where
  "handle rand st now request fd s = (case request of
     Array None \<Rightarrow> Inl (UB Nullopt_Deref)
   | Array (Some []) \<Rightarrow> Inl (Runtime_Error ''Empty request!!'')
   | Array (Some (SimpleString c # _)) \<Rightarrow>
       if c = ''SYNCDONE'' then SYNCDONE request s
       else if c = ''HEARTBEAT'' then HEARTBEAT now fd s
       else if c \<in> {''RAFT_AE'', ''RAFT_AER'', ''RAFT_RV'', ''RAFT_RVR''} then handleRaft rand now request fd s
       else if syncing s \<and> c \<in> {''SET'', ''GET'', ''DEL'', ''EXIST''} then
         Inr (s, encode (Error ''LOADING server is syncing, please retry''))
       else if c = ''GET'' then GET request s
       else if c = ''SET'' then SET st request s
       else if c = ''DEL'' then DEL st request s
       else if c = ''EXIST'' then EXIST request s
       else if c = ''NODEIN'' then NODEIN now request s
       else if c = ''NODEOUT'' then NODEOUT now request s
       else if c = ''GETNETWORK'' then Inr (s, GETNETWORK s)
       else if c = ''HELLO'' then HELLO request fd s
       else Inl (Runtime_Error ''Unknown request!!'')
   | Array (Some (_ # _)) \<Rightarrow> Inl (Runtime_Error ''Command is not a SimpleString!!'')
   | SimpleString c \<Rightarrow> (if c = ''OK'' then Inr (s, []) else Inl (Runtime_Error ''Unknown request!''))
   | _ \<Rightarrow> Inl (Runtime_Error ''Unknown request!''))"

definition handle_noAOF :: "RespValue \<Rightarrow> Server \<Rightarrow> (Server \<times> string) res" where
  "handle_noAOF request s = (case request of
     Array None \<Rightarrow> Inl (UB Nullopt_Deref)
   | Array (Some []) \<Rightarrow> Inl (Runtime_Error ''Empty request!!'')
   | Array (Some (SimpleString c # _)) \<Rightarrow>
       if c = ''GET'' then GET request s
       else if c = ''SET'' then SET_noAOF request s
       else if c = ''DEL'' then DEL_noAOF request s
       else if c = ''EXIST'' then EXIST request s
       else Inl (Runtime_Error ''Unknown request!!'')
   | Array (Some (_ # _)) \<Rightarrow> Inl (Runtime_Error ''Command is not a SimpleString!!'')
   | _ \<Rightarrow> Inl (Runtime_Error ''Request is not an Array!!''))"

text \<open>\<open>Server::handleCommand\<close>: the reply goes into the queue for the descriptor it came from.\<close>

definition handleCommand :: "(nat \<Rightarrow> nat) \<Rightarrow> int \<Rightarrow> u64 \<Rightarrow> int \<Rightarrow> RespValue \<Rightarrow> Server \<Rightarrow> Server res" where
  "handleCommand rand st now sock request s =
     bindE (handle rand st now request sock s) (\<lambda>(s, text). Inr (if text = [] then s else enqueue_msg text sock s))"

section \<open>What the handlers change\<close>

lemma aof_append_text_log [simp]:
  "aof_file (aof_append_text st text a) @ aof_buffer (aof_append_text st text a) = aof_file a @ aof_buffer a @ text"
  by (simp add: aof_append_text_def aof_flush_def Let_def)

lemma raft_send_frame [simp]:
  "kvstore (raft_send msg s) = kvstore s" "aof (raft_send msg s) = aof s"
  "cluster (raft_send msg s) = cluster s" "syncing (raft_send msg s) = syncing s"
  by (simp_all add: raft_send_def enqueue_msg_def Let_def)

lemma fold_raft_send_frame [simp]:
  "kvstore (fold raft_send ms s) = kvstore s" "aof (fold raft_send ms s) = aof s"
  "cluster (fold raft_send ms s) = cluster s" "syncing (fold raft_send ms s) = syncing s"
  by (induction ms arbitrary: s) simp_all

lemma run_raft_frame:
  "run_raft gid f s = Inr s' \<Longrightarrow> kvstore s' = kvstore s \<and> aof s' = aof s \<and> cluster s' = cluster s"
  by (auto simp: run_raft_def bindE_Inr_iff split: option.splits)

lemma propose_for_frame:
  "propose_for key cmd s = Inr s' \<Longrightarrow> kvstore s' = kvstore s \<and> aof s' = aof s \<and> cluster s' = cluster s"
  by (auto simp: propose_for_def bindE_Inr_iff run_raft_frame split: option.splits)

lemma enqueue_msg_frame [simp]:
  "kvstore (enqueue_msg text fd s) = kvstore s" "aof (enqueue_msg text fd s) = aof s"
  "cluster (enqueue_msg text fd s) = cluster s"
  by (simp_all add: enqueue_msg_def)

lemma broadcast_frame [simp]:
  "kvstore (broadcast request s) = kvstore s" "aof (broadcast request s) = aof s" "cluster (broadcast request s) = cluster s"
  "syncing (broadcast request s) = syncing s" "masterToGroup (broadcast request s) = masterToGroup s"
proof -
  have frame: "f (fold (\<lambda>(uuid, fd). enqueue_msg m fd) cs s) = f s" if "\<And>m fd s. f (enqueue_msg m fd s) = f s"
    for f :: "Server \<Rightarrow> 'a" and m and cs :: "(u64 \<times> int) list"
    by (induction cs arbitrary: s) (simp_all add: case_prod_unfold that)
  show "kvstore (broadcast request s) = kvstore s" "aof (broadcast request s) = aof s" "cluster (broadcast request s) = cluster s"
    "syncing (broadcast request s) = syncing s" "masterToGroup (broadcast request s) = masterToGroup s"
    unfolding broadcast_def by (rule frame, simp add: enqueue_msg_def)+
qed

lemma encode_slots_all [simp]: "encode_slots (map Some es) = Inr (encode (Array (Some es)))"
  by (simp add: encode_slots_def o_def)

lemma SET_stores:
  assumes "isMasterFor (cluster s) key = Inr True" "value_string v = Inr w"
    and "propose_for key (''SET '' @ key @ '' '' @ w) s = Inr s1" "kv_set (kvstore s1) key v = Inr (kv, ev)"
  shows "SET st (Array (Some [c, SimpleString key, v])) s =
    Inr (s1\<lparr>aof := aof_append_text st (encode (Array (Some [c, SimpleString key, v]))) (aof s1), kvstore := kv\<rparr>,
         encode (SimpleString ''OK''))"
  using assms by (simp add: SET_def request_elements_def aof_append_def encode_slots_def del: encode_Array)

text \<open>A \<open>SET\<close> either redirects and changes nothing, or logs the request and stores the value.\<close>

lemma SET_cases:
  assumes "SET st request s = Inr (s', reply)"
  obtains (Moved) "s' = s"
  | (Stored) c key v where "request = Array (Some [c, SimpleString key, v])"
      "isMasterFor (cluster s) key = Inr True" "reply = encode (SimpleString ''OK'')"
      "aof s' = aof_append_text st (encode request) (aof s)"
      "kv_set (kvstore s) key v = Inr (kvstore s', snd (projr (kv_set (kvstore s) key v)))"
proof -
  obtain es where req: "request = Array (Some es)"
    using assms by (auto simp: SET_def request_elements_def split: RespValue.splits option.splits)
  with assms have len: "length es = 3" by (auto simp: SET_def request_elements_def split: if_splits)
  then obtain c k v where es: "es = [c, k, v]" by (auto simp: eval_nat_numeral length_Suc_conv)
  obtain key where key: "k = SimpleString key"
    using assms req es by (auto simp: SET_def request_elements_def split: RespValue.splits)
  obtain master where master: "isMasterFor (cluster s) key = Inr master"
    using assms req es key by (auto simp: SET_def request_elements_def bindE_Inr_iff)
  show thesis
  proof (cases master)
    case False
    then show thesis
      using assms req es key master Moved by (auto simp: SET_def request_elements_def bindE_Inr_iff)
  next
    case True
    then obtain w s1 kv ev where "value_string v = Inr w"
        "propose_for key (''SET '' @ key @ '' '' @ w) s = Inr s1"
        "kv_set (kvstore s1) key v = Inr (kv, ev)"
        "s' = s1\<lparr>aof := aof_append_text st (encode request) (aof s1), kvstore := kv\<rparr>"
        "reply = encode (SimpleString ''OK'')"
      using assms req es key master
      by (auto simp: SET_def request_elements_def bindE_Inr_iff aof_append_def encode_slots_def)
    with propose_for_frame show thesis
      using req es key master True by (intro Stored [of c key v]) auto
  qed
qed

text \<open>The owner of a key never gets past the log: the key was moved out of the request.\<close>

lemma DEL_eq:
  "DEL st (Array (Some [c, SimpleString key])) s = bindE (isMasterFor (cluster s) key) (\<lambda>master.
     if \<not> master then bindE (moved_reply key s) (\<lambda>r. Inr (s, r))
     else bindE (propose_for key (''DEL '' @ key) s) (\<lambda>_. Inl (UB Null_Deref)))"
  by (simp add: DEL_def request_elements_def aof_append_def encode_slots_def cong: if_cong)

lemma two_elements:
  assumes "DEL st request s = Inr r \<or> GET request s = Inr r \<or> EXIST request s = Inr r"
  obtains c key where "request = Array (Some [c, SimpleString key])"
proof -
  obtain es where req: "request = Array (Some es)"
    using assms by (auto simp: DEL_def GET_def EXIST_def request_elements_def split: RespValue.splits option.splits)
  with assms have "length es = 2" by (auto simp: DEL_def GET_def EXIST_def request_elements_def split: if_splits)
  then obtain c k where es: "es = [c, k]" by (auto simp: eval_nat_numeral length_Suc_conv)
  with req assms obtain key where "k = SimpleString key"
    by (auto simp: DEL_def GET_def EXIST_def request_elements_def split: RespValue.splits)
  with req es that show thesis by simp
qed

lemma DEL_unchanged:
  assumes "DEL st request s = Inr (s', reply)"
  shows "s' = s"
proof -
  obtain c key where "request = Array (Some [c, SimpleString key])"
    using two_elements [of st request s "(s', reply)"] assms by auto
  with assms show ?thesis by (auto simp: DEL_eq bindE_Inr_iff split: if_splits)
qed

lemma GET_frame:
  assumes "GET request s = Inr (s', reply)" "kv_ok (kvstore s)"
  shows "kv_ok (kvstore s') \<and> kv_map (kvstore s') = kv_map (kvstore s) \<and> aof s' = aof s"
proof -
  obtain c key where "request = Array (Some [c, SimpleString key])"
    using two_elements [of _ request s "(s', reply)"] assms(1) by auto
  then obtain kv r where "kv_get (kvstore s) key = Inr (kv, r)" "s' = s\<lparr>kvstore := kv\<rparr>"
    using assms(1) by (auto simp: GET_def request_elements_def getValue_eq bindE_Inr_iff)
  with kv_get_ok [OF assms(2)] show ?thesis by auto
qed

lemma EXIST_frame:
  assumes "EXIST request s = Inr (s', reply)" "kv_ok (kvstore s)"
  shows "kv_ok (kvstore s') \<and> kv_map (kvstore s') = kv_map (kvstore s) \<and> aof s' = aof s"
proof -
  obtain c key where "request = Array (Some [c, SimpleString key])"
    using two_elements [of _ request s "(s', reply)"] assms(1) by auto
  then obtain kv r where "kv_get (kvstore s) key = Inr (kv, r)" "s' = s\<lparr>kvstore := kv\<rparr>"
    using assms(1) by (auto simp: EXIST_def request_elements_def bindE_Inr_iff)
  with kv_get_ok [OF assms(2)] show ?thesis by auto
qed

lemma sendDataToNode_frame:
  assumes "sendDataToNode target_uuid s = Inr s'"
  shows "kvstore s' = kvstore s \<and> aof s' = aof s"
proof -
  have "kvstore t' = kvstore t \<and> aof t' = aof t" if "foldE (send_entry u fd) t kvs = Inr t'" for u fd t t' kvs
    by (rule foldE_invariant [OF that]) (auto simp: send_entry_def bindE_Inr_iff)
  with assms show ?thesis
    by (fastforce simp: sendDataToNode_def Let_def bindE_Inr_iff split: if_splits)
qed

lemma NODEIN_frame: "NODEIN now request s = Inr (s', reply) \<Longrightarrow> kvstore s' = kvstore s \<and> aof s' = aof s"
  by (auto simp: NODEIN_def Let_def elim!: bindE_InrE dest!: sendDataToNode_frame split: RespValue.splits if_splits)

lemma NODEOUT_frame: "NODEOUT now request s = Inr (s', reply) \<Longrightarrow> kvstore s' = kvstore s \<and> aof s' = aof s"
  by (auto simp: NODEOUT_def Let_def elim!: bindE_InrE split: RespValue.splits if_splits)

lemma handleRaft_frame: "handleRaft rand now request fd s = Inr (s', reply) \<Longrightarrow> kvstore s' = kvstore s \<and> aof s' = aof s"
  by (auto simp: handleRaft_def Let_def elim!: bindE_InrE dest!: run_raft_frame split: RespValue.splits if_splits)

lemma SYNCDONE_frame: "SYNCDONE request s = Inr (s', reply) \<Longrightarrow> kvstore s' = kvstore s \<and> aof s' = aof s"
  by (auto simp: SYNCDONE_def onSyncDone_def Let_def elim!: bindE_InrE split: if_splits)

lemma HELLO_frame: "HELLO request fd s = Inr (s', reply) \<Longrightarrow> kvstore s' = kvstore s \<and> aof s' = aof s"
  by (auto simp: HELLO_def elim!: bindE_InrE split: RespValue.splits if_splits)

lemma HEARTBEAT_frame: "HEARTBEAT now fd s = Inr (s', reply) \<Longrightarrow> kvstore s' = kvstore s \<and> aof s' = aof s"
  by (auto simp: HEARTBEAT_def)

lemma DEL_frame: "DEL st request s = Inr (s', reply) \<Longrightarrow> kvstore s' = kvstore s \<and> aof s' = aof s"
  by (drule DEL_unchanged) simp

lemmas handler_frames = DEL_frame NODEIN_frame NODEOUT_frame handleRaft_frame SYNCDONE_frame HELLO_frame HEARTBEAT_frame

text \<open>The command word of a request.\<close>

definition command_is :: "string \<Rightarrow> RespValue \<Rightarrow> bool" where
  "command_is c request \<longleftrightarrow> (\<exists>es. request = Array (Some (SimpleString c # es)))"

lemma command_is_simps [simp]:
  "command_is c (Array (Some (SimpleString d # es))) \<longleftrightarrow> c = d"
  by (auto simp: command_is_def)

lemma if_eqE:
  assumes "(if c then x else y) = z"
  obtains "c" "x = z" | "\<not> c" "y = z"
  using assms by (cases c) auto

lemma handle_cases:
  assumes "handle rand st now request fd s = Inr (s', reply)"
  obtains (Unchanged) "kvstore s' = kvstore s" "aof s' = aof s"
  | (Set) "command_is ''SET'' request" "SET st request s = Inr (s', reply)"
  | (Get) "command_is ''GET'' request" "GET request s = Inr (s', reply)"
  | (Exist) "command_is ''EXIST'' request" "EXIST request s = Inr (s', reply)"
proof (cases "\<exists>c es. request = Array (Some (SimpleString c # es))")
  case False
  then have "s' = s" using assms by (auto simp: handle_def split: RespValue.splits option.splits list.splits if_splits)
  then show thesis using Unchanged by simp
next
  case True
  then obtain c es where req: "request = Array (Some (SimpleString c # es))" by blast
  show thesis
  proof (cases "c \<in> {''SET'', ''GET'', ''EXIST''}")
    case True
    have "s' = s" if "syncing s" using assms that True unfolding req handle_def by auto
    moreover have "SET st request s = Inr (s', reply)" if "\<not> syncing s" "c = ''SET''" using assms that unfolding req handle_def by simp
    moreover have "GET request s = Inr (s', reply)" if "\<not> syncing s" "c = ''GET''" using assms that unfolding req handle_def by simp
    moreover have "EXIST request s = Inr (s', reply)" if "\<not> syncing s" "c = ''EXIST''" using assms that unfolding req handle_def by simp
    ultimately show thesis using True Unchanged Set Get Exist req by (metis command_is_simps insertE singletonD)
  next
    case False
    then have "SYNCDONE request s = Inr (s', reply) \<or> HEARTBEAT now fd s = Inr (s', reply) \<or>
        handleRaft rand now request fd s = Inr (s', reply) \<or> s' = s \<or> DEL st request s = Inr (s', reply) \<or>
        NODEIN now request s = Inr (s', reply) \<or> NODEOUT now request s = Inr (s', reply) \<or>
        HELLO request fd s = Inr (s', reply)"
      using assms unfolding req handle_def RespValue.case option.case list.case
      by (elim if_eqE) simp_all
    then have "kvstore s' = kvstore s \<and> aof s' = aof s"
      by (elim disjE) (simp_all add: handler_frames)
    then show thesis using Unchanged by simp
  qed
qed

end
