(* ===== verification/Aof_Recovery.thy ===== *)
theory Aof_Recovery
  imports Server_Handler
begin

text \<open>
  Recovery from the append-only file, \<open>AOF::recover\<close> of \<open>kvstore/AOF.cpp\<close>: the file is parsed in
  blocks and every complete command goes through \<open>handle_noAOF\<close>.  The lemmas show that the cuts
  between blocks do not matter and that replaying what the handlers logged rebuilds the store.
\<close>

section \<open>Definitions\<close>

text \<open>\<open>AOF::recover\<close>: the file is read in blocks of the buffer size; after each block the complete
  commands are executed.\<close>

function blocks :: "string \<Rightarrow> string list" where
  "blocks s = (if s = [] then [] else take AOF_BUFFER_SIZE s # blocks (drop AOF_BUFFER_SIZE s))"
  by auto
termination
  by (relation "measure length") (simp_all add: AOF_BUFFER_SIZE_def)

declare blocks.simps [simp del]

definition run_noAOF :: "Server \<Rightarrow> RespValue \<Rightarrow> Server res" where
  "run_noAOF s cmd = bindE (handle_noAOF cmd s) (\<lambda>(s, _). Inr s)"

definition recover_block :: "RespParser \<times> Server \<Rightarrow> string \<Rightarrow> (RespParser \<times> Server) res" where
  "recover_block = (\<lambda>(p, s) block. bindE (append p block) (\<lambda>p.
     bindE (foldE run_noAOF s (message_queue p)) (\<lambda>s. Inr (p\<lparr>message_queue := []\<rparr>, s))))"

definition recover :: "Server \<Rightarrow> Server res" where
  "recover s = bindE (foldE recover_block (new_RespParser, s) (blocks (aof_file (aof s)))) (\<lambda>(p, s). Inr s)"

text \<open>The constructors: \<open>opened\<close> tells whether one of the two attempts to open the file succeeds,
  \<open>content\<close> is what the file holds.  \<open>Server::Server\<close> loads the snapshot files and then the log;
  \<open>uuid\<close> is what \<open>generateUUID\<close> draws, \<open>logs\<close> are the Raft log files on the disk.\<close>

definition new_AOF :: "bool \<Rightarrow> string \<Rightarrow> int \<Rightarrow> AOF res" where
  "new_AOF opened content st =
     (if opened then Inr \<lparr>aof_file = content, aof_buffer = [], last_fsync = st\<rparr>
      else Inl (Runtime_Error ''AOF open failed.''))"

definition idle_Server :: "AOF \<Rightarrow> u64 \<Rightarrow> string \<Rightarrow> u16 \<Rightarrow> (u64 \<rightharpoonup> string) \<Rightarrow> Server" where
  "idle_Server a uuid addr p logs = \<lparr>kvstore = new_KVStore SHARD_COUNT, aof = a,
     cluster = new_Cluster_at uuid (p + 1) addr, out_queue = [], syncing = False, pending_sync_nodes = 0,
     raft_groups = [], masterToGroup = [], groupMembers = [], raft_files = logs\<rparr>"

definition new_Server ::
    "bool \<Rightarrow> directory \<Rightarrow> string \<Rightarrow> int \<Rightarrow> u64 \<Rightarrow> string \<Rightarrow> u16 \<Rightarrow> (u64 \<rightharpoonup> string) \<Rightarrow> Server res" where
  "new_Server opened dir content st uuid addr p logs =
     bindE (new_AOF opened content st) (\<lambda>a.
     let s = idle_Server a uuid addr p logs in
     bindE (kv_readfromfile dir (kvstore s)) (\<lambda>kv. recover (s\<lparr>kvstore := kv\<rparr>)))"

text \<open>\<open>snapshotLoop\<close>: the child writes the store as it was at the fork; when the child has ended, or
  the fork failed, the log file is cut to length zero.  The buffer of the log is not touched.\<close>

definition snapshot_truncate :: "Server \<Rightarrow> Server" where
  "snapshot_truncate s = s\<lparr>aof := (aof s)\<lparr>aof_file := []\<rparr>\<rparr>"

section \<open>Blocks do not matter\<close>

lemma concat_blocks [simp]: "concat (blocks s) = s"
  by (induction s rule: blocks.induct) (subst blocks.simps, simp)

lemma recover_block_run:
  assumes "append p (concat bs) = Inr q" "message_queue p = []"
  shows "foldE recover_block (p, s) bs =
    bindE (foldE run_noAOF s (message_queue q)) (\<lambda>s. Inr (q\<lparr>message_queue := []\<rparr>, s))"
  using assms
proof (induction bs arbitrary: p q s)
  case Nil
  then show ?case by simp
next
  case (Cons b bs)
  then obtain p1 where p1: "append p b = Inr p1" "append p1 (concat bs) = Inr q"
    by (auto simp: append_append bindE_Inr_iff)
  let ?p = "p1\<lparr>message_queue := []\<rparr>"
  have "append (requeue (message_queue p1) ?p) (concat bs) = Inr q" using p1(2) by simp
  then obtain q' where q': "append ?p (concat bs) = Inr q'" "q = requeue (message_queue p1) q'"
    unfolding append_requeue by (auto simp: bindE_Inr_iff)
  have "foldE recover_block (?p, s1) bs =
      bindE (foldE run_noAOF s1 (message_queue q')) (\<lambda>s. Inr (q\<lparr>message_queue := []\<rparr>, s))" for s1
    using Cons.IH [OF q'(1), of s1] q'(2) by simp
  then show ?case
    by (simp add: recover_block_def p1(1) q'(2) foldE_append bindE_assoc cong: bindE_cong)
qed

lemma recover_eq:
  assumes "append new_RespParser (aof_file (aof s)) = Inr q"
  shows "recover s = foldE run_noAOF s (message_queue q)"
  using recover_block_run [of new_RespParser "blocks (aof_file (aof s))" q s] assms
  by (simp add: recover_def bindE_assoc)

text \<open>A record that was cut off adds nothing to the queue.\<close>

lemma append_torn:
  assumes "between_messages p" "resp_ok r" "encode r = t @ u" "u \<noteq> []"
  shows "\<exists>q. append p t = Inr q \<and> message_queue q = message_queue p"
proof -
  obtain p' where p': "append p (encode r) = Inr p'" "between_messages p'" "message_queue p' = message_queue p @ [r]"
    using parse_one [OF assms(1,2)] by blast
  then obtain q where q: "append p t = Inr q" "append q u = Inr p'"
    using assms(3) by (auto simp: append_append bindE_Inr_iff)
  obtain vs ws where "message_queue q = message_queue p @ vs" "message_queue p' = message_queue q @ ws"
    using append_queue [OF q(1)] append_queue [OF q(2)] by metis
  moreover have "message_queue p' \<noteq> message_queue q"
    using append_progress [OF q(2) assms(4)] p'(2) by blast
  ultimately have "vs = []" using p'(3) by (cases vs; cases ws) auto
  with q(1) \<open>message_queue q = message_queue p @ vs\<close> show ?thesis by simp
qed

lemma recover_torn:
  assumes "aof_file (aof s) = concat (map encode reqs) @ t" "list_all resp_ok reqs"
    and "t = [] \<or> (\<exists>r u. resp_ok r \<and> encode r = t @ u \<and> u \<noteq> [])"
  shows "recover s = foldE run_noAOF s reqs"
proof -
  obtain p where p: "append new_RespParser (concat (map encode reqs)) = Inr p" "between_messages p"
      "message_queue p = reqs"
    using resp.run_stream [OF between_messages_new assms(2)] by auto
  have "\<exists>q. append p t = Inr q \<and> message_queue q = reqs"
    using assms(3)
  proof (elim disjE exE conjE)
    fix r u assume "resp_ok r" "encode r = t @ u" "u \<noteq> []"
    then show ?thesis using append_torn [OF p(2)] p(3) by metis
  qed (simp add: p(3))
  then obtain q where "append p t = Inr q" "message_queue q = reqs" by blast
  with p(1) show ?thesis using recover_eq [of s q] by (simp add: assms(1) append_append)
qed

section \<open>What a run of the handlers leaves in the log\<close>

definition log_text :: "AOF \<Rightarrow> string" where
  "log_text a = aof_file a @ aof_buffer a"

text \<open>A log that is closed in order is complete on disk.\<close>

lemma delete_AOF_complete: "aof_file (delete_AOF now a) = log_text a" "aof_buffer (delete_AOF now a) = []"
  by (simp_all add: delete_AOF_def aof_flush_def log_text_def)

lemma log_text_append [simp]: "log_text (aof_append_text st m a) = log_text a @ m"
  by (simp add: log_text_def)

lemma log_text_flush [simp]: "aof_file (aof_flush now a) = log_text a"
  by (simp add: log_text_def aof_flush_def)

type_synonym request_event = "int \<times> u64 \<times> int \<times> RespValue"

text \<open>Requests handled one after the other, each with the clocks and the descriptor it came from.\<close>

definition serve :: "(nat \<Rightarrow> nat) \<Rightarrow> Server \<Rightarrow> request_event list \<Rightarrow> Server res" where
  "serve rand = foldE (\<lambda>s (st, now, sock, request). handleCommand rand st now sock request s)"

text \<open>What is logged is a list of \<open>SET\<close> requests.\<close>

definition set_request :: "string \<times> RespValue \<Rightarrow> RespValue" where
  "set_request = (\<lambda>(key, v). Array (Some [SimpleString ''SET'', SimpleString key, v]))"

definition apply_sets :: "(string \<times> RespValue) list \<Rightarrow> (string \<rightharpoonup> RespValue) \<Rightarrow> (string \<rightharpoonup> RespValue)" where
  "apply_sets = fold (\<lambda>(key, v) m. m(key \<mapsto> v))"

lemma apply_sets_simps [simp]:
  "apply_sets [] m = m" "apply_sets ((key, v) # kvs) m = apply_sets kvs (m(key \<mapsto> v))"
  by (simp_all add: apply_sets_def)

lemma run_noAOF_set_request:
  "run_noAOF s (set_request (key, v)) = bindE (kv_set (kvstore s) key v) (\<lambda>(kv, _). Inr (s\<lparr>kvstore := kv\<rparr>))"
  by (simp add: run_noAOF_def handle_noAOF_def SET_noAOF_def request_elements_def set_request_def bindE_assoc
      case_prod_unfold)

text \<open>Replaying them on any store with the same content gives the same content, unless a probe loop fails.\<close>

lemma replay_sets:
  assumes "kv_ok (kvstore s)"
  shows "foldE run_noAOF s (map set_request kvs) = Inl no_slot \<or>
    (\<exists>t. foldE run_noAOF s (map set_request kvs) = Inr t \<and> kv_ok (kvstore t) \<and>
       kv_map (kvstore t) = apply_sets kvs (kv_map (kvstore s)))"
  using assms
proof (induction kvs arbitrary: s)
  case (Cons e kvs)
  obtain key v where e: "e = (key, v)" by (cases e)
  show ?case
  proof (cases "kv_set (kvstore s) key v")
    case (Inl x)
    then show ?thesis using kv_set_fails [OF Cons.prems] by (simp add: e run_noAOF_set_request)
  next
    case (Inr r)
    then obtain kv ev where r: "kv_set (kvstore s) key v = Inr (kv, ev)" by (cases r) auto
    then have "kv_ok kv" "kv_map kv = (kv_map (kvstore s))(key \<mapsto> v)" using kv_set_ok [OF Cons.prems] by blast+
    with Cons.IH [of "s\<lparr>kvstore := kv\<rparr>"] r show ?thesis
      by (simp add: e run_noAOF_set_request del: fun_upd_apply)
  qed
qed simp

lemma handleCommand_logs:
  assumes "handleCommand rand st now sock request s = Inr s'" "kv_ok (kvstore s)"
  shows "kv_ok (kvstore s') \<and>
    ((kv_map (kvstore s') = kv_map (kvstore s) \<and> log_text (aof s') = log_text (aof s)) \<or>
     (\<exists>e. request = set_request e \<and> log_text (aof s') = log_text (aof s) @ encode request \<and>
        kv_map (kvstore s') = apply_sets [e] (kv_map (kvstore s))))"
proof -
  obtain s1 reply where s1: "handle rand st now request sock s = Inr (s1, reply)"
      "kvstore s' = kvstore s1" "aof s' = aof s1"
    using assms(1) by (auto simp: handleCommand_def bindE_Inr_iff split: if_splits)
  from s1(1) show ?thesis
  proof (cases rule: handle_cases)
    case Set
    from Set(2) show ?thesis
    proof (cases rule: SET_cases)
      case (Stored c key v)
      then have "request = set_request (key, v)" using Set(1) by (simp add: command_is_def set_request_def)
      moreover have "kv_ok (kvstore s1)" "kv_map (kvstore s1) = (kv_map (kvstore s))(key \<mapsto> v)"
        using kv_set_ok [OF assms(2) Stored(5)] by blast+
      ultimately show ?thesis using Stored(4) s1 by (metis apply_sets_simps log_text_append)
    qed (use s1 assms(2) in simp)
  next
    case Get
    then have "kv_ok (kvstore s1) \<and> kv_map (kvstore s1) = kv_map (kvstore s) \<and> aof s1 = aof s"
      using GET_frame [OF Get(2) assms(2)] by simp
    then show ?thesis using s1 by simp
  next
    case Exist
    then have "kv_ok (kvstore s1) \<and> kv_map (kvstore s1) = kv_map (kvstore s) \<and> aof s1 = aof s"
      using EXIST_frame [OF Exist(2) assms(2)] by simp
    then show ?thesis using s1 by simp
  qed (use s1 assms(2) in auto)
qed

lemma serve_logs:
  assumes "serve rand s evs = Inr s'" "kv_ok (kvstore s)" "\<forall>(st, now, sock, request)\<in>set evs. resp_ok request"
  shows "\<exists>kvs. log_text (aof s') = log_text (aof s) @ concat (map encode (map set_request kvs)) \<and>
    list_all resp_ok (map set_request kvs) \<and> kv_map (kvstore s') = apply_sets kvs (kv_map (kvstore s))"
  using assms
proof (induction evs arbitrary: s)
  case Nil
  then show ?case by (auto simp: serve_def intro!: exI [of _ "[]"])
next
  case (Cons ev evs)
  obtain st now sock request where ev: "ev = (st, now, sock, request)" by (cases ev)
  with Cons.prems obtain s1 where s1: "handleCommand rand st now sock request s = Inr s1" "serve rand s1 evs = Inr s'"
    by (auto simp: serve_def bindE_Inr_iff)
  have ok: "kv_ok (kvstore s1)" and step: "(kv_map (kvstore s1) = kv_map (kvstore s) \<and> log_text (aof s1) = log_text (aof s)) \<or>
     (\<exists>e. request = set_request e \<and> log_text (aof s1) = log_text (aof s) @ encode request \<and>
        kv_map (kvstore s1) = apply_sets [e] (kv_map (kvstore s)))"
    using handleCommand_logs [OF s1(1) Cons.prems(2)] by blast+
  obtain kvs where kvs: "log_text (aof s') = log_text (aof s1) @ concat (map encode (map set_request kvs))"
      "list_all resp_ok (map set_request kvs)" "kv_map (kvstore s') = apply_sets kvs (kv_map (kvstore s1))"
    using Cons.IH [OF s1(2) ok] Cons.prems(3) by auto
  from step show ?case
  proof (elim disjE exE conjE)
    assume "kv_map (kvstore s1) = kv_map (kvstore s)" "log_text (aof s1) = log_text (aof s)"
    with kvs show ?thesis by (intro exI [of _ kvs]) simp
  next
    fix e assume e: "request = set_request e" "log_text (aof s1) = log_text (aof s) @ encode request"
      "kv_map (kvstore s1) = apply_sets [e] (kv_map (kvstore s))"
    have "resp_ok (set_request e)" using Cons.prems(3) ev e(1) by auto
    with kvs e show ?thesis by (intro exI [of _ "e # kvs"]) (cases e, simp)
  qed
qed

lemma serve_snoc: "serve rand s (evs @ [(st, now, sock, request)]) =
    bindE (serve rand s evs) (handleCommand rand st now sock request)"
  by (simp add: serve_def foldE_append)

lemma serve_ok: "serve rand s evs = Inr s' \<Longrightarrow> kv_ok (kvstore s) \<Longrightarrow> kv_ok (kvstore s')"
  unfolding serve_def by (erule foldE_invariant) (auto dest: handleCommand_logs)

text \<open>A log that was cut at any byte is the log of the first so many requests and a torn record.\<close>

lemma serve_cut:
  assumes "serve rand s evs = Inr s'" "kv_ok (kvstore s)" "\<forall>(st, now, sock, request)\<in>set evs. resp_ok request"
    and "log_text (aof s) = []" "log_text (aof s') = content @ rest"
  shows "\<exists>evs1 evs2 s1 t. evs = evs1 @ evs2 \<and> serve rand s evs1 = Inr s1 \<and> content = log_text (aof s1) @ t \<and>
    (t = [] \<or> (\<exists>r u. resp_ok r \<and> encode r = t @ u \<and> u \<noteq> [])) \<and>
    (rest = [] \<longrightarrow> kv_map (kvstore s1) = kv_map (kvstore s'))"
  using assms
proof (induction evs arbitrary: s' rest rule: rev_induct)
  case Nil
  then have "content = [] \<and> s' = s" by (simp add: serve_def)
  then show ?case using Nil.prems(4) by (intro exI [of _ "[]"] exI [of _ s]) (simp add: serve_def)
next
  case (snoc ev evs)
  obtain st now sock request where ev: "ev = (st, now, sock, request)" by (cases ev)
  with snoc.prems(1) obtain s2 where s2: "serve rand s evs = Inr s2" "handleCommand rand st now sock request s2 = Inr s'"
    by (auto simp: serve_snoc bindE_Inr_iff)
  have good: "\<forall>(st, now, sock, request)\<in>set evs. resp_ok request" "resp_ok request" using snoc.prems(3) ev by auto
  have all: "\<exists>evs1 evs2 s1 t. evs @ [ev] = evs1 @ evs2 \<and> serve rand s evs1 = Inr s1 \<and> content = log_text (aof s1) @ t \<and>
      (t = [] \<or> (\<exists>r u. resp_ok r \<and> encode r = t @ u \<and> u \<noteq> [])) \<and> (rest = [] \<longrightarrow> kv_map (kvstore s1) = kv_map (kvstore s'))"
    if prev: "rest' = [] \<and> rest = [] \<Longrightarrow> kv_map (kvstore s2) = kv_map (kvstore s')" "log_text (aof s2) = content @ rest'"
      "rest = [] \<Longrightarrow> rest' = []" for rest'
  proof -
    obtain evs1 evs2 s1 t where *: "evs = evs1 @ evs2" "serve rand s evs1 = Inr s1" "content = log_text (aof s1) @ t"
        "t = [] \<or> (\<exists>r u. resp_ok r \<and> encode r = t @ u \<and> u \<noteq> [])"
        "rest' = [] \<Longrightarrow> kv_map (kvstore s1) = kv_map (kvstore s2)"
      using snoc.IH [OF s2(1) snoc.prems(2) good(1) snoc.prems(4) prev(2)] by blast
    have "rest = [] \<longrightarrow> kv_map (kvstore s1) = kv_map (kvstore s')" using *(5) prev(1,3) by simp
    with * show ?thesis
      by (intro exI [of _ evs1] exI [of _ "evs2 @ [ev]"] exI [of _ s1] exI [of _ t] conjI) simp_all
  qed
  from handleCommand_logs [OF s2(2) serve_ok [OF s2(1) snoc.prems(2)]]
  consider "kv_map (kvstore s') = kv_map (kvstore s2)" "log_text (aof s') = log_text (aof s2)"
    | "log_text (aof s') = log_text (aof s2) @ encode request" by blast
  then show ?case
  proof cases
    case 1
    then show ?thesis using all [of rest] snoc.prems(5) by simp
  next
    case 2
    then have "content @ rest = log_text (aof s2) @ encode request" using snoc.prems(5) by simp
    then consider (Before) u where "log_text (aof s2) = content @ u" "rest = u @ encode request"
      | (Within) u where "content = log_text (aof s2) @ u" "encode request = u @ rest"
      by (metis append_eq_append_conv2)
    then show ?thesis
    proof cases
      case Before
      then show ?thesis using all [of u] by simp
    next
      case Within
      show ?thesis
      proof (cases "rest = []")
        case True
        then have "log_text (aof s') = content" using snoc.prems(5) by simp
        then show ?thesis using snoc.prems(1) by (intro exI [of _ "evs @ [ev]"] exI [of _ "[]"] exI [of _ s']) simp
      next
        case False
        then show ?thesis using Within s2(1) good(2)
          by (intro exI [of _ evs] exI [of _ "[ev]"] exI [of _ s2] exI [of _ u]) auto
      qed
    qed
  qed
qed

section \<open>Restart\<close>

text \<open>A store whose snapshot restores it: no tombstones, and every size fits its field in the file.\<close>

definition clean_store :: "RespValue KVStore \<Rightarrow> bool" where
  "clean_store kv \<longleftrightarrow> kv_ok kv \<and> shardCount kv = SHARD_COUNT \<and>
     (\<forall>i < shardCount kv. no_tombstone (data (shards kv ! i)) \<and> table_fits (data (shards kv ! i)))"

lemma new_Server_eq:
  assumes "clean_store kv" "kv_writetofileFork (\<lambda>_. True) kv = Inr dir"
  shows "\<exists>s. new_Server True dir content st uuid addr p logs = recover s \<and> aof_file (aof s) = content \<and>
    kv_ok (kvstore s) \<and> kv_map (kvstore s) = kv_map kv"
proof -
  have "shardCount (new_KVStore SHARD_COUNT :: RespValue KVStore) = SHARD_COUNT" by (simp add: new_KVStore_def)
  then obtain kv0 where "kv_readfromfile dir (new_KVStore SHARD_COUNT) = Inr kv0" "kv_ok kv0" "kv_map kv0 = kv_map kv"
    using snapshot_store [of kv "new_KVStore SHARD_COUNT"] assms kv.invar_new
    by (auto simp: clean_store_def kv_writetofileFork_def)
  then show ?thesis
    by (intro exI [of _ "idle_Server \<lparr>aof_file = content, aof_buffer = [], last_fsync = st\<rparr> uuid addr p logs\<lparr>kvstore := kv0\<rparr>"])
      (simp add: new_Server_def new_AOF_def idle_Server_def)
qed

lemma restart_replays:
  assumes "clean_store kv" "kv_writetofileFork (\<lambda>_. True) kv = Inr dir"
    and "content = concat (map encode (map set_request kvs)) @ t" "list_all resp_ok (map set_request kvs)"
    and "t = [] \<or> (\<exists>r u. resp_ok r \<and> encode r = t @ u \<and> u \<noteq> [])"
  shows "new_Server True dir content st uuid addr p logs = Inl no_slot \<or>
    (\<exists>s'. new_Server True dir content st uuid addr p logs = Inr s' \<and>
       kv_map (kvstore s') = apply_sets kvs (kv_map kv))"
proof -
  obtain s where s: "new_Server True dir content st uuid addr p logs = recover s" "aof_file (aof s) = content"
      "kv_ok (kvstore s)" "kv_map (kvstore s) = kv_map kv"
    using new_Server_eq [OF assms(1,2)] by blast
  have "recover s = foldE run_noAOF s (map set_request kvs)"
    using s(2) assms(3,4,5) by (intro recover_torn) auto
  with replay_sets [OF s(3), of kvs] s show ?thesis by auto
qed

section \<open>An example server\<close>

text \<open>A node that is alone on the ring owns every key.\<close>

definition lone_server :: Server where
  "lone_server = (let s = idle_Server \<lparr>aof_file = [], aof_buffer = [], last_fsync = 0\<rparr> 7 ''10.0.0.1'' 7800 Map.empty
     in s\<lparr>cluster := addNodeToHash 7 (cluster s)\<rparr>)"

lemma lone_server_fields [simp]:
  "kvstore lone_server = new_KVStore SHARD_COUNT" "aof lone_server = \<lparr>aof_file = [], aof_buffer = [], last_fsync = 0\<rparr>"
  "syncing lone_server = False" "raft_groups lone_server = []" "masterToGroup lone_server = []"
  by (simp_all add: lone_server_def idle_Server_def Let_def)

lemma lone_server_clean: "clean_store (kvstore lone_server)"
  by (simp add: clean_store_def kv.invar_new)
    (simp add: new_KVStore_def new_Shard_def new_table_fits new_HashTable_core(3))

lemma lone_server_ring: "node_hash (cluster lone_server) = run_members [] [Join 7]"
  by (simp add: lone_server_def idle_Server_def new_Cluster_at_def Let_def addNodeToHash_def)

lemma lone_server_owns: "queryNode (cluster lone_server) key = Inr 7" "isMasterFor (cluster lone_server) key = Inr True"
proof -
  show q: "queryNode (cluster lone_server) key = Inr 7"
    unfolding queryNode_def lone_server_ring by (rule lone_member_owns)
  show "isMasterFor (cluster lone_server) key = Inr True"
    unfolding isMasterFor_def q
    by (simp add: lone_server_def idle_Server_def new_Cluster_at_def Let_def addNodeToHash_def)
qed

lemma lone_server_set:
  assumes "value_string v = Inr w"
  shows "\<exists>s. serve rand lone_server [(0, 0, 9, set_request (key, v))] = Inr s \<and>
     kv_map (kvstore s) = [key \<mapsto> v] \<and> log_text (aof s) = encode (set_request (key, v))"
proof -
  obtain kv ev where kv: "kv_set (new_KVStore SHARD_COUNT) key v = Inr (kv, ev)"
    using new_store_set [of key v] by (auto simp: kv_update_def bindE_Inr_iff)
  have p: "propose_for key cmd lone_server = Inr lone_server" for cmd
    by (simp add: propose_for_def getGroupForKey_def lone_server_owns)
  note S = SET_stores [OF lone_server_owns(2) assms p, of kv ev]
  have "\<exists>s. serve rand lone_server [(0, 0, 9, set_request (key, v))] = Inr s \<and> kvstore s = kv \<and>
      log_text (aof s) = encode (set_request (key, v))"
    using kv S by (simp add: serve_def handleCommand_def handle_def set_request_def log_text_def del: encode_Array)
  moreover have "kv_map kv = [key \<mapsto> v]"
    using kv_set_ok [OF kv.invar_new kv] by (simp add: new_KVStore_empty SHARD_COUNT_def)
  ultimately show ?thesis by metis
qed

section \<open>Properties\<close>

text \<open>C4. Crash consistency of the store.  A snapshot is written and the log emptied; then the server
  handles any requests, one after the other, and dies when an arbitrary prefix of the bytes it logged
  has reached the file, possibly ending inside a record.  A restart from the snapshot files and that
  log restores the keys and values the server held after some prefix of the requests, after all of
  them if every byte was written; the only other outcome is the exception of a full probe loop.\<close>

theorem crash_keeps_a_prefix:
  assumes "clean_store (kvstore s)" "aof_buffer (aof s) = []"
    and "kv_writetofileFork (\<lambda>_. True) (kvstore s) = Inr dir"
    and "serve rand (snapshot_truncate s) evs = Inr s'" "\<forall>(st, now, sock, request)\<in>set evs. resp_ok request"
    and "log_text (aof s') = content @ rest"
  shows "\<exists>evs1 evs2 s1. evs = evs1 @ evs2 \<and> serve rand (snapshot_truncate s) evs1 = Inr s1 \<and>
    (rest = [] \<longrightarrow> kv_map (kvstore s1) = kv_map (kvstore s')) \<and>
    (new_Server True dir content st uuid addr p logs = Inl (Runtime_Error ''Empty position not found'') \<or>
     (\<exists>t. new_Server True dir content st uuid addr p logs = Inr t \<and> kv_map (kvstore t) = kv_map (kvstore s1)))"
proof -
  let ?s = "snapshot_truncate s"
  have s: "kv_ok (kvstore ?s)" "log_text (aof ?s) = []" "kv_map (kvstore ?s) = kv_map (kvstore s)"
    using assms(1,2) by (simp_all add: snapshot_truncate_def clean_store_def log_text_def)
  obtain evs1 evs2 s1 t where cut: "evs = evs1 @ evs2" "serve rand ?s evs1 = Inr s1" "content = log_text (aof s1) @ t"
      "t = [] \<or> (\<exists>r u. resp_ok r \<and> encode r = t @ u \<and> u \<noteq> [])" "rest = [] \<longrightarrow> kv_map (kvstore s1) = kv_map (kvstore s')"
    using serve_cut [OF assms(4) s(1) assms(5) s(2) assms(6)] by blast
  moreover obtain kvs where kvs: "log_text (aof s1) = concat (map encode (map set_request kvs))"
      "list_all resp_ok (map set_request kvs)" "kv_map (kvstore s1) = apply_sets kvs (kv_map (kvstore s))"
    using serve_logs [OF cut(2) s(1)] assms(5) cut(1) s(2,3) by auto
  ultimately show ?thesis
    using restart_replays [OF assms(1,3) _ kvs(2) cut(4), of content st uuid addr p logs] by metis
qed

theorem crash_keeps_a_prefix_witness:
  "\<exists>dir s' evs1 evs2 s1. kv_writetofileFork (\<lambda>_. True) (kvstore lone_server) = Inr dir \<and>
     serve (\<lambda>_. 0) (snapshot_truncate lone_server) [(0, 0, 9, set_request (''k'', SimpleString ''v''))] = Inr s' \<and>
     kv_map (kvstore s') = [''k'' \<mapsto> SimpleString ''v''] \<and>
     [(0, 0, 9, set_request (''k'', SimpleString ''v''))] = evs1 @ evs2 \<and>
     (serve (\<lambda>_. 0) (snapshot_truncate lone_server) evs1 = Inr s1 \<and>
     kv_map (kvstore s1) = kv_map (kvstore s') \<and>
     (new_Server True dir (log_text (aof s')) 0 3 ''10.0.0.1'' 7800 Map.empty = Inl (Runtime_Error ''Empty position not found'') \<or>
      (\<exists>t. new_Server True dir (log_text (aof s')) 0 3 ''10.0.0.1'' 7800 Map.empty = Inr t \<and>
         kv_map (kvstore t) = kv_map (kvstore s1))))"
proof -
  let ?evs = "[(0, 0, 9, set_request (''k'', SimpleString ''v''))] :: request_event list"
  have t: "snapshot_truncate lone_server = lone_server" by (simp add: snapshot_truncate_def)
  obtain dir where dir: "kv_writetofileFork (\<lambda>_. True) (kvstore lone_server) = Inr dir"
    using write_shards_all by (metis kv_writetofileFork_def)
  obtain s' where s': "serve (\<lambda>_. 0) (snapshot_truncate lone_server) ?evs = Inr s'"
      "kv_map (kvstore s') = [''k'' \<mapsto> SimpleString ''v'']"
    using lone_server_set [of "SimpleString ''v''" "''v''" "\<lambda>_. 0" "''k''"] t by (auto simp: value_string_def)
  have ok: "\<forall>(st, now, sock, request)\<in>set ?evs. resp_ok request"
    by (simp add: set_request_def line_ok_def string_max_size_def vector_max_size_def)
  show ?thesis
    using crash_keeps_a_prefix [OF lone_server_clean _ dir s'(1) ok, of "log_text (aof s')" "[]" 0 3 "''10.0.0.1''" 7800 Map.empty]
      dir s' by (simp del: append_Nil2)
qed

text \<open>A snapshot drops what is written while it is taken: the child process writes the store of the
  moment of the fork, but when it has ended the whole log is cut, so a \<open>SET\<close> that was handled and
  flushed to the log in between is neither in the snapshot nor in the log after a restart.\<close>

theorem snapshot_drops_concurrent_writes:
  "\<exists>dir s1 t. kv_writetofileFork (\<lambda>_. True) (kvstore lone_server) = Inr dir \<and>
     serve rand lone_server [(0, 0, 9, set_request (key, SimpleString v))] = Inr s1 \<and>
     kv_map (kvstore s1) key = Some (SimpleString v) \<and>
     new_Server True dir (aof_file (aof (snapshot_truncate (s1\<lparr>aof := aof_flush now (aof s1)\<rparr>)))) st uuid addr p logs = Inr t \<and>
     kv_map (kvstore t) key = None"
proof -
  obtain dir where dir: "kv_writetofileFork (\<lambda>_. True) (kvstore lone_server) = Inr dir"
    using write_shards_all by (metis kv_writetofileFork_def)
  obtain s1 where s1: "serve rand lone_server [(0, 0, 9, set_request (key, SimpleString v))] = Inr s1"
      "kv_map (kvstore s1) key = Some (SimpleString v)"
    using lone_server_set [of "SimpleString v" v rand key] by (auto simp: value_string_def)
  obtain s where s: "new_Server True dir [] st uuid addr p logs = recover s" "aof_file (aof s) = []"
      "kv_map (kvstore s) = kv_map (new_KVStore SHARD_COUNT)"
    using new_Server_eq [OF lone_server_clean dir] by (metis lone_server_fields(1))
  have "recover s = Inr s" using recover_eq [of s new_RespParser] s(2) by simp
  with s have "new_Server True dir [] st uuid addr p logs = Inr s" "kv_map (kvstore s) key = None"
    by (simp_all add: new_KVStore_empty SHARD_COUNT_def)
  with dir s1 show ?thesis by (auto simp: snapshot_truncate_def)
qed

text \<open>A torn record is never removed from the log, so the first record written after a restart
  is glued to it: from then on recovery stores the glued key and throws at the rest of the record,
  and the server no longer starts.\<close>

theorem torn_record_blocks_restart:
  "recover (lone_server\<lparr>aof := (aof lone_server)\<lparr>aof_file :=
      ''*3'' @ crlf @ ''+SET'' @ crlf @ ''+a'' @ encode (set_request (''k'', SimpleString ''v''))\<rparr>\<rparr>) =
   Inl (Runtime_Error ''Request is not an Array!!'')"
proof -
  let ?bytes = "''*3'' @ crlf @ ''+SET'' @ crlf @ ''+a'' @ encode (set_request (''k'', SimpleString ''v''))"
  let ?reqs = "[set_request (''a*3'', SimpleString ''SET''), SimpleString ''k'', SimpleString ''v'']"
  let ?s = "lone_server\<lparr>aof := (aof lone_server)\<lparr>aof_file := ?bytes\<rparr>\<rparr>"
  have "?bytes = concat (map encode ?reqs) @ []"
    by (simp add: set_request_def to_string.simps numeral_3_eq_3 [symmetric])
  moreover have "list_all resp_ok ?reqs"
    by (simp add: set_request_def line_ok_def string_max_size_def vector_max_size_def)
  ultimately have r: "recover ?s = foldE run_noAOF ?s ?reqs" by (intro recover_torn [of _ _ "[]"]) simp_all
  obtain kv ev where "kv_set (new_KVStore SHARD_COUNT) ''a*3'' (SimpleString ''SET'') = Inr (kv, ev)"
    using new_store_set [of "''a*3''" "SimpleString ''SET''"] by (auto simp: kv_update_def bindE_Inr_iff)
  then have "foldE run_noAOF ?s ?reqs = Inl (Runtime_Error ''Request is not an Array!!'')"
    by (simp add: run_noAOF_set_request) (simp add: run_noAOF_def handle_noAOF_def)
  with r show ?thesis by simp
qed

end
