(* ===== verification/Server_Protocol.thy ===== *)
theory Server_Protocol
  imports Aof_Recovery
begin

text \<open>
  What the clients and the other nodes see of a server: the answers to \<open>GET\<close>, \<open>SET\<close> and \<open>EXIST\<close>
  as those of a finite map, and the commands of the cluster (\<open>DEL\<close>, \<open>NODEOUT\<close>, \<open>GETNETWORK\<close>).
\<close>

section \<open>The data commands as a map\<close>

datatype data_request = Get string | Exist string | Set string RespValue

fun request_of :: "data_request \<Rightarrow> RespValue" where
  "request_of (Get key) = Array (Some [SimpleString ''GET'', SimpleString key])"
| "request_of (Exist key) = Array (Some [SimpleString ''EXIST'', SimpleString key])"
| "request_of (Set key v) = Array (Some [SimpleString ''SET'', SimpleString key, v])"

text \<open>The specification: the content of the node and the text of the answer.  \<open>c\<close> tells who owns a key.\<close>

fun spec_answer :: "Cluster \<Rightarrow> (string \<rightharpoonup> RespValue) \<Rightarrow> data_request \<Rightarrow> (string \<rightharpoonup> RespValue) \<times> string" where
  "spec_answer c m (Get key) = (m, case m key of None \<Rightarrow> encode (BulkString None) | Some v \<Rightarrow> encode v)"
| "spec_answer c m (Exist key) = (m, encode (Integer (of_bool (m key \<noteq> None))))"
| "spec_answer c m (Set key v) = (case projr (queryNode c key) of owner \<Rightarrow>
     if owner = UUID (self_node c) then (m(key \<mapsto> v), encode (SimpleString ''OK''))
     else (m, encode (Error (''MOVED '' @ (case map_of (topo c) owner of
         Some n \<Rightarrow> ip n @ '':'' @ to_string (unat (port n)) | None \<Rightarrow> to_string (unat owner))))))"

fun spec_answers :: "Cluster \<Rightarrow> (string \<rightharpoonup> RespValue) \<Rightarrow> (int \<times> data_request) list \<Rightarrow> (string \<rightharpoonup> RespValue) \<times> (string \<times> int) list" where
  "spec_answers c m [] = (m, [])"
| "spec_answers c m ((sock, r) # rs) =
     (case spec_answer c m r of (m', a) \<Rightarrow> case spec_answers c m' rs of (m'', as) \<Rightarrow> (m'', (a, sock) # as))"

text \<open>Messages of the Raft groups go to the connections of the cluster.\<close>

definition node_fds :: "Cluster \<Rightarrow> int set" where
  "node_fds c = snd ` set (connections c)"

definition answered :: "Server \<Rightarrow> Server \<Rightarrow> string \<Rightarrow> int \<Rightarrow> bool" where
  "answered s s' a sock \<longleftrightarrow> (\<exists>ms. out_queue s' = out_queue s @ ms @ [(a, sock)] \<and> snd ` set ms \<subseteq> node_fds (cluster s))"

lemma getConnection_fd: "getConnection u c \<noteq> -1 \<Longrightarrow> getConnection u c \<in> node_fds c"
  by (auto simp: getConnection_def node_fds_def split: option.splits dest!: map_of_SomeD intro: rev_image_eqI)

lemma raft_send_queue: "\<exists>ms. out_queue (raft_send m s) = out_queue s @ ms \<and> snd ` set ms \<subseteq> node_fds (cluster s)"
  by (auto simp: raft_send_def Let_def enqueue_msg_def getConnection_fd)

lemma fold_raft_send_queue:
  "\<exists>ms. out_queue (fold raft_send msgs s) = out_queue s @ ms \<and> snd ` set ms \<subseteq> node_fds (cluster s)"
proof (induction msgs arbitrary: s)
  case (Cons m msgs)
  obtain ms where ms: "out_queue (raft_send m s) = out_queue s @ ms" "snd ` set ms \<subseteq> node_fds (cluster s)"
    using raft_send_queue by blast
  obtain ms' where "out_queue (fold raft_send msgs (raft_send m s)) = out_queue (raft_send m s) @ ms'"
      "snd ` set ms' \<subseteq> node_fds (cluster (raft_send m s))"
    using Cons.IH by blast
  with ms show ?case by (intro exI [of _ "ms @ ms'"]) auto
qed simp

lemma propose_for_queue:
  assumes "propose_for key cmd s = Inr s'"
  shows "syncing s' = syncing s \<and> (\<exists>ms. out_queue s' = out_queue s @ ms \<and> snd ` set ms \<subseteq> node_fds (cluster s))"
proof (cases "s' = s")
  case False
  then obtain gid rn ms where "s' = fold raft_send ms (s\<lparr>raft_groups := map_insert gid rn (raft_groups s)\<rparr>)"
    using assms by (auto simp: propose_for_def run_raft_def elim!: bindE_InrE split: option.splits)
  then show ?thesis using fold_raft_send_queue [of ms "s\<lparr>raft_groups := map_insert gid rn (raft_groups s)\<rparr>"] by simp
qed simp

definition step_refines :: "Server \<Rightarrow> Server \<Rightarrow> int \<Rightarrow> data_request \<Rightarrow> bool" where
  "step_refines s s' sock r \<longleftrightarrow> (case spec_answer (cluster s) (kv_map (kvstore s)) r of (m, a) \<Rightarrow>
     kv_ok (kvstore s') \<and> kv_map (kvstore s') = m \<and> cluster s' = cluster s \<and> syncing s' = syncing s \<and>
     answered s s' a sock)"

lemma answered_enqueue: "out_queue s1 = out_queue s @ ms \<Longrightarrow> snd ` set ms \<subseteq> node_fds (cluster s) \<Longrightarrow>
    answered s (enqueue_msg a sock s1) a sock"
  by (auto simp: answered_def enqueue_msg_def)

lemma refines_Get:
  assumes "handleCommand rand st now sock (request_of (Get key)) s = Inr s'" "kv_ok (kvstore s)" "\<not> syncing s"
  shows "step_refines s s' sock (Get key)"
proof -
  obtain kv r where kv: "kv_get (kvstore s) key = Inr (kv, r)"
      "s' = enqueue_msg (case r of None \<Rightarrow> encode (BulkString None) | Some v \<Rightarrow> encode v) sock (s\<lparr>kvstore := kv\<rparr>)"
    using assms(1,3)
    by (auto simp: handleCommand_def handle_def GET_def request_elements_def getValue_eq bindE_Inr_iff
        simp del: encode_Bulk split: option.splits if_splits)
  with kv_get_ok [OF assms(2) kv(1)] show ?thesis
    using answered_enqueue [of "s\<lparr>kvstore := kv\<rparr>" s "[]"] by (simp add: step_refines_def) (simp add: enqueue_msg_def)
qed

lemma refines_Exist:
  assumes "handleCommand rand st now sock (request_of (Exist key)) s = Inr s'" "kv_ok (kvstore s)" "\<not> syncing s"
  shows "step_refines s s' sock (Exist key)"
proof -
  obtain kv r where kv: "kv_get (kvstore s) key = Inr (kv, r)"
      "s' = enqueue_msg (encode (Integer (of_bool (r \<noteq> None)))) sock (s\<lparr>kvstore := kv\<rparr>)"
    using assms(1,3)
    by (auto simp: handleCommand_def handle_def EXIST_def request_elements_def bindE_Inr_iff simp del: encode_Integer)
  with kv_get_ok [OF assms(2) kv(1)] show ?thesis
    using answered_enqueue [of "s\<lparr>kvstore := kv\<rparr>" s "[]"] by (simp add: step_refines_def) (simp add: enqueue_msg_def)
qed

lemma refines_Set:
  assumes "handleCommand rand st now sock (request_of (Set key v)) s = Inr s'" "kv_ok (kvstore s)" "\<not> syncing s"
  shows "step_refines s s' sock (Set key v)"
proof -
  let ?req = "Array (Some [SimpleString ''SET'', SimpleString key, v])"
  obtain s1 a where s1: "SET st ?req s = Inr (s1, a)" "s' = (if a = [] then s1 else enqueue_msg a sock s1)"
    using assms(1,3) by (auto simp: handleCommand_def handle_def bindE_Inr_iff)
  obtain owner where owner: "queryNode (cluster s) key = Inr owner"
    using s1(1) by (auto simp: SET_def request_elements_def isMasterFor_def elim!: bindE_InrE)
  show ?thesis
  proof (cases "owner = UUID (self_node (cluster s))")
    case False
    define b where "b = snd (spec_answer (cluster s) (kv_map (kvstore s)) (Set key v))"
    have "SET st ?req s = Inr (s, b)"
      using False by (simp add: b_def SET_def request_elements_def isMasterFor_def owner moved_reply_def Let_def split: option.split)
    moreover have "b \<noteq> []" using False by (simp add: b_def owner)
    ultimately have "s' = enqueue_msg b sock s" using s1 by simp
    moreover have "spec_answer (cluster s) (kv_map (kvstore s)) (Set key v) = (kv_map (kvstore s), b)"
      using False by (simp add: b_def owner)
    ultimately show ?thesis using assms(2) answered_enqueue [of s s "[]"]
      by (simp add: step_refines_def del: spec_answer.simps) (simp add: enqueue_msg_def)
  next
    case True
    then have m: "isMasterFor (cluster s) key = Inr True" by (simp add: isMasterFor_def owner)
    obtain w s2 kv ev where w: "value_string v = Inr w" "propose_for key (''SET '' @ key @ '' '' @ w) s = Inr s2"
        "kv_set (kvstore s2) key v = Inr (kv, ev)"
      using s1(1) m by (auto simp: SET_def request_elements_def elim!: bindE_InrE)
    note stored = SET_stores [OF m w, of st "SimpleString ''SET''"]
    have f: "kvstore s2 = kvstore s" "cluster s2 = cluster s" using propose_for_frame [OF w(2)] by simp_all
    obtain ms where q: "syncing s2 = syncing s" "out_queue s2 = out_queue s @ ms" "snd ` set ms \<subseteq> node_fds (cluster s)"
      using propose_for_queue [OF w(2)] by blast
    have s1': "s1 = s2\<lparr>aof := aof_append_text st (encode ?req) (aof s2), kvstore := kv\<rparr>" "a = encode (SimpleString ''OK'')"
      using s1(1) stored by simp_all
    then have "answered s (enqueue_msg a sock s1) a sock" using q(2,3) by (intro answered_enqueue) auto
    moreover have "kv_ok kv \<and> kv_map kv = (kv_map (kvstore s))(key \<mapsto> v)"
      using kv_set_ok [OF _ w(3)] assms(2) f(1) by metis
    ultimately show ?thesis using s1(2) s1' f q(1) True
      by (simp add: step_refines_def owner del: encode_Array encode_SimpleString) (simp add: enqueue_msg_def)
  qed
qed

lemma handleCommand_refines:
  assumes "handleCommand rand st now sock (request_of r) s = Inr s'" "kv_ok (kvstore s)" "\<not> syncing s"
  shows "step_refines s s' sock r"
  by (cases r) (use assms in \<open>simp_all add: refines_Get refines_Exist refines_Set del: request_of.simps\<close>)

definition replies_to :: "int \<Rightarrow> (string \<times> int) list \<Rightarrow> string list" where
  "replies_to sock q = map fst (filter (\<lambda>m. snd m = sock) q)"

lemma replies_to_simps [simp]:
  "replies_to sock [] = []" "replies_to sock (q @ q') = replies_to sock q @ replies_to sock q'"
  "replies_to sock ((a, fd) # q) = (if fd = sock then a # replies_to sock q else replies_to sock q)"
  by (auto simp: replies_to_def)

lemma replies_to_nodes: "snd ` set ms \<subseteq> node_fds c \<Longrightarrow> sock \<notin> node_fds c \<Longrightarrow> replies_to sock ms = []"
  by (auto simp: replies_to_def filter_empty_conv)

lemma serve_refines:
  assumes "serve rand s (map (\<lambda>(st, now, fd, r). (st, now, fd, request_of r)) evs) = Inr s'" "kv_ok (kvstore s)" "\<not> syncing s"
    and "sock \<notin> node_fds (cluster s)"
  shows "case spec_answers (cluster s) (kv_map (kvstore s)) (map (\<lambda>(st, now, fd, r). (fd, r)) evs) of (m, as) \<Rightarrow>
    kv_map (kvstore s') = m \<and> replies_to sock (out_queue s') = replies_to sock (out_queue s @ as)"
  using assms
proof (induction evs arbitrary: s)
  case Nil
  then show ?case by (simp add: serve_def)
next
  case (Cons ev evs)
  obtain st now fd r where ev: "ev = (st, now, fd, r)" by (cases ev)
  obtain s1 where s1: "handleCommand rand st now fd (request_of r) s = Inr s1"
      "serve rand s1 (map (\<lambda>(st, now, fd, r). (st, now, fd, request_of r)) evs) = Inr s'"
    using Cons.prems(1) ev by (auto simp: serve_def bindE_Inr_iff)
  obtain m a where ma: "spec_answer (cluster s) (kv_map (kvstore s)) r = (m, a)" by fastforce
  with handleCommand_refines [OF s1(1) Cons.prems(2,3)] have r: "kv_ok (kvstore s1)" "kv_map (kvstore s1) = m"
      "cluster s1 = cluster s" "syncing s1 = syncing s" "answered s s1 a fd" by (auto simp: step_refines_def)
  then obtain ms where ms: "out_queue s1 = out_queue s @ ms @ [(a, fd)]" "replies_to sock ms = []"
    using replies_to_nodes Cons.prems(4) by (auto simp: answered_def)
  with Cons.IH [OF s1(2) r(1)] r Cons.prems(3,4) ma show ?case by (auto simp: ev split: prod.splits)
qed

section \<open>The network message\<close>

lemma GETNETWORK_eq: "GETNETWORK s = encode (network_resp (topo (cluster s)) (groupMembers s))"
proof -
  have "to_string 4 = ''4''" by (simp add: to_string.simps)
  then have "to_string (Suc (Suc (Suc (Suc 0)))) = ''4''" by (simp add: eval_nat_numeral)
  then have g: "group_text g = encode (group_resp g)" for g
    by (cases g) (simp add: group_text_def group_resp_def numeral_eq_Suc)
  have "group_text = (\<lambda>g. encode (group_resp g))" by (rule ext) (rule g)
  moreover have "to_string 2 = ''2''" by (simp add: to_string.simps)
  ultimately show ?thesis by (simp add: GETNETWORK_def network_resp_def encodeTopo_eq o_def numeral_2_eq_2 [symmetric])
qed

section \<open>Leaving nodes\<close>

lemma int_of_uuid_small:
  assumes "unat u < 2 ^ 31"
  shows "int_of_uuid u = u"
proof -
  have "int (unat u) < int (2 ^ 31)" using assms by (simp only: of_nat_less_iff)
  then have u: "uint u < 2 ^ 31" "0 \<le> uint u" by simp_all
  then have w: "uint (ucast u :: u32) = uint u" by (simp add: unsigned_ucast_eq take_bit_int_eq_self)
  have "signed_take_bit (32 - Suc 0) (uint u) = uint u"
    using u order_trans [OF _ u(2), of "- (2 ^ 31)"] by (intro signed_take_bit_int_eq_self) simp_all
  then have "sint (ucast u :: u32) = uint u" by (simp add: sint_uint w)
  then show ?thesis by (simp add: int_of_uuid_def scast_eq)
qed

lemma int_of_uuid_large:
  assumes "2 ^ 31 \<le> unat u" "unat u < 2 ^ 64 - 2 ^ 31"
  shows "int_of_uuid u \<noteq> u"
proof
  assume eq: "int_of_uuid u = u"
  define i where "i = sint (ucast u :: u32)"
  have i: "- 2147483648 \<le> i" "i < 2147483648"
    using sint_ge [of "ucast u :: u32"] sint_lt [of "ucast u :: u32"] by (simp_all add: i_def)
  have "2 ^ 31 \<le> int n \<and> int n < 2 ^ 64 - 2 ^ 31" if "2 ^ 31 \<le> n" "n < 2 ^ 64 - 2 ^ 31" for n :: nat
    using that by simp
  from this [OF assms] have u: "2147483648 \<le> uint u" "uint u < 18446744071562067968" by simp_all
  have mod: "uint u = i mod 18446744073709551616"
    unfolding i_def by (subst eq [symmetric], simp only: int_of_uuid_def scast_eq uint_word_of_int, simp)
  show False
  proof (cases "i < 0")
    case True
    have "i mod 18446744073709551616 = (i + 18446744073709551616) mod 18446744073709551616" by simp
    also have "\<dots> = i + 18446744073709551616" using i True by (intro mod_pos_pos_trivial) linarith+
    finally show False using mod u i by linarith
  next
    case False
    then have "i mod 18446744073709551616 = i" using i by (intro mod_pos_pos_trivial) linarith+
    then show False using mod u i by linarith
  qed
qed

section \<open>Properties\<close>

text \<open>C2. Clients see a map: whatever requests \<open>GET\<close>, \<open>EXIST\<close> and \<open>SET\<close> a node that is not loading
  handles one after the other, the answers it queues for a client's socket are, byte for byte and in
  order, those of a finite map in which a \<open>SET\<close> of a key that another node owns changes nothing and
  is answered with the address of the owner, and the node then holds that map.\<close>

theorem clients_see_a_map:
  assumes "serve rand s (map (\<lambda>(st, now, fd, r). (st, now, fd, request_of r)) evs) = Inr s'"
    and "kv_ok (kvstore s)" "\<not> syncing s" "sock \<notin> node_fds (cluster s)"
  shows "case spec_answers (cluster s) (kv_map (kvstore s)) (map (\<lambda>(st, now, fd, r). (fd, r)) evs) of (m, as) \<Rightarrow>
    kv_map (kvstore s') = m \<and> replies_to sock (out_queue s') = replies_to sock (out_queue s @ as)"
  by (rule serve_refines [OF assms])

theorem clients_see_a_map_witness:
  "\<exists>s'. serve (\<lambda>_. 0) lone_server [(0, 0, 9, request_of (Set ''k'' (SimpleString ''v'')))] = Inr s' \<and>
     replies_to 9 (out_queue s') = [encode (SimpleString ''OK'')]"
proof -
  let ?evs = "[(0, 0, 9, Set ''k'' (SimpleString ''v''))]"
  obtain s' where s': "serve (\<lambda>_. 0) lone_server (map (\<lambda>(st, now, fd, r). (st, now, fd, request_of r)) ?evs) = Inr s'"
    using lone_server_set [of "SimpleString ''v''" "''v''" "\<lambda>_. 0" "''k''"]
    by (auto simp: value_string_def set_request_def)
  have "kv_ok (kvstore lone_server)" using lone_server_clean by (simp add: clean_store_def)
  moreover have "9 \<notin> node_fds (cluster lone_server)" "out_queue lone_server = []" "UUID (self_node (cluster lone_server)) = 7"
    by (simp_all add: node_fds_def lone_server_def idle_Server_def Let_def addNodeToHash_def new_Cluster_at_def)
  ultimately show ?thesis
    using clients_see_a_map [OF s', of 9] s' by (auto simp: lone_server_owns)
qed

text \<open>\<open>DEL\<close> never works where it should: on the node that owns the key the request whose key was
  moved out is encoded for the log, a null pointer is dereferenced, and the client gets no answer.\<close>

theorem owner_cannot_delete:
  assumes "isMasterFor (cluster s) key = Inr True" "\<not> syncing s" "propose_for key (''DEL '' @ key) s = Inr s1"
  shows "handle rand st now (Array (Some [SimpleString ''DEL'', SimpleString key])) fd s = Inl (UB Null_Deref)"
  using assms by (simp add: handle_def DEL_eq)

theorem owner_cannot_delete_witness:
  "handle (\<lambda>_. 0) 0 0 (Array (Some [SimpleString ''DEL'', SimpleString ''k''])) 9 lone_server = Inl (UB Null_Deref)"
  by (rule owner_cannot_delete)
    (simp_all add: lone_server_owns propose_for_def getGroupForKey_def)

text \<open>A node that announces its departure is forgotten only if its identity fits in 31 bits: the
  handler keeps the identity in an \<open>int\<close>, so from \<open>2 ^ 31\<close> on (and up to the last \<open>2 ^ 31\<close>
  identities, which the sign extension restores) the departed node stays in the topology and goes
  on owning its keys.\<close>

theorem departed_node_stays:
  assumes "\<not> findGossip (to_uint64_t g) (cluster s)" "unat u < 2 ^ 64 - 2 ^ 31"
  shows "\<exists>s'. NODEOUT now (Array (Some [SimpleString ''NODEOUT'', SimpleString g, SimpleString (to_string (unat u))])) s = Inr (s', []) \<and>
    map_of (topo (cluster s')) u = (if unat u < 2 ^ 31 then None else map_of (topo (cluster s)) u)"
proof -
  have "int_of_uuid u = u \<longleftrightarrow> unat u < 2 ^ 31"
    using int_of_uuid_small [of u] int_of_uuid_large [of u] assms(2) by linarith
  then show ?thesis using assms(1)
    by (auto simp: NODEOUT_def request_elements_def Let_def delNodeToHash_def delTopoNode_def delConnection_def addGossip_def)
qed

theorem departed_node_stays_witness:
  "\<exists>s'. NODEOUT 5 (Array (Some [SimpleString ''NODEOUT'', SimpleString ''77'', SimpleString (to_string (unat (2 ^ 40 :: u64)))]))
      (lone_server\<lparr>cluster := addTopoNode \<lparr>ip = ''10.0.0.2'', port = 7800, UUID = 2 ^ 40\<rparr> (cluster lone_server)\<rparr>) = Inr (s', []) \<and>
    map_of (topo (cluster s')) (2 ^ 40) = Some \<lparr>ip = ''10.0.0.2'', port = 7800, UUID = 2 ^ 40\<rparr>"
  using departed_node_stays [of "''77''"
      "lone_server\<lparr>cluster := addTopoNode \<lparr>ip = ''10.0.0.2'', port = 7800, UUID = 2 ^ 40\<rparr> (cluster lone_server)\<rparr>" "2 ^ 40" 5]
  by (simp add: findGossip_def lone_server_def idle_Server_def Let_def addNodeToHash_def new_Cluster_at_def addTopoNode_def)

text \<open>C27. The network survives the wire: what \<open>GETNETWORK\<close> answers is parsed, however it is cut into
  chunks, as one message, from which \<open>getTopoV2\<close> recovers every node with its address, port and
  64-bit identity, and every Raft group with its members, although short groups are padded with zeros.\<close>

theorem network_roundtrip:
  assumes "topo_ok (topo (cluster s))" "groups_ok (groupMembers s)" "concat chunks = GETNETWORK s"
  shows "\<exists>p v. foldE append new_RespParser chunks = Inr p \<and> message_queue p = [v] \<and>
    getTopoV2 v [] = Inr (map snd (topo (cluster s)), groupMembers s)"
proof -
  obtain p where "append new_RespParser (GETNETWORK s) = Inr p"
      "message_queue p = [network_resp (topo (cluster s)) (groupMembers s)]"
    using parse_one [OF between_messages_new network_resp_ok [OF assms(1,2)]] by (auto simp: GETNETWORK_eq)
  then show ?thesis using assms(2,3) by (auto simp: resp.run_chunks getTopoV2_network)
qed

theorem network_roundtrip_witness:
  "\<exists>p v. foldE append new_RespParser [GETNETWORK (lone_server\<lparr>groupMembers := [(0, [7])]\<rparr>)] = Inr p \<and> message_queue p = [v] \<and>
     getTopoV2 v [] = Inr ([\<lparr>ip = ''10.0.0.1'', port = 7800, UUID = 7\<rparr>], [(0, [7])])"
  using network_roundtrip [of "lone_server\<lparr>groupMembers := [(0, [7])]\<rparr>" "[GETNETWORK (lone_server\<lparr>groupMembers := [(0, [7])]\<rparr>)]"]
  by (simp add: topo_ok_def groups_ok_def vector_max_size_def line_ok_def lone_server_def idle_Server_def Let_def
      addNodeToHash_def new_Cluster_at_def sorted_map_def)

end
