(* ===== verification/Net_Io.thy ===== *)
theory Net_Io
  imports Resp_Parser
begin

text \<open>
  The loops around \<open>::send\<close> and \<open>::recv\<close> of \<open>server/Server.cpp\<close> and \<open>client/Client.cpp\<close>.  The kernel is a
  parameter: a list of answers and, for the call that ends the loop, how it ends.  An answer that the
  loop does not ask for is not used.
\<close>

section \<open>Sending\<close>

text \<open>\<open>Wrote n\<close>: \<open>n\<close> bytes were taken; \<open>Interrupted\<close>: \<open>EINTR\<close>.\<close>

datatype send_answer = Wrote nat | Interrupted

text \<open>\<open>Peer_Closed\<close>: the call returns 0; \<open>Bad_Fd\<close>: \<open>EBADF\<close>; \<open>Send_Blocked\<close>: \<open>EAGAIN\<close> or \<open>EWOULDBLOCK\<close>;
  \<open>Send_Broken\<close>: any other error, with its text.\<close>

datatype send_end = Peer_Closed | Bad_Fd | Send_Blocked | Send_Broken string

type_synonym send_io = "send_answer list \<times> send_end"

fun send_loop :: "send_answer list \<Rightarrow> send_end \<Rightarrow> string \<Rightarrow> string \<Rightarrow> string \<times> send_end option" where
  "send_loop answers e sent [] = (sent, None)"
| "send_loop [] e sent (c # rest) = (sent, Some e)"
| "send_loop (Wrote n # answers) e sent (c # rest) = send_loop answers e (sent @ take n (c # rest)) (drop n (c # rest))"
| "send_loop (Interrupted # answers) e sent (c # rest) = send_loop answers e sent (c # rest)"

text \<open>\<open>Server::send\<close>: the bytes on the wire and whether the connection is dropped.\<close>

definition server_send :: "send_io \<Rightarrow> string \<Rightarrow> (string \<times> bool) res" where
  "server_send io str = (case send_loop (fst io) (snd io) [] str of
     (sent, Some (Send_Broken e)) \<Rightarrow> Inl (Runtime_Error (''Send error: '' @ e))
   | (sent, r) \<Rightarrow> Inr (sent, r = Some Peer_Closed))"

text \<open>\<open>Client::send\<close> throws where the server goes on.\<close>

definition client_send :: "send_io \<Rightarrow> string \<Rightarrow> string res" where
  "client_send io str = (case send_loop (fst io) (snd io) [] str of
     (sent, Some Peer_Closed) \<Rightarrow> Inl (Runtime_Error ''Connection closed'')
   | (sent, Some Bad_Fd) \<Rightarrow> Inl (Runtime_Error ''Send error: Bad file descriptor'')
   | (sent, Some (Send_Broken e)) \<Rightarrow> Inl (Runtime_Error (''Send error: '' @ e))
   | (sent, _) \<Rightarrow> Inr sent)"

section \<open>Receiving\<close>

text \<open>How a loop of \<open>::recv\<close> ends: the peer closed, nothing more for now, or an error (also \<open>EINTR\<close>);
  \<open>ctl\<close> is the error text when the descriptor cannot be removed from epoll.\<close>

datatype recv_end = Recv_Eof | Recv_Blocked | Recv_Error "string option"

type_synonym recv_io = "string list \<times> recv_end"

text \<open>\<open>Server::recv\<close>: the bytes read and whether the connection is dropped.\<close>

definition server_recv :: "recv_io \<Rightarrow> (string \<times> bool) res" where
  "server_recv io = (case io of
     (chunks, Recv_Eof) \<Rightarrow> Inr (concat chunks, True)
   | (chunks, Recv_Blocked) \<Rightarrow> Inr (concat chunks, False)
   | (chunks, Recv_Error None) \<Rightarrow> Inr (concat chunks, True)
   | (chunks, Recv_Error (Some e)) \<Rightarrow> Inl (Runtime_Error (''Epoll delete error: '' @ e)))"

text \<open>\<open>while (!parser.hasResult()) parser.append(recv(sock))\<close>: \<open>chunks\<close> is everything that will ever
  arrive, so a loop that has used it up polls for ever.\<close>

fun await_result :: "RespParser \<Rightarrow> string list \<Rightarrow> RespParser res" where
  "await_result p [] = (if hasResult p then Inr p else Inl Hang)"
| "await_result p (c # chunks) = (if hasResult p then Inr p else bindE (append p c) (\<lambda>p. await_result p chunks))"

section \<open>What the loops do\<close>

lemma send_loop_prefix:
  "send_loop answers e sent rest = (out, r) \<Longrightarrow> \<exists>lost. sent @ rest = out @ lost \<and> (r = None \<longleftrightarrow> lost = []) \<and> (r \<noteq> None \<longrightarrow> r = Some e)"
proof (induction answers e sent rest rule: send_loop.induct)
  case (3 n answers e sent c rest)
  then show ?case by (metis append.assoc append_take_drop_id send_loop.simps(3))
qed auto

text \<open>As many successful calls as there are bytes are enough.\<close>

lemma send_loop_complete:
  "\<forall>a\<in>set answers. a = Interrupted \<or> (\<exists>n > 0. a = Wrote n) \<Longrightarrow>
   length (filter (\<lambda>a. a \<noteq> Interrupted) answers) \<ge> length rest \<Longrightarrow>
   send_loop answers e sent rest = (sent @ rest, None)"
proof (induction answers e sent rest rule: send_loop.induct)
  case (3 n answers e sent c rest)
  then have "n > 0" by auto
  with 3 show ?case by (simp add: less_eq_Suc_le)
qed auto

text \<open>A loop that waits for one message does not stop before the last byte of it.\<close>

lemma result_complete:
  assumes "hasResult p" "append p str = Inr q" "message_queue q = [v]" "between_messages q"
  shows "str = [] \<and> p = q"
proof -
  have "message_queue q = message_queue p"
    using append_queue [OF assms(2)] assms(1,3) by (auto simp: hasResult_def Cons_eq_append_conv)
  then have "str = []" using append_progress [OF assms(2)] assms(4) by blast
  then show ?thesis using assms(2) by simp
qed

lemma await_run:
  assumes "append p (concat chunks) = Inr q" "message_queue q = [v]" "between_messages q"
  shows "await_result p chunks = Inr q"
  using assms(1)
proof (induction chunks arbitrary: p)
  case Nil
  then show ?case using assms(2) by (simp add: hasResult_def)
next
  case (Cons c chunks)
  then show ?case using result_complete [OF _ Cons.prems assms(2,3)] by (auto simp: append_append bindE_Inr_iff)
qed

text \<open>A reply that arrives completely ends the loop with exactly that reply.\<close>

lemma await_encoded:
  assumes "resp_ok v" "between_messages p" "message_queue p = []" "concat chunks = encode v"
  shows "\<exists>q. await_result p chunks = Inr q \<and> message_queue q = [v] \<and> between_messages q"
  using parse_one [OF assms(2,1)] await_run assms(3,4) by fastforce

section \<open>Properties\<close>

text \<open>\<open>Server::send\<close> puts a prefix of the message on the wire and reports nothing when the rest is
  lost: it sends everything if the kernel takes at least one byte in as many calls as the message
  has bytes, however many calls are interrupted, but when the socket's buffer is full it returns
  normally and the rest of the message is never sent.\<close>

theorem server_send_prefix:
  assumes "server_send (answers, e) str = Inr (sent, drop_conn)"
  shows "\<exists>lost. str = sent @ lost \<and> (lost \<noteq> [] \<longrightarrow> e \<in> {Send_Blocked, Bad_Fd, Peer_Closed}) \<and>
    ((\<forall>a\<in>set answers. a = Interrupted \<or> (\<exists>n > 0. a = Wrote n)) \<and>
       length (filter (\<lambda>a. a \<noteq> Interrupted) answers) \<ge> length str \<longrightarrow> lost = []) \<and>
    (\<forall>k < length str. server_send (replicate k (Wrote 1), Send_Blocked) str = Inr (take k str, False))"
proof -
  obtain r where r: "send_loop answers e [] str = (sent, r)" "\<And>x. r \<noteq> Some (Send_Broken x)"
    using assms by (auto simp: server_send_def split: prod.splits option.splits send_end.splits)
  have cut: "send_loop (replicate k (Wrote 1)) Send_Blocked out s = (out @ take k s, Some Send_Blocked)" if "k < length s" for k out s
    using that
  proof (induction k arbitrary: out s)
    case 0
    then show ?case by (cases s) auto
  next
    case (Suc k)
    then obtain c s' where "s = c # s'" by (cases s) auto
    with Suc show ?case by simp
  qed
  obtain lost where "str = sent @ lost" "r = None \<longleftrightarrow> lost = []" "r \<noteq> None \<longrightarrow> r = Some e"
    using send_loop_prefix [OF r(1)] by auto
  moreover have "lost \<noteq> [] \<longrightarrow> e \<in> {Send_Blocked, Bad_Fd, Peer_Closed}" using calculation r(2) by (cases e) auto
  moreover have "lost = []"
    if "\<forall>a\<in>set answers. a = Interrupted \<or> (\<exists>n > 0. a = Wrote n)" "length (filter (\<lambda>a. a \<noteq> Interrupted) answers) \<ge> length str"
    using send_loop_complete [OF that, of e "[]"] r(1) calculation(1,2) by simp
  ultimately show ?thesis using cut by (intro exI [of _ lost]) (auto simp: server_send_def)
qed

theorem server_send_prefix_witness:
  "\<exists>lost. ''+OK'' @ crlf = ''+O'' @ lost \<and> lost = ''K'' @ crlf \<and>
     server_send ([Wrote 2], Send_Blocked) (''+OK'' @ crlf) = Inr (''+O'', False)"
proof -
  have "server_send ([Wrote 2], Send_Blocked) (''+OK'' @ crlf) = Inr (''+O'', False)"
    by (simp add: server_send_def crlf_def)
  with server_send_prefix [OF this] show ?thesis by auto
qed

end
