(* ===== verification/Thread_Pool.thy ===== *)
theory Thread_Pool
  imports KV_Prelude "HOL-Library.Multiset"
begin

text \<open>
  The thread pool of \<open>util/ThreadPool.cpp\<close> and \<open>util/ThreadPool.h\<close>: a queue of tasks, a stop flag
  and worker threads.  Every step is one critical section of \<open>queueMutex\<close> or the end of a task; which
  thread moves next is not determined, so the steps are a relation.  The fields \<open>accepted\<close>,
  \<open>started\<close>, \<open>finished\<close> and \<open>dropped\<close> record the history and influence nothing.  An exception of a
  task ends in its future, which nobody reads: for the pool such a task is finished.
\<close>

section \<open>State\<close>

datatype 'a worker = Waiting | Busy 'a | Exited

record 'a Pool =
  tasks :: "'a list"
  stop :: bool
  workers :: "'a worker list"
  accepted :: "'a list"
  started :: "'a list"
  finished :: "'a list"
  dropped :: "'a list"

definition new_ThreadPool :: "nat \<Rightarrow> 'a Pool" where
  "new_ThreadPool threadCount = \<lparr>tasks = [], stop = False, workers = replicate threadCount Waiting,
     accepted = [], started = [], finished = [], dropped = []\<rparr>"

text \<open>What a worker does before its loop, outside every \<open>try\<close>: \<open>setaffinity\<close> is the answer of the kernel for a core,
  \<open>hw\<close> is \<open>hardware_concurrency()\<close>.  An exception here leaves the function of the thread and ends the process.\<close>

definition bindToCPU :: "(nat \<Rightarrow> int) \<Rightarrow> nat \<Rightarrow> unit res" where
  "bindToCPU setaffinity cpu_id = (if setaffinity cpu_id \<noteq> 0 then Inl (Runtime_Error ''Set affinity failed'') else Inr ())"

definition start_worker :: "(nat \<Rightarrow> int) \<Rightarrow> nat \<Rightarrow> nat \<Rightarrow> unit res" where
  "start_worker setaffinity hw i = (if hw = 0 then Inl (UB Div_By_Zero) else bindToCPU setaffinity (i mod hw))"

section \<open>Operations\<close>

definition enqueue :: "'a \<Rightarrow> 'a Pool \<Rightarrow> 'a Pool res" where
  "enqueue task p =
     (if stop p then Inl (Runtime_Error ''stop!!'')
      else Inr (p\<lparr>tasks := tasks p @ [task], accepted := accepted p @ [task]\<rparr>))"

text \<open>The critical sections of \<open>shutdown\<close> and \<open>shutdownnow\<close>; both then wait until every worker has left.\<close>

definition shutdown_stop :: "'a Pool \<Rightarrow> 'a Pool" where
  "shutdown_stop p = p\<lparr>stop := True\<rparr>"

definition shutdownnow_stop :: "'a Pool \<Rightarrow> 'a Pool" where
  "shutdownnow_stop p = p\<lparr>stop := True, tasks := [], dropped := dropped p @ tasks p\<rparr>"

definition joined :: "'a Pool \<Rightarrow> bool" where
  "joined p \<longleftrightarrow> (\<forall>w\<in>set (workers p). w = Exited)"

text \<open>A worker that holds the lock and found \<open>stop || !tasks.empty()\<close>: it leaves or takes the first task.\<close>

definition worker_take :: "nat \<Rightarrow> 'a Pool \<Rightarrow> 'a Pool" where
  "worker_take i p = (case tasks p of
     [] \<Rightarrow> p\<lparr>workers := (workers p)[i := Exited]\<rparr>
   | task # rest \<Rightarrow> p\<lparr>workers := (workers p)[i := Busy task], tasks := rest, started := started p @ [task]\<rparr>)"

definition worker_finish :: "nat \<Rightarrow> 'a Pool \<Rightarrow> 'a Pool" where
  "worker_finish i p = (case workers p ! i of
     Busy task \<Rightarrow> p\<lparr>workers := (workers p)[i := Waiting], finished := finished p @ [task]\<rparr>
   | _ \<Rightarrow> p)"

inductive pool_step :: "'a Pool \<Rightarrow> 'a Pool \<Rightarrow> bool" where
  Submit: "enqueue task p = Inr p' \<Longrightarrow> pool_step p p'"
| Take: "i < length (workers p) \<Longrightarrow> workers p ! i = Waiting \<Longrightarrow> stop p \<or> tasks p \<noteq> [] \<Longrightarrow> pool_step p (worker_take i p)"
| Finish: "i < length (workers p) \<Longrightarrow> workers p ! i = Busy task \<Longrightarrow> pool_step p (worker_finish i p)"
| Shutdown: "pool_step p (shutdown_stop p)"
| Shutdown_Now: "pool_step p (shutdownnow_stop p)"

inductive_cases pool_stepE: "pool_step p p'"

inductive pool_run :: "nat \<Rightarrow> 'a Pool \<Rightarrow> bool" for n where
  Start: "pool_run n (new_ThreadPool n)"
| Step: "pool_run n p \<Longrightarrow> pool_step p p' \<Longrightarrow> pool_run n p'"

section \<open>Invariant\<close>

definition busy_tasks :: "'a worker list \<Rightarrow> 'a multiset" where
  "busy_tasks ws = mset (concat (map (\<lambda>w. case w of Busy t \<Rightarrow> [t] | _ \<Rightarrow> []) ws))"

definition pool_ok :: "'a Pool \<Rightarrow> bool" where
  "pool_ok p \<longleftrightarrow> accepted p = started p @ dropped p @ tasks p \<and>
     mset (started p) = busy_tasks (workers p) + mset (finished p) \<and>
     (dropped p \<noteq> [] \<longrightarrow> stop p \<and> tasks p = []) \<and>
     (Exited \<in> set (workers p) \<longrightarrow> stop p \<and> tasks p = [])"

lemma busy_tasks_update:
  assumes "i < length ws"
  shows "busy_tasks (ws[i := w]) + (case ws ! i of Busy t \<Rightarrow> {#t#} | _ \<Rightarrow> {#}) =
    busy_tasks ws + (case w of Busy t \<Rightarrow> {#t#} | _ \<Rightarrow> {#})"
proof -
  have "ws = take i ws @ ws ! i # drop (Suc i) ws" using assms by (rule id_take_nth_drop)
  then obtain a b where ab: "ws = a @ ws ! i # b" "length a = i" using assms by (metis length_take min.absorb4)
  then have "ws[i := w] = a @ w # b" by (metis list_update_length)
  then show ?thesis using ab(1)
    by (subst (3) ab(1)) (auto simp: busy_tasks_def split: worker.split)
qed

lemma set_update_Exited: "Exited \<in> set (ws[i := w]) \<Longrightarrow> w \<noteq> Exited \<Longrightarrow> Exited \<in> set ws"
  by (metis insertE set_update_subset_insert subsetD)

lemma worker_take_ok:
  assumes "pool_ok p" "i < length (workers p)" "workers p ! i = Waiting" "stop p \<or> tasks p \<noteq> []"
  shows "pool_ok (worker_take i p)"
proof (cases "tasks p")
  case Nil
  then show ?thesis using assms busy_tasks_update [OF assms(2), of Exited]
    by (auto simp: pool_ok_def worker_take_def)
next
  case (Cons t ts)
  then have "dropped p = []" using assms(1) by (auto simp: pool_ok_def)
  moreover have "Exited \<notin> set (workers p)" using assms(1) Cons by (auto simp: pool_ok_def)
  ultimately show ?thesis using Cons assms busy_tasks_update [OF assms(2), of "Busy t"] set_update_Exited [of "workers p" i "Busy t"]
    by (auto simp: pool_ok_def worker_take_def)
qed

lemma worker_finish_ok:
  assumes "pool_ok p" "i < length (workers p)" "workers p ! i = Busy task"
  shows "pool_ok (worker_finish i p)"
  using assms busy_tasks_update [OF assms(2), of Waiting] set_update_Exited [of "workers p" i Waiting]
  by (auto simp: pool_ok_def worker_finish_def)

lemma pool_step_ok: "pool_step p p' \<Longrightarrow> pool_ok p \<Longrightarrow> pool_ok p'"
proof (induction rule: pool_step.induct)
  case (Submit task p p')
  then show ?case by (auto simp: enqueue_def pool_ok_def split: if_splits)
next
  case (Take i p)
  then show ?case by (simp add: worker_take_ok)
next
  case (Finish i p task)
  then show ?case by (simp add: worker_finish_ok)
qed (auto simp: shutdown_stop_def shutdownnow_stop_def pool_ok_def)

lemma new_ThreadPool_ok: "pool_ok (new_ThreadPool n)"
  by (auto simp: pool_ok_def new_ThreadPool_def busy_tasks_def)

lemma pool_run_ok: "pool_run n p \<Longrightarrow> pool_ok p"
  by (induction rule: pool_run.induct) (auto simp: new_ThreadPool_ok pool_step_ok)

lemma pool_workers: "pool_run n p \<Longrightarrow> length (workers p) = n"
proof (induction rule: pool_run.induct)
  case (Step p p')
  from Step(2) Step.IH show ?case
    by (auto elim!: pool_stepE simp: enqueue_def worker_take_def worker_finish_def shutdown_stop_def shutdownnow_stop_def
        split: if_splits list.splits)
qed (simp add: new_ThreadPool_def)

lemma pool_dropped_stop: "pool_run n p \<Longrightarrow> joined p \<Longrightarrow> n > 0 \<Longrightarrow> stop p \<and> tasks p = []"
  using pool_run_ok [of n p] pool_workers [of n p] by (cases "workers p") (auto simp: pool_ok_def joined_def)

lemma joined_busy: "joined p \<Longrightarrow> busy_tasks (workers p) = {#}"
proof -
  assume "joined p"
  then have "concat (map (\<lambda>w. case w of Busy t \<Rightarrow> [t] | _ \<Rightarrow> []) (workers p)) = []" by (auto simp: joined_def)
  then show ?thesis by (simp only: busy_tasks_def mset.simps)
qed

section \<open>Two workers\<close>

definition THREAD_COUNT :: nat where
  "THREAD_COUNT = 4"

lemmas pool_defs = enqueue_def worker_take_def worker_finish_def new_ThreadPool_def

text \<open>The second task can end before the first.\<close>

lemma pool_swaps:
  "\<exists>p. pool_run (Suc (Suc n)) p \<and> accepted p = [x, y] \<and> started p = [x, y] \<and> finished p = [y, x]"
proof -
  let ?ws = "replicate n Waiting"
  let ?p = "\<lambda>ts ws st fin acc. \<lparr>tasks = ts, stop = False, workers = ws @ ?ws, accepted = acc, started = st, finished = fin, dropped = []\<rparr>"
  have 0: "pool_run (Suc (Suc n)) (?p [] [Waiting, Waiting] [] [] [])"
    using pool_run.Start [of "Suc (Suc n)"] by (simp add: new_ThreadPool_def)
  have 1: "pool_run (Suc (Suc n)) (?p [x] [Waiting, Waiting] [] [] [x])"
    by (rule pool_run.Step [OF 0]) (auto intro!: pool_step.Submit [of x] simp: enqueue_def)
  have 2: "pool_run (Suc (Suc n)) (?p [x, y] [Waiting, Waiting] [] [] [x, y])"
    by (rule pool_run.Step [OF 1]) (auto intro!: pool_step.Submit [of y] simp: enqueue_def)
  have 3: "pool_run (Suc (Suc n)) (?p [y] [Busy x, Waiting] [x] [] [x, y])"
    using pool_step.Take [of 0 "?p [x, y] [Waiting, Waiting] [] [] [x, y]"] by (intro pool_run.Step [OF 2]) (simp add: worker_take_def)
  have 4: "pool_run (Suc (Suc n)) (?p [] [Busy x, Busy y] [x, y] [] [x, y])"
    using pool_step.Take [of 1 "?p [y] [Busy x, Waiting] [x] [] [x, y]"] by (intro pool_run.Step [OF 3]) (simp add: worker_take_def)
  have 5: "pool_run (Suc (Suc n)) (?p [] [Busy x, Waiting] [x, y] [y] [x, y])"
    using pool_step.Finish [of 1 "?p [] [Busy x, Busy y] [x, y] [] [x, y]" y]
    by (intro pool_run.Step [OF 4]) (simp add: worker_finish_def)
  have 6: "pool_run (Suc (Suc n)) (?p [] [Waiting, Waiting] [x, y] [y, x] [x, y])"
    using pool_step.Finish [of 0 "?p [] [Busy x, Waiting] [x, y] [y] [x, y]" x]
    by (intro pool_run.Step [OF 5]) (simp add: worker_finish_def)
  then show ?thesis by (intro exI [of _ "?p [] [Waiting, Waiting] [x, y] [y, x] [x, y]"]) simp
qed

section \<open>Properties\<close>

text \<open>C29. The pool starts tasks in the order in which they were accepted and loses none: in every state
  the accepted tasks are the started ones, then those a forced shutdown dropped, then the waiting
  ones, and what was started is running or finished.  When a shutdown without force has joined its
  threads, every accepted task is finished.\<close>

theorem pool_fifo_and_drained:
  assumes "pool_run n p"
  shows "accepted p = started p @ dropped p @ tasks p \<and> mset (started p) = busy_tasks (workers p) + mset (finished p) \<and>
    (joined p \<and> n > 0 \<and> dropped p = [] \<longrightarrow> mset (finished p) = mset (accepted p))"
  using pool_run_ok [OF assms] pool_dropped_stop [OF assms] joined_busy [of p] by (auto simp: pool_ok_def)

theorem pool_fifo_and_drained_witness:
  "\<exists>p. pool_run 2 p \<and> finished p = [''b'', ''a''] \<and> accepted p = [''a'', ''b''] @ dropped p @ tasks p \<and>
     mset (started p) = busy_tasks (workers p) + mset (finished p)"
proof -
  obtain p where p: "pool_run 2 p" "started p = [''a'', ''b'']" "finished p = [''b'', ''a'']"
    using pool_swaps [of 0 "''a''" "''b''"] by (auto simp: numeral_2_eq_2)
  with pool_fifo_and_drained [OF p(1)] show ?thesis by metis
qed

text \<open>A pool that was told to stop accepts nothing, and a stopped pool whose queue is empty can only
  finish what is running: no task starts any more.\<close>

theorem stopped_pool_starts_nothing:
  assumes "stop p" "tasks p = []" "pool_step p p'"
  shows "enqueue task p = Inl (Runtime_Error ''stop!!'') \<and> stop p' \<and> tasks p' = [] \<and> started p' = started p"
  using assms
  by (auto elim!: pool_stepE simp: enqueue_def worker_take_def worker_finish_def shutdown_stop_def shutdownnow_stop_def
      split: worker.splits)

theorem stopped_pool_starts_nothing_witness:
  "pool_step (shutdown_stop (new_ThreadPool 1)) (worker_take 0 (shutdown_stop (new_ThreadPool 1 :: nat Pool))) \<and>
   enqueue 3 (shutdown_stop (new_ThreadPool 1 :: nat Pool)) = Inl (Runtime_Error ''stop!!'') \<and>
   started (worker_take 0 (shutdown_stop (new_ThreadPool 1 :: nat Pool))) = []"
proof -
  let ?p = "shutdown_stop (new_ThreadPool 1 :: nat Pool)"
  have "pool_step ?p (worker_take 0 ?p)"
    by (rule pool_step.Take) (simp_all add: shutdown_stop_def new_ThreadPool_def)
  with stopped_pool_starts_nothing [of ?p _ 3, OF _ _ this] show ?thesis
    by (simp add: shutdown_stop_def new_ThreadPool_def)
qed

text \<open>All workers reach their loop exactly if the machine tells its number of cores and the process may run on every
  core of that many, counted from 0; a process that is confined to other cores of the machine dies.\<close>

theorem workers_start_iff:
  "(\<forall>i<threadCount. start_worker setaffinity hw i = Inr ()) \<longleftrightarrow>
   threadCount = 0 \<or> (0 < hw \<and> (\<forall>cpu<min threadCount hw. setaffinity cpu = 0))"
proof (cases "hw = 0")
  case False
  have "(\<forall>i<threadCount. setaffinity (i mod hw) = 0) \<longleftrightarrow> (\<forall>cpu<min threadCount hw. setaffinity cpu = 0)" (is "?l \<longleftrightarrow> ?r")
  proof
    assume ?l
    then show ?r by (metis min_less_iff_conj mod_less)
  next
    assume r: ?r
    have "i mod hw < min threadCount hw" if "i < threadCount" for i
      using that False mod_less_eq_dividend [of i hw] by (auto simp: min_def)
    then show ?l using r by blast
  qed
  then show ?thesis using False by (auto simp: start_worker_def bindToCPU_def)
qed (auto simp: start_worker_def)

end
