(* ===== verification/Server_Loop.thy ===== *)
theory Server_Loop
  imports Server_Protocol Net_Io Thread_Pool
begin

text \<open>
  The main loop of \<open>server/Server.cpp\<close>: accepting and reading sockets, handing requests to the pool,
  sending the queued messages, the Raft timers and the application of committed commands, joining a
  cluster and leaving it.  What the kernel answers is an argument of each step.  \<open>epoll_step\<close> keeps
  \<open>queueMutex\<close> from the moment it drains the queue to its end: a callback that locks the mutex again
  (a Raft message, a failed node) waits for ever, which is \<open>Deadlock\<close>.

  \<open>socks\<close> are the sockets of the main thread with their parsers, \<open>wire\<close> is what was handed to the
  kernel, in order.
\<close>

section \<open>State and inputs\<close>

datatype task = Handle_Command int RespValue | Send_Data u64

record Loop =
  srv :: Server
  socks :: "(int, RespParser) smap"
  pool :: "task Pool"
  raft_msg_queue :: "(u64 \<times> u64 \<times> string) list"
  wire :: "(int \<times> string) list"

datatype epoll_event = Listening "int list" | Wake_Up | Readable int recv_io

text \<open>What the kernel does when the server opens a connection: an error or a descriptor, how the
  greeting is sent, and everything that arrives as the answer.\<close>

record connect_io =
  conn_fd :: "kv_error + int"
  hello_io :: send_io
  hello_reply :: "string list"

text \<open>\<open>epoll_wait\<close>: interrupted by a signal, failed, or the ready descriptors.\<close>

datatype poll_result = Poll_Interrupted | Poll_Failed string | Polled "epoll_event list"

record step_io =
  polled :: poll_result
  send_ios :: "nat \<Rightarrow> send_io"
  connect_ios :: "nat \<Rightarrow> connect_io"
  randoms :: "nat \<Rightarrow> nat"
  clock :: u64

definition enqueue_task :: "task \<Rightarrow> Loop \<Rightarrow> Loop res" where
  "enqueue_task t l = bindE (enqueue t (pool l)) (\<lambda>p. Inr (l\<lparr>pool := p\<rparr>))"

section \<open>Reading\<close>

text \<open>\<open>Server::accept\<close>, called until no connection is waiting.\<close>

definition accept_socks :: "int list \<Rightarrow> Loop \<Rightarrow> Loop" where
  "accept_socks fds l = l\<lparr>socks := fold (\<lambda>fd. map_insert fd new_RespParser) fds (socks l)\<rparr>"

text \<open>An event for a descriptor without a socket makes \<open>connections[fd]\<close> create an unconnected socket,
  which cannot be removed from epoll.\<close>

definition on_readable :: "int \<Rightarrow> recv_io \<Rightarrow> Loop \<Rightarrow> Loop res" where
  "on_readable fd io l = (case map_of (socks l) fd of
     None \<Rightarrow> Inl (Runtime_Error ''Epoll delete error: No such file or directory'')
   | Some parser \<Rightarrow> bindE (server_recv io) (\<lambda>(str, dropped_conn).
       let l = (if dropped_conn then l\<lparr>socks := map_erase fd (socks l)\<rparr> else l) in
       if str = [] \<or> dropped_conn then Inr l
       else bindE (append parser str) (\<lambda>parser.
         let l = l\<lparr>socks := map_insert fd (parser\<lparr>message_queue := []\<rparr>) (socks l)\<rparr> in
         foldE (\<lambda>l v. enqueue_task (Handle_Command fd v) l) l (message_queue parser))))"

definition on_event :: "Loop \<Rightarrow> epoll_event \<Rightarrow> Loop res" where
  "on_event l ev = (case ev of
     Listening fds \<Rightarrow> Inr (accept_socks fds l)
   | Wake_Up \<Rightarrow> Inr l
   | Readable fd io \<Rightarrow> on_readable fd io l)"

section \<open>Sending the queue\<close>

definition send_to :: "send_io \<Rightarrow> string \<Rightarrow> int \<Rightarrow> Loop \<Rightarrow> Loop res" where
  "send_to io text fd l = bindE (server_send io text) (\<lambda>(sent, closed).
     let l = l\<lparr>wire := wire l @ [(fd, sent)]\<rparr> in
     Inr (if closed then l\<lparr>socks := map_erase fd (socks l)\<rparr> else l))"

text \<open>\<open>iss >> ip >> port >> uuid\<close> on the text of a connection request (numbers without a sign).  After a
  failed extraction nothing more is assigned, and the identity stays uninitialised.\<close>

definition connect_target :: "string \<Rightarrow> (string \<times> u16 \<times> u64) res" where
  "connect_target text = (case split_ws text of
     a # p # rest \<Rightarrow>
       let d = takeWhile is_digit p; more = dropWhile is_digit p in
       if d = [] \<or> dec_value 0 d > 65535 then Inl (UB Uninitialised)
       else let tok = (if more \<noteq> [] then Some more else case rest of [] \<Rightarrow> None | u # _ \<Rightarrow> Some u) in
         (case tok of
            None \<Rightarrow> Inl (UB Uninitialised)
          | Some u \<Rightarrow> Inr (a, of_nat (dec_value 0 d), of_nat (min (dec_value 0 (takeWhile is_digit u)) (2 ^ 64 - 1))))
   | _ \<Rightarrow> Inl (UB Uninitialised))"

definition hello_text :: "Cluster \<Rightarrow> string" where
  "hello_text c = ''*2'' @ crlf @ ''+HELLO'' @ crlf @ ''+'' @ to_string (unat (UUID (self_node c))) @ crlf"

definition connect_node :: "connect_io \<Rightarrow> u64 \<Rightarrow> Loop \<Rightarrow> Loop res" where
  "connect_node io uuid l = bindE (conn_fd io) (\<lambda>fd.
     bindE (server_send (hello_io io) (hello_text (cluster (srv l)))) (\<lambda>(sent, closed).
     bindE (await_result new_RespParser (hello_reply io)) (\<lambda>parser.
       let l = l\<lparr>socks := map_insert fd (snd (getResult parser)) (socks l), wire := wire l @ [(fd, sent)],
                 srv := (srv l)\<lparr>cluster := addConnection uuid fd (cluster (srv l))\<rparr>\<rparr>
       in enqueue_task (Send_Data uuid) l)))"

definition send_message :: "step_io \<Rightarrow> Loop \<Rightarrow> nat \<times> string \<times> int \<Rightarrow> Loop res" where
  "send_message io l = (\<lambda>(i, text, fd).
     if fd = -1 then bindE (connect_target text) (\<lambda>(addr, p, uuid). connect_node (connect_ios io i) uuid l)
     else if fd = -2 then bindE (initRaftGroups (randoms io) (srv l)) (\<lambda>s. Inr (l\<lparr>srv := s\<rparr>))
     else if map_of (socks l) fd = None then Inr l
     else send_to (send_ios io i) text fd l)"

definition drain_queue :: "step_io \<Rightarrow> Loop \<Rightarrow> Loop res" where
  "drain_queue io l =
     (let q = out_queue (srv l) in
      foldE (send_message io) (l\<lparr>srv := (srv l)\<lparr>out_queue := []\<rparr>\<rparr>) (zip [0..<length q] q))"

section \<open>Raft under the lock\<close>

definition run_raft_locked :: "u64 \<Rightarrow> (RaftNode \<Rightarrow> raft_res) \<Rightarrow> Server \<Rightarrow> Server res" where
  "run_raft_locked gid f s = (case getRaftGroup gid s of
     None \<Rightarrow> Inr s
   | Some rn \<Rightarrow> bindE (f rn) (\<lambda>(rn', ms).
       if \<exists>m\<in>set ms. getConnection (fst m) (cluster s) \<noteq> -1 then Inl Deadlock
       else Inr (s\<lparr>raft_groups := map_insert gid rn' (raft_groups s)\<rparr>)))"

text \<open>The queue between the workers and the main thread; no handler fills it.\<close>

definition enqueueRaftMsg :: "u64 \<Rightarrow> u64 \<Rightarrow> string \<Rightarrow> Loop \<Rightarrow> Loop" where
  "enqueueRaftMsg gid sender raw l = l\<lparr>raft_msg_queue := raft_msg_queue l @ [(gid, sender, raw)]\<rparr>"

definition raft_messages :: "(nat \<Rightarrow> nat) \<Rightarrow> Loop \<Rightarrow> Loop res" where
  "raft_messages rand l = bindE (foldE (\<lambda>s (gid, sender, raw). run_raft_locked gid (step rand sender raw) s)
     (srv l) (raft_msg_queue l)) (\<lambda>s. Inr (l\<lparr>srv := s, raft_msg_queue := []\<rparr>))"

definition mark_alive :: "u64 \<Rightarrow> Loop \<Rightarrow> Loop" where
  "mark_alive now l = l\<lparr>srv := (srv l)\<lparr>cluster :=
     fold (\<lambda>(uuid, fd) c. if fd \<noteq> -1 \<and> map_of (socks l) fd \<noteq> None then updateHeartbeat now fd c else c)
       (connections (cluster (srv l))) (cluster (srv l))\<rparr>\<rparr>"

definition detect_failures :: "u64 \<Rightarrow> Loop \<Rightarrow> Loop res" where
  "detect_failures now l =
     (let (c, dead) = checkTimeouts now (cluster (srv l)) in
      if dead \<noteq> [] then Inl Deadlock else Inr (l\<lparr>srv := (srv l)\<lparr>cluster := c\<rparr>\<rparr>))"

definition makeCommand :: "string \<Rightarrow> RespValue" where
  "makeCommand cmd = Array (Some (map SimpleString (split_ws cmd)))"

definition apply_entry :: "Server \<Rightarrow> LogEntry \<Rightarrow> Server res" where
  "apply_entry s e = run_noAOF s (makeCommand (command e))"

text \<open>One group: tick, then apply what was committed.\<close>

definition raft_round :: "(nat \<Rightarrow> nat) \<Rightarrow> Server \<Rightarrow> u64 \<Rightarrow> Server res" where
  "raft_round rand s gid = bindE (run_raft_locked gid (tick rand) s) (\<lambda>s.
     case getRaftGroup gid s of
       None \<Rightarrow> Inr s
     | Some rn \<Rightarrow>
         if hasPendingApply rn then
           let (rn', es) = takePendingApply rn in
           foldE apply_entry (s\<lparr>raft_groups := map_insert gid rn' (raft_groups s)\<rparr>) es
         else Inr s)"

definition raft_rounds :: "(nat \<Rightarrow> nat) \<Rightarrow> Loop \<Rightarrow> Loop res" where
  "raft_rounds rand l = bindE (foldE (raft_round rand) (srv l) (map fst (raft_groups (srv l)))) (\<lambda>s. Inr (l\<lparr>srv := s\<rparr>))"

section \<open>The loop\<close>

definition epoll_step :: "step_io \<Rightarrow> Loop \<Rightarrow> Loop res" where
  "epoll_step io l = (case polled io of
     Poll_Interrupted \<Rightarrow> Inr l
   | Poll_Failed e \<Rightarrow> Inl (Runtime_Error (''Epoll wait error: '' @ e))
   | Polled evs \<Rightarrow>
       bindE (foldE on_event l evs) (\<lambda>l.
       bindE (drain_queue io l) (\<lambda>l.
       bindE (raft_messages (randoms io) l) (\<lambda>l.
       bindE (detect_failures (clock io) (mark_alive (clock io) l)) (\<lambda>l.
       raft_rounds (randoms io) l)))))"

text \<open>A task of the pool, run by a worker.\<close>

definition run_task :: "(nat \<Rightarrow> nat) \<Rightarrow> int \<Rightarrow> u64 \<Rightarrow> task \<Rightarrow> Server \<Rightarrow> Server res" where
  "run_task rand st now t s = (case t of
     Handle_Command sock v \<Rightarrow> handleCommand rand st now sock v s
   | Send_Data uuid \<Rightarrow> sendDataToNode uuid s)"

section \<open>Leaving\<close>

definition nodeout_text :: "u64 \<Rightarrow> Cluster \<Rightarrow> string" where
  "nodeout_text gossip_uuid c = ''*3'' @ crlf @ ''+NODEOUT'' @ crlf @ ''+'' @ to_string (unat gossip_uuid) @ crlf @
     ''+'' @ to_string (unat (UUID (self_node c))) @ crlf"

text \<open>The callback of \<open>forEach\<close>: an entry goes to its new owner, if there is a connection to it.\<close>

definition handover :: "Cluster \<Rightarrow> (int \<times> string) list \<Rightarrow> string \<times> RespValue \<Rightarrow> (int \<times> string) list res" where
  "handover c outs = (\<lambda>(key, v). bindE (queryNode c key) (\<lambda>owner_uuid.
     let target_fd = getConnection owner_uuid c in
     Inr (if owner_uuid \<noteq> UUID (self_node c) \<and> target_fd \<noteq> -1
          then outs @ [(target_fd, ''*3'' @ crlf @ ''+SET'' @ crlf @ ''+'' @ key @ crlf @ encode v)]
          else outs)))"

text \<open>The second component lists the calls of \<open>::send\<close>, whose result is only logged.\<close>

definition gracefulShutdown :: "u64 \<Rightarrow> u64 \<Rightarrow> Loop \<Rightarrow> (Loop \<times> (int \<times> string) list) res" where
  "gracefulShutdown now gossip_uuid l =
     (let c = addGossip now gossip_uuid (cluster (srv l));
          self = UUID (self_node c);
          outs = map (\<lambda>(uuid, fd). (fd, nodeout_text gossip_uuid c)) (filter (\<lambda>(uuid, fd). uuid \<noteq> self) (connections c));
          c = delTopoNode self (delNodeToHash self c)
      in bindE (foldE (handover c) outs (kv_entries (kvstore (srv l)))) (\<lambda>outs.
           Inr (l\<lparr>srv := (srv l)\<lparr>cluster := c\<rparr>\<rparr>, outs)))"

text \<open>\<open>Server::run\<close>: steps until a shutdown is requested (the list of inputs ends) or a step throws; the
  exceptions of the standard library are caught and the server shuts down.\<close>

datatype run_result = Shut_Down Loop "(int \<times> string) list" | Shut_Down_After kv_error | Died kv_error

definition caught :: "kv_error \<Rightarrow> bool" where
  "caught e = (case e of UB _ \<Rightarrow> False | Deadlock \<Rightarrow> False | Hang \<Rightarrow> False | _ \<Rightarrow> True)"

fun run_loop :: "u64 \<Rightarrow> u64 \<Rightarrow> step_io list \<Rightarrow> Loop \<Rightarrow> run_result" where
  "run_loop now gossip [] l = (case gracefulShutdown now gossip l of Inl e \<Rightarrow> Died e | Inr (l, outs) \<Rightarrow> Shut_Down l outs)"
| "run_loop now gossip (io # ios) l = (case epoll_step io l of
     Inl e \<Rightarrow> if caught e then Shut_Down_After e else Died e
   | Inr l \<Rightarrow> run_loop now gossip ios l)"

definition server_run :: "(nat \<Rightarrow> nat) \<Rightarrow> u64 \<Rightarrow> u64 \<Rightarrow> step_io list \<Rightarrow> Loop \<Rightarrow> run_result" where
  "server_run rand now gossip ios l =
     (case initRaftGroups rand ((srv l)\<lparr>cluster := cluster_start (cluster (srv l))\<rparr>) of
        Inl e \<Rightarrow> Died e
      | Inr s \<Rightarrow> run_loop now gossip ios (l\<lparr>srv := s\<rparr>))"

section \<open>Joining\<close>

record join_io =
  boot_fd :: "kv_error + int"
  join_sends :: "nat \<Rightarrow> send_io"
  network_reply :: "string list"
  greeting_reply :: "string list"

definition nodein_text :: "u64 \<Rightarrow> Cluster \<Rightarrow> string" where
  "nodein_text msg_UUID c = ''*3'' @ crlf @ ''+NODEIN'' @ crlf @ ''+'' @ to_string (unat msg_UUID) @ crlf @ encodeNode (self_node c)"

definition learn_node :: "string \<Rightarrow> u16 \<Rightarrow> int \<Rightarrow> Node \<Rightarrow> Cluster \<Rightarrow> Cluster" where
  "learn_node bootstrap_ip bootstrap_port fd n c =
     (let c = addNodeToHash (UUID n) (addTopoNode n c) in
      if ip n = bootstrap_ip \<and> port n = bootstrap_port then addConnection (UUID n) fd c else c)"

definition joinCluster :: "join_io \<Rightarrow> string \<Rightarrow> u16 \<Rightarrow> u64 \<Rightarrow> u64 \<Rightarrow> Loop \<Rightarrow> Loop res" where
  "joinCluster io bootstrap_ip bootstrap_port now msg_UUID l = bindE (boot_fd io) (\<lambda>fd.
     bindE (server_send (join_sends io 0) (''*1'' @ crlf @ ''+GETNETWORK'' @ crlf)) (\<lambda>(sent0, _).
     bindE (await_result new_RespParser (network_reply io)) (\<lambda>parser.
     let (v, parser) = getResult parser in
     bindE (getTopoV2 (the v) []) (\<lambda>(nodes, tmp_groups).
     let s = markSyncing (int (length nodes)) (srv l);
         s = s\<lparr>cluster := fold (learn_node bootstrap_ip bootstrap_port fd) nodes (cluster s)\<rparr> in
     bindE (server_send (join_sends io 1) (hello_text (cluster s))) (\<lambda>(sent1, _).
     bindE (await_result parser (greeting_reply io)) (\<lambda>_.
     let s = s\<lparr>cluster := addGossip now msg_UUID (cluster s)\<rparr> in
     bindE (server_send (join_sends io 2) (nodein_text msg_UUID (cluster s))) (\<lambda>(sent2, _).
       Inr (l\<lparr>srv := s, socks := map_insert fd new_RespParser (socks l),
              wire := wire l @ [(fd, sent0), (fd, sent1), (fd, sent2)]\<rparr>))))))))"

end
