(* ===== verification/Loop_Properties.thy ===== *)
theory Loop_Properties
  imports Server_Loop
begin

text \<open>
  What the main loop guarantees and where it stops: requests enter the pool in the order of their
  bytes, the Raft timers run under the lock of the message queue, an exception of one step ends the
  loop, and a node that leaves hands its keys over.
\<close>

section \<open>Quiet steps\<close>

text \<open>A step without events, messages and failed nodes only runs the Raft timers.\<close>

definition quiet :: "step_io \<Rightarrow> Loop \<Rightarrow> bool" where
  "quiet io l \<longleftrightarrow> polled io = Polled [] \<and> out_queue (srv l) = [] \<and> raft_msg_queue l = [] \<and>
     timed_out (clock io) (cluster (srv (mark_alive (clock io) l))) = []"

lemma mark_alive_frame [simp]:
  "socks (mark_alive now l) = socks l" "raft_groups (srv (mark_alive now l)) = raft_groups (srv l)"
  "kvstore (srv (mark_alive now l)) = kvstore (srv l)"
  by (simp_all add: mark_alive_def)

lemma updateHeartbeat_connections [simp]: "connections (updateHeartbeat now fd c) = connections c"
  by (simp add: updateHeartbeat_def split: option.split)

lemma mark_alive_connection [simp]:
  "getConnection u (cluster (srv (mark_alive now l))) = getConnection u (cluster (srv l))"
proof -
  have "connections (fold (\<lambda>(uuid, fd) c. if fd \<noteq> -1 \<and> map_of (socks l) fd \<noteq> None then updateHeartbeat now fd c else c) cs c) =
      connections c" for cs :: "(u64 \<times> int) list" and c
    by (induction cs arbitrary: c) auto
  then show ?thesis by (simp add: mark_alive_def getConnection_def)
qed

lemma quiet_step:
  assumes "quiet io l"
  shows "epoll_step io l = raft_rounds (randoms io) (mark_alive (clock io) l)"
proof -
  have "(srv l)\<lparr>out_queue := []\<rparr> = srv l" using assms by (intro Server.equality) (simp_all add: quiet_def)
  moreover have "l\<lparr>srv := srv l\<rparr> = l" by simp
  ultimately have "drain_queue io l = Inr l"
    using assms by (simp only: drain_queue_def Let_def quiet_def list.size upt_0 zip_Nil foldE.simps)
  moreover have "raft_messages rand l = Inr l" for rand
    using assms by (simp add: raft_messages_def quiet_def)
  ultimately show ?thesis using assms
    by (simp add: quiet_def epoll_step_def detect_failures_def checkTimeouts_def)
qed

section \<open>Raft in a step\<close>

lemma tick_election:
  assumes "role rn \<noteq> Leader" "electionTimer rn \<le> 1"
  shows "\<exists>rn' ms. tick rand rn = Inr (rn', ms) \<and> map fst ms = peers rn"
  using assms by (simp add: tick_def Let_def sendRequestVote_def becomeCandidate_def resetElectionTimer_def o_def)

lemma tick_solo:
  assumes "role rn = Leader" "peers rn = []"
  shows "\<exists>rn'. tick rand rn = Inr (rn', []) \<and> rlog rn' = rlog rn \<and> commitIndex rn' = commitIndex rn \<and> lastApplied rn' = lastApplied rn"
  using assms by (simp add: tick_def Let_def send_to_all_def)

lemma split_ws_SET: "is_word key \<Longrightarrow> split_ws (''SET '' @ key @ '' '' @ w) = ''SET'' # key # split_ws w"
proof -
  assume key: "is_word key"
  have "is_word ''SET''" by (simp add: is_word_def is_space_def)
  from split_ws_Cons [OF this, of "key @ '' '' @ w"] split_ws_Cons [OF key, of w] show ?thesis by simp
qed

lemma apply_SET:
  assumes "is_word key" "command e = ''SET '' @ key @ '' '' @ w"
  shows "apply_entry s e = (case split_ws w of
      [x] \<Rightarrow> bindE (kv_set (kvstore s) key (SimpleString x)) (\<lambda>(kv, _). Inr (s\<lparr>kvstore := kv\<rparr>))
    | _ \<Rightarrow> Inl (Runtime_Error ''SET: Wrong number of arguments''))"
  unfolding apply_entry_def makeCommand_def assms(2) split_ws_SET [OF assms(1)]
  by (auto simp: run_noAOF_def handle_noAOF_def SET_noAOF_def request_elements_def bindE_assoc case_prod_unfold
      split: list.split)

lemma pending_first:
  assumes "lastApplied rn < commitIndex rn" "Suc (lastApplied rn) < length (rlog rn)"
  shows "\<exists>es. snd (takePendingApply rn) = rlog rn ! Suc (lastApplied rn) # es"
proof -
  have "[Suc (lastApplied rn)..<Suc (commitIndex rn)] = Suc (lastApplied rn) # [Suc (Suc (lastApplied rn))..<Suc (commitIndex rn)]"
    using assms(1) by (intro upt_conv_Cons) simp
  then show ?thesis using assms(2) by (simp add: takePendingApply_def)
qed

section \<open>Reading requests\<close>

lemma enqueue_all:
  assumes "\<not> stop (pool l)"
  shows "\<exists>l'. foldE (\<lambda>l v. enqueue_task (Handle_Command fd v) l) l vs = Inr l' \<and> \<not> stop (pool l') \<and>
    accepted (pool l') = accepted (pool l) @ map (Handle_Command fd) vs \<and>
    tasks (pool l') = tasks (pool l) @ map (Handle_Command fd) vs \<and> srv l' = srv l \<and> socks l' = socks l"
  using assms
proof (induction vs arbitrary: l)
  case (Cons v vs)
  let ?l = "l\<lparr>pool := (pool l)\<lparr>tasks := tasks (pool l) @ [Handle_Command fd v], accepted := accepted (pool l) @ [Handle_Command fd v]\<rparr>\<rparr>"
  have "enqueue_task (Handle_Command fd v) l = Inr ?l" using Cons.prems by (simp add: enqueue_task_def enqueue_def)
  with Cons.IH [of ?l] Cons.prems show ?case by auto
qed simp

lemma read_requests:
  assumes "map_of (socks l) fd = Some p" "between_messages p" "message_queue p = []" "\<not> stop (pool l)"
    and "concat chunks = concat (map encode vs)" "list_all resp_ok vs"
  shows "\<exists>l'. on_readable fd (chunks, Recv_Blocked) l = Inr l' \<and> srv l' = srv l \<and>
    accepted (pool l') = accepted (pool l) @ map (Handle_Command fd) vs \<and>
    tasks (pool l') = tasks (pool l) @ map (Handle_Command fd) vs"
proof (cases "vs = []")
  case True
  then show ?thesis using assms(1,5) by (simp add: on_readable_def server_recv_def)
next
  case False
  then obtain v ws where "vs = v # ws" by (cases vs) auto
  then have ne: "concat (map encode vs) \<noteq> []" by simp
  obtain q where q: "append p (concat (map encode vs)) = Inr q" "message_queue q = vs"
    using resp.run_stream [OF assms(2,6)] assms(3) by auto
  let ?l = "l\<lparr>socks := map_insert fd (q\<lparr>message_queue := []\<rparr>) (socks l)\<rparr>"
  show ?thesis using enqueue_all [of ?l fd vs] assms(1,4,5) ne q
    by (auto simp: on_readable_def server_recv_def Let_def)
qed

section \<open>Leaving\<close>

lemma handover_set_text: "''*3'' @ crlf @ ''+SET'' @ crlf @ ''+'' @ key @ crlf @ encode v = encode (set_request (key, v))"
  by (simp add: set_request_def to_string.simps numeral_3_eq_3 [symmetric])

lemma handover_all:
  assumes "sorted_map (node_hash c)" "node_hash c \<noteq> []"
  shows "\<exists>outs'. foldE (handover c) outs kvs = Inr outs' \<and> set outs \<subseteq> set outs' \<and>
    (\<forall>(key, v)\<in>set kvs. \<forall>owner. queryNode c key = Inr owner \<longrightarrow> owner \<noteq> UUID (self_node c) \<longrightarrow> getConnection owner c \<noteq> -1 \<longrightarrow>
       (getConnection owner c, encode (set_request (key, v))) \<in> set outs')"
proof (induction kvs arbitrary: outs)
  case (Cons e kvs)
  obtain key v where e: "e = (key, v)" by (cases e)
  obtain owner where owner: "queryNode c key = Inr owner"
    using ring_query_hd [OF assms] by (auto simp: queryNode_def)
  define o1 where "o1 = (if owner \<noteq> UUID (self_node c) \<and> getConnection owner c \<noteq> -1
    then outs @ [(getConnection owner c, encode (set_request (key, v)))] else outs)"
  have h: "handover c outs e = Inr o1" by (simp only: e handover_def prod.case owner bindE_simps Let_def handover_set_text o1_def)
  obtain o2 where o2: "foldE (handover c) o1 kvs = Inr o2" "set o1 \<subseteq> set o2"
      "\<forall>(key, v)\<in>set kvs. \<forall>owner. queryNode c key = Inr owner \<longrightarrow> owner \<noteq> UUID (self_node c) \<longrightarrow> getConnection owner c \<noteq> -1 \<longrightarrow>
       (getConnection owner c, encode (set_request (key, v))) \<in> set o2"
    using Cons.IH [of o1] by blast
  have "foldE (handover c) outs (e # kvs) = Inr o2" using h o2(1) by simp
  moreover have "set outs \<subseteq> set o2" using o2(2) by (auto simp: o1_def split: if_splits)
  moreover have "(getConnection owner c, encode (set_request (key, v))) \<in> set o2"
    if "owner \<noteq> UUID (self_node c)" "getConnection owner c \<noteq> -1" using that o2(2) by (auto simp: o1_def)
  ultimately show ?case using o2(3) owner e by (intro exI [of _ o2]) auto
qed simp

lemma leave_frame:
  "self_node (addGossip now gossip c) = self_node c" "connections (addGossip now gossip c) = connections c"
  "self_node (delTopoNode u (delNodeToHash u (addGossip now gossip c))) = self_node c"
  "node_hash (delTopoNode u (delNodeToHash u (addGossip now gossip c))) = node_hash (delNodeToHash u c)"
  by (simp_all add: addGossip_def Let_def delTopoNode_def delNodeToHash_def delConnection_def)

section \<open>Example states\<close>

definition lone_loop :: Loop where
  "lone_loop = \<lparr>srv = lone_server, socks = [(9, new_RespParser)], pool = new_ThreadPool THREAD_COUNT, raft_msg_queue = [], wire = []\<rparr>"

definition idle_io :: step_io where
  "idle_io = \<lparr>polled = Polled [], send_ios = (\<lambda>_. ([], Send_Blocked)), connect_ios = (\<lambda>_. \<lparr>conn_fd = Inl Hang, hello_io = ([], Send_Blocked), hello_reply = []\<rparr>),
     randoms = (\<lambda>_. 0), clock = 0\<rparr>"

lemma lone_server_cluster [simp]:
  "connections (cluster lone_server) = []" "heartbeat_time (cluster lone_server) = []" "out_queue lone_server = []"
  "self_node (cluster lone_server) = \<lparr>ip = ''10.0.0.1'', port = 7800, UUID = 7\<rparr>"
  by (simp_all add: lone_server_def idle_Server_def Let_def addNodeToHash_def new_Cluster_at_def)

lemma lone_server_cluster_ok: "cluster_ok (cluster lone_server)"
  using new_Cluster_ok(2) by (auto simp: lone_server_def idle_Server_def Let_def intro: cluster_ops_ok)

lemma quiet_groups:
  "quiet idle_io (lone_loop\<lparr>srv := lone_server\<lparr>raft_groups := gs, cluster := addConnection u 12 (cluster lone_server)\<rparr>\<rparr>)"
  "quiet idle_io (lone_loop\<lparr>srv := lone_server\<lparr>raft_groups := gs\<rparr>\<rparr>)"
  by (simp_all add: quiet_def idle_io_def lone_loop_def mark_alive_def timed_out_def addConnection_def)

lemma new_store_get: "kv_get (new_KVStore SHARD_COUNT :: 'v KVStore) key = Inr (new_KVStore SHARD_COUNT, None)"
proof -
  let ?s = "new_KVStore SHARD_COUNT :: 'v KVStore"
  have sh: "shards ?s ! shard_of ?s key = new_Shard"
    by (simp add: new_KVStore_def SHARD_COUNT_def shard_of_def)
  have "ht_get (data (new_Shard :: 'v Shard)) key = Inr None"
    by (simp add: new_Shard_def ht_get_eq new_HashTable_core new_has_empty)
  then show ?thesis using sh by (simp add: kv_get_def Let_def getShard_ok [OF kv.invar_new])
qed

lemma lone_server_get:
  "handleCommand rand st now 9 (request_of (Get key)) lone_server = Inr (enqueue_msg (encode (BulkString None)) 9 lone_server)"
  by (simp add: handleCommand_def handle_def GET_def request_elements_def getValue_eq new_store_get)
    (simp add: enqueue_msg_def)

lemma lone_server_set_after:
  "\<exists>s. handleCommand rand st now 9 (request_of (Set key (SimpleString v))) (lone_server\<lparr>out_queue := q\<rparr>) = Inr s \<and>
     out_queue s = q @ [(encode (SimpleString ''OK''), 9)]"
proof -
  let ?s = "lone_server\<lparr>out_queue := q\<rparr>"
  obtain kv ev where kv: "kv_set (kvstore ?s) key (SimpleString v) = Inr (kv, ev)"
    using new_store_set [of key "SimpleString v"] by (auto simp: kv_update_def bindE_Inr_iff)
  have p: "propose_for key cmd ?s = Inr ?s" for cmd
    by (simp add: propose_for_def getGroupForKey_def lone_server_owns)
  have m: "isMasterFor (cluster ?s) key = Inr True" by (simp add: lone_server_owns)
  have w: "value_string (SimpleString v) = Inr v" by (simp add: value_string_def)
  show ?thesis using SET_stores [OF m w p kv, of st "SimpleString ''SET''"]
    by (simp add: handleCommand_def handle_def enqueue_msg_def del: encode_Array encode_SimpleString)
qed

section \<open>Properties\<close>

text \<open>The main loop locks itself out: it keeps the mutex of the message queue while the Raft timers
  run, and a Raft message locks that mutex again.  As soon as the election timer of a group runs out
  while one of its peers is connected, \<open>epoll_step\<close> never returns.\<close>

theorem election_blocks_main_loop:
  assumes "quiet io l" "raft_groups (srv l) = (gid, rn) # gs" "role rn \<noteq> Leader" "electionTimer rn \<le> 1"
    and "u \<in> set (peers rn)" "getConnection u (cluster (srv l)) \<noteq> -1"
  shows "epoll_step io l = Inl Deadlock"
proof -
  obtain rn' ms where t: "tick (randoms io) rn = Inr (rn', ms)" "map fst ms = peers rn"
    using tick_election [OF assms(3,4)] by blast
  then obtain m where m: "m \<in> set ms" "fst m = u" using assms(5) by (metis imageE set_map)
  let ?s = "srv (mark_alive (clock io) l)"
  have "\<exists>m\<in>set ms. getConnection (fst m) (cluster ?s) \<noteq> -1" using m assms(6) by auto
  then have "raft_round (randoms io) ?s gid = Inl Deadlock"
    using t(1) assms(2) by (simp add: raft_round_def run_raft_locked_def getRaftGroup_def)
  then show ?thesis by (simp add: quiet_step [OF assms(1)] raft_rounds_def assms(2))
qed

theorem election_blocks_main_loop_witness:
  "\<exists>rn. peers rn = [8] \<and> role rn = Follower \<and> electionTimer rn = 1 \<and>
     epoll_step idle_io (lone_loop\<lparr>srv := lone_server\<lparr>raft_groups := [(0, rn)], cluster := addConnection 8 12 (cluster lone_server)\<rparr>\<rparr>) = Inl Deadlock"
proof -
  obtain n :: RaftNode where n: "peers n = [8]" "role n = Follower"
    using new_RaftNode_load [of "[]" "\<lambda>_. 0" 0 7 "[8]"] by auto
  let ?rn = "n\<lparr>electionTimer := 1\<rparr>"
  have "epoll_step idle_io (lone_loop\<lparr>srv := lone_server\<lparr>raft_groups := [(0, ?rn)], cluster := addConnection 8 12 (cluster lone_server)\<rparr>\<rparr>) = Inl Deadlock"
    using n by (intro election_blocks_main_loop [OF quiet_groups(1), where u = 8])
      (auto simp: getConnection_def addConnection_def)
  with n show ?thesis by (intro exI [of _ ?rn]) simp
qed

text \<open>One bad byte stops the server: when a client whose connection is between two messages sends a
  byte that starts no RESP value, the exception of the parser ends the main loop, and the server
  leaves the cluster and exits.\<close>

theorem bad_byte_stops_server:
  assumes "polled io = Polled (Readable fd ((b # bytes) # chunks, Recv_Blocked) # evs)"
    and "map_of (socks l) fd = Some p" "between_messages p" "b \<notin> set ''+-:$*''"
  shows "run_loop now gossip (io # ios) l = Shut_Down_After (Runtime_Error ''Parser Error!!'')"
proof -
  have "append p ((b # bytes) @ concat chunks) = Inl (Runtime_Error ''Parser Error!!'')"
    using assms(3,4) by (simp add: feed_def feed_WaitType_def between_messages_def)
  then have "on_readable fd ((b # bytes) # chunks, Recv_Blocked) l = Inl (Runtime_Error ''Parser Error!!'')"
    using assms(2) by (simp add: on_readable_def server_recv_def)
  then show ?thesis by (simp add: epoll_step_def assms(1) on_event_def caught_def)
qed

theorem bad_byte_stops_server_witness:
  "run_loop 0 1 [idle_io\<lparr>polled := Polled [Readable 9 ([''GET / HTTP/1.1'' @ crlf], Recv_Blocked)]\<rparr>] lone_loop =
     Shut_Down_After (Runtime_Error ''Parser Error!!'')"
  using bad_byte_stops_server [of "idle_io\<lparr>polled := Polled [Readable 9 ([''GET / HTTP/1.1'' @ crlf], Recv_Blocked)]\<rparr>"
      9 "CHR ''G''" "''ET / HTTP/1.1'' @ crlf" "[]" "[]" lone_loop new_RespParser 0 1 "[]"]
  by (simp add: lone_loop_def)

text \<open>Requests enter the pool in the order of their bytes: what a client sends as consecutive
  messages, however cut, is appended to the task queue as exactly these requests, in order.\<close>

theorem requests_enter_pool_in_order:
  assumes "map_of (socks l) fd = Some p" "between_messages p" "message_queue p = []" "\<not> stop (pool l)"
    and "concat chunks = concat (map encode vs)" "list_all resp_ok vs"
  shows "\<exists>l'. on_readable fd (chunks, Recv_Blocked) l = Inr l' \<and> srv l' = srv l \<and>
    accepted (pool l') = accepted (pool l) @ map (Handle_Command fd) vs \<and>
    tasks (pool l') = tasks (pool l) @ map (Handle_Command fd) vs"
  by (rule read_requests [OF assms])

theorem requests_enter_pool_in_order_witness:
  "\<exists>l'. on_readable 9 ([''+O'', ''K'' @ crlf @ ''+OK'' @ crlf], Recv_Blocked) lone_loop = Inr l' \<and> srv l' = srv lone_loop \<and>
     accepted (pool l') = [Handle_Command 9 (SimpleString ''OK''), Handle_Command 9 (SimpleString ''OK'')] \<and>
     tasks (pool l') = [Handle_Command 9 (SimpleString ''OK''), Handle_Command 9 (SimpleString ''OK'')]"
  using requests_enter_pool_in_order [of lone_loop 9 new_RespParser "[''+O'', ''K'' @ crlf @ ''+OK'' @ crlf]"
      "[SimpleString ''OK'', SimpleString ''OK'']"]
  by (simp add: lone_loop_def new_ThreadPool_def line_ok_def string_max_size_def)

text \<open>Answers can overtake each other: with the four threads of the pool, a client that sends \<open>SET\<close>
  and then \<open>GET\<close> of the same key without waiting may have the \<open>GET\<close> executed first; it then reads the
  answer of the \<open>GET\<close>, which does not see the value, where it expects that of the \<open>SET\<close>.\<close>

theorem pipelined_answers_swap:
  "\<exists>p s. pool_run THREAD_COUNT p \<and>
     accepted p = [Handle_Command 9 (request_of (Set key (SimpleString v))), Handle_Command 9 (request_of (Get key))] \<and>
     foldE (\<lambda>s t. run_task rand st now t s) lone_server (finished p) = Inr s \<and>
     replies_to 9 (out_queue s) = [encode (BulkString None), encode (SimpleString ''OK'')]"
proof -
  let ?set = "Handle_Command 9 (request_of (Set key (SimpleString v)))" and ?get = "Handle_Command 9 (request_of (Get key))"
  obtain p where p: "pool_run THREAD_COUNT p" "accepted p = [?set, ?get]" "finished p = [?get, ?set]"
    using pool_swaps [of 2 ?set ?get] by (auto simp: THREAD_COUNT_def numeral_eq_Suc)
  let ?s = "lone_server\<lparr>out_queue := [(encode (BulkString None), 9)]\<rparr>"
  have "enqueue_msg (encode (BulkString None)) 9 lone_server = ?s" by (simp add: enqueue_msg_def)
  then have g: "run_task rand st now ?get lone_server = Inr ?s" using lone_server_get by (simp add: run_task_def)
  obtain s where s: "run_task rand st now ?set ?s = Inr s" "out_queue s = [(encode (BulkString None), 9), (encode (SimpleString ''OK''), 9)]"
    using lone_server_set_after [of rand st now key v "[(encode (BulkString None), 9)]"] by (auto simp: run_task_def)
  then show ?thesis using p g by (intro exI [of _ p] exI [of _ s]) simp
qed

text \<open>A committed \<open>SET\<close> whose value is not a single word cannot be applied: the command is split at
  white space, the exception ends the main loop, and since the entry stays in the log of the group
  the server stops again after every restart.\<close>

theorem spaced_value_stops_server:
  assumes "quiet io l" "raft_groups (srv l) = (gid, rn) # gs" "role rn = Leader" "peers rn = []"
    and "lastApplied rn < commitIndex rn" "Suc (lastApplied rn) < length (rlog rn)"
    and "command (rlog rn ! Suc (lastApplied rn)) = ''SET '' @ key @ '' '' @ w" "is_word key" "length (split_ws w) \<noteq> 1"
  shows "run_loop now gossip (io # ios) l = Shut_Down_After (Runtime_Error ''SET: Wrong number of arguments'')"
proof -
  obtain rn' where t: "tick (randoms io) rn = Inr (rn', [])" "rlog rn' = rlog rn" "commitIndex rn' = commitIndex rn"
      "lastApplied rn' = lastApplied rn"
    using tick_solo [OF assms(3,4)] by blast
  obtain es where es: "snd (takePendingApply rn') = rlog rn ! Suc (lastApplied rn) # es"
    using pending_first [of rn'] assms(5,6) t by auto
  have "apply_entry s (rlog rn ! Suc (lastApplied rn)) = Inl (Runtime_Error ''SET: Wrong number of arguments'')" for s
    using apply_SET [OF assms(8,7)] assms(9) by (simp split: list.split) (metis One_nat_def length_Cons list.size(3))
  then have "raft_round (randoms io) (srv (mark_alive (clock io) l)) gid = Inl (Runtime_Error ''SET: Wrong number of arguments'')"
    using t es assms(2,5)
    by (cases "takePendingApply rn'") (simp add: raft_round_def run_raft_locked_def getRaftGroup_def hasPendingApply_def)
  then show ?thesis by (simp add: quiet_step [OF assms(1)] raft_rounds_def assms(2) caught_def)
qed

theorem spaced_value_stops_server_witness:
  "\<exists>rn. new_RaftNode (\<lambda>_. 0) 0 7 [] (''0 SET k a b'' @ [CHR 0x0A]) = Inr rn \<and>
     run_loop 0 1 [idle_io] (lone_loop\<lparr>srv := lone_server\<lparr>raft_groups := [(0, rn)]\<rparr>\<rparr>) =
       Shut_Down_After (Runtime_Error ''SET: Wrong number of arguments'')"
proof -
  let ?e = "\<lparr>entry_term = 0, command = ''SET k a b''\<rparr> :: LogEntry"
  have "concat (map log_line [?e]) = ''0 SET k a b'' @ [CHR 0x0A]" by (simp add: log_line_def to_string.simps)
  then obtain rn where rn: "new_RaftNode (\<lambda>_. 0) 0 7 [] (''0 SET k a b'' @ [CHR 0x0A]) = Inr rn" "rlog rn = [sentinel, ?e]"
      "commitIndex rn = 1" "lastApplied rn = 0" "peers rn = []" "role rn = Leader"
    using new_RaftNode_load [of "[?e]" "\<lambda>_. 0" 0 7 "[]"] by (auto simp: one_line_def)
  have "run_loop 0 1 [idle_io] (lone_loop\<lparr>srv := lone_server\<lparr>raft_groups := [(0, rn)]\<rparr>\<rparr>) =
       Shut_Down_After (Runtime_Error ''SET: Wrong number of arguments'')"
    using rn by (intro spaced_value_stops_server [OF quiet_groups(2), where rn = rn and gid = 0 and gs = "[]" and w = "''a b''" and key = "''k''"])
      (simp_all add: is_word_def is_space_def split_ws_def)
  with rn(1) show ?thesis by blast
qed

text \<open>A node that leaves hands over what it holds: when other nodes remain on the ring, the shutdown
  ends normally, every connected node is told, and every stored key whose new owner is connected is
  sent to it as a \<open>SET\<close> request with its value.\<close>

theorem shutdown_hands_over:
  assumes "kv_ok (kvstore (srv l))" "cluster_ok (cluster (srv l))"
    and "node_hash (delNodeToHash (UUID (self_node (cluster (srv l)))) (cluster (srv l))) \<noteq> []"
  shows "\<exists>l' outs. gracefulShutdown now gossip l = Inr (l', outs) \<and>
    (\<forall>(u, fd)\<in>set (connections (cluster (srv l))). u \<noteq> UUID (self_node (cluster (srv l))) \<longrightarrow>
       (fd, encode (Array (Some [SimpleString ''NODEOUT'', SimpleString (to_string (unat gossip)),
          SimpleString (to_string (unat (UUID (self_node (cluster (srv l))))))]))) \<in> set outs) \<and>
    (\<forall>key v owner. kv_map (kvstore (srv l)) key = Some v \<longrightarrow> queryNode (cluster (srv l')) key = Inr owner \<longrightarrow>
       owner \<noteq> UUID (self_node (cluster (srv l))) \<longrightarrow> getConnection owner (cluster (srv l')) \<noteq> -1 \<longrightarrow>
       (getConnection owner (cluster (srv l')), encode (set_request (key, v))) \<in> set outs)"
proof -
  let ?old = "cluster (srv l)" and ?self = "UUID (self_node (cluster (srv l)))"
  let ?gos = "addGossip now gossip ?old"
  let ?new = "delTopoNode ?self (delNodeToHash ?self ?gos)"
  let ?outs = "map (\<lambda>(uuid, fd). (fd, nodeout_text gossip ?gos)) (filter (\<lambda>(uuid, fd). uuid \<noteq> ?self) (connections ?gos))"
  have f: "self_node ?gos = self_node ?old" "connections ?gos = connections ?old" "self_node ?new = self_node ?old"
      "node_hash ?new = node_hash (delNodeToHash ?self ?old)"
    by (rule leave_frame)+
  have "sorted_map (node_hash ?new)" unfolding f(4) using assms(2) by (simp add: delNodeToHash_def cluster_ok_def)
  then obtain outs where outs: "foldE (handover ?new) ?outs (kv_entries (kvstore (srv l))) = Inr outs" "set ?outs \<subseteq> set outs"
      "\<forall>(key, v)\<in>set (kv_entries (kvstore (srv l))). \<forall>owner. queryNode ?new key = Inr owner \<longrightarrow> owner \<noteq> UUID (self_node ?new) \<longrightarrow>
         getConnection owner ?new \<noteq> -1 \<longrightarrow> (getConnection owner ?new, encode (set_request (key, v))) \<in> set outs"
    using handover_all [of ?new ?outs "kv_entries (kvstore (srv l))"] assms(3) f(4) by auto
  have n: "nodeout_text gossip ?gos = encode (Array (Some [SimpleString ''NODEOUT'', SimpleString (to_string (unat gossip)),
      SimpleString (to_string (unat ?self))]))"
    by (simp add: nodeout_text_def f(1) to_string.simps [of 3] numeral_3_eq_3 [symmetric])
  let ?l = "l\<lparr>srv := (srv l)\<lparr>cluster := ?new\<rparr>\<rparr>"
  have "gracefulShutdown now gossip l = Inr (?l, outs)"
    using outs(1) f(1) by (simp add: gracefulShutdown_def Let_def)
  moreover have "(fd, nodeout_text gossip ?gos) \<in> set outs" if "(u, fd) \<in> set (connections ?old)" "u \<noteq> ?self" for u fd
    using outs(2) that f(2) by force
  moreover have "(getConnection owner ?new, encode (set_request (key, v))) \<in> set outs"
    if "kv_map (kvstore (srv l)) key = Some v" "queryNode ?new key = Inr owner" "owner \<noteq> ?self" "getConnection owner ?new \<noteq> -1"
    for key v owner
  proof -
    have "(key, v) \<in> set (kv_entries (kvstore (srv l)))" using that(1) by (simp add: entries_iff [OF assms(1)])
    then show ?thesis using outs(3) that(2,3,4) f(3) by fastforce
  qed
  ultimately show ?thesis unfolding n [symmetric] by (intro exI [of _ ?l] exI [of _ outs]) auto
qed

theorem shutdown_hands_over_witness:
  "\<exists>l' outs. gracefulShutdown 0 1 (lone_loop\<lparr>srv := lone_server\<lparr>cluster := addConnection 0 12 (addNodeToHash 0 (cluster lone_server))\<rparr>\<rparr>) = Inr (l', outs) \<and>
     (12, encode (Array (Some [SimpleString ''NODEOUT'', SimpleString ''1'', SimpleString ''7'']))) \<in> set outs"
proof -
  let ?c = "addConnection 0 12 (addNodeToHash 0 (cluster lone_server))"
  let ?l = "lone_loop\<lparr>srv := lone_server\<lparr>cluster := ?c\<rparr>\<rparr>"
  have self: "self_node ?c = self_node (cluster lone_server)" "connections ?c = [(0, 12)]"
    by (simp_all add: addConnection_def addNodeToHash_def)
  have ok: "cluster_ok ?c" "kv_ok (kvstore (srv ?l))"
    using kv.invar_new by (simp_all add: cluster_ops_ok lone_server_cluster_ok)
  have "ring_of vpoints {0} (run_members [] [Join 7, Join 0, Leave 7])"
    using run_members_ring_of [of "[Join 7, Join 0, Leave 7]"] zero_unchained [of 7]
    by (auto simp: insert_Diff_if insert_commute)
  then have "run_members [] [Join 7, Join 0, Leave 7] \<noteq> []" using vring.ring_of_nonempty by blast
  then have ne: "node_hash (delNodeToHash 7 ?c) \<noteq> []"
    by (simp add: delNodeToHash_def addConnection_def addNodeToHash_def lone_server_ring)
  have "to_string (unat (1 :: u64)) = ''1''" "to_string (unat (7 :: u64)) = ''7''" by (simp_all add: to_string.simps)
  then show ?thesis using shutdown_hands_over [of ?l 0 1] ok ne self by (auto simp del: encode_Array)
qed

text \<open>The last node cannot leave cleanly: if it holds a key, the loop over the store asks an empty
  ring for the owner and dereferences the end of the map.\<close>

theorem last_node_shutdown_undefined:
  assumes "node_hash (delNodeToHash (UUID (self_node (cluster (srv l)))) (cluster (srv l))) = []"
    and "kv_ok (kvstore (srv l))" "kv_map (kvstore (srv l)) key = Some v"
  shows "run_loop now gossip [] l = Died (UB End_Deref)"
proof -
  have "(key, v) \<in> set (kv_entries (kvstore (srv l)))" using assms(2,3) by (simp add: entries_iff)
  then obtain e es where e: "kv_entries (kvstore (srv l)) = e # es" by (cases "kv_entries (kvstore (srv l))") auto
  have "ring_query ([] :: ring) h = Inl (UB End_Deref)" for h by (simp add: ring_query_def lower_bound_def)
  then have "handover c outs e = Inl (UB End_Deref)" if "node_hash c = []" for c outs
    using that by (cases e) (simp add: handover_def queryNode_def)
  then have "gracefulShutdown now gossip l = Inl (UB End_Deref)"
    using assms(1) e by (simp add: gracefulShutdown_def Let_def leave_frame)
  then show ?thesis by simp
qed

theorem last_node_shutdown_undefined_witness:
  "\<exists>kv. kv_ok kv \<and> kv_map kv = [''k'' \<mapsto> SimpleString ''v''] \<and>
     run_loop 0 1 [] (lone_loop\<lparr>srv := lone_server\<lparr>kvstore := kv\<rparr>\<rparr>) = Died (UB End_Deref)"
proof -
  obtain kv ev where set: "kv_set (new_KVStore SHARD_COUNT) ''k'' (SimpleString ''v'') = Inr (kv, ev)"
    using new_store_set [of "''k''" "SimpleString ''v''"] by (auto simp: kv_update_def bindE_Inr_iff)
  have kv: "kv_ok kv" "kv_map kv = [''k'' \<mapsto> SimpleString ''v'']"
    using kv_set_ok [OF kv.invar_new set] by (simp_all add: new_KVStore_empty SHARD_COUNT_def)
  have "ring_of vpoints {} (run_members [] [Join 7, Leave 7])"
    using run_members_ring_of [of "[Join 7, Leave 7]"] by simp
  then have "run_members [] [Join 7, Leave 7] = []"
    using vring.ring_of_unique [of "{}" _ "[]"] by (simp add: ring_of_def)
  then have "node_hash (delNodeToHash 7 (cluster lone_server)) = []"
    by (simp add: delNodeToHash_def lone_server_ring)
  then have "run_loop 0 1 [] (lone_loop\<lparr>srv := lone_server\<lparr>kvstore := kv\<rparr>\<rparr>) = Died (UB End_Deref)"
    using kv by (intro last_node_shutdown_undefined [where key = "''k''" and v = "SimpleString ''v''"]) simp_all
  with kv show ?thesis by blast
qed

end
