(* ===== verification/Cluster_Join.thy ===== *)
theory Cluster_Join
  imports Loop_Properties
begin

text \<open>
  How a node enters a cluster: \<open>joinCluster\<close> on the new node, \<open>NODEIN\<close> on the others.  The lemmas follow
  the three messages of the exchange, network, greeting and announcement, from one node to the other.
\<close>

section \<open>The joining node\<close>

lemma server_send_total: "(\<And>e. snd io \<noteq> Send_Broken e) \<Longrightarrow> \<exists>r. server_send io str = Inr r"
  using send_loop_prefix [of "fst io" "snd io" "[]" str]
  by (cases "send_loop (fst io) (snd io) [] str") (auto simp: server_send_def split: option.split send_end.split)

text \<open>A loop that files every node of a list in the topology and on the ring.\<close>

lemma fold_learn:
  assumes "\<And>n c. topo (f n c) = map_insert (UUID n) n (topo c)" "\<And>n c. node_hash (f n c) = ring_addNode (UUID n) (node_hash c)"
    and "sorted_map (topo c)"
  shows "sorted_map (topo (fold f ns c)) \<and>
    map_of (topo (fold f ns c)) = map_of (topo c) ++ map_of (rev (map (\<lambda>n. (UUID n, n)) ns)) \<and>
    node_hash (fold f ns c) = run_members (node_hash c) (map (\<lambda>n. Join (UUID n)) ns)"
  using assms(3)
proof (induction ns arbitrary: c)
  case (Cons n ns)
  then show ?case using Cons.IH [of "f n c"] by (simp add: assms(1,2) del: fun_upd_apply)
qed simp

lemma learn_nodes:
  assumes "sorted_map (topo c)"
  shows "sorted_map (topo (fold (learn_node bip bport fd) ns c)) \<and>
    map_of (topo (fold (learn_node bip bport fd) ns c)) = map_of (topo c) ++ map_of (rev (map (\<lambda>n. (UUID n, n)) ns)) \<and>
    node_hash (fold (learn_node bip bport fd) ns c) = run_members (node_hash c) (map (\<lambda>n. Join (UUID n)) ns)"
  by (rule fold_learn [OF _ _ assms]) (simp_all add: learn_node_def Let_def addTopoNode_def addNodeToHash_def addConnection_def)

text \<open>A topology as the nodes keep it: every entry is filed under its own identity.\<close>

definition topo_keyed :: "(u64, Node) smap \<Rightarrow> bool" where
  "topo_keyed tp \<longleftrightarrow> sorted_map tp \<and> (\<forall>(u, n)\<in>set tp. UUID n = u)"

lemma topo_keyed_map: "topo_keyed tp \<Longrightarrow> map (\<lambda>n. (UUID n, n)) (map snd tp) = tp"
  by (auto simp: topo_keyed_def intro!: map_idI)

lemma getTopoV2_reply:
  assumes "topo_ok (topo (cluster b))" "groups_ok (groupMembers b)" "concat chunks = GETNETWORK b"
  shows "\<exists>p. await_result new_RespParser chunks = Inr p \<and> between_messages (snd (getResult p)) \<and> message_queue (snd (getResult p)) = [] \<and>
    getTopoV2 (the (fst (getResult p))) [] = Inr (map snd (topo (cluster b)), groupMembers b)"
proof -
  let ?v = "network_resp (topo (cluster b)) (groupMembers b)"
  obtain p where "await_result new_RespParser chunks = Inr p" "message_queue p = [?v]" "between_messages p"
    using await_encoded [OF network_resp_ok [OF assms(1,2)] between_messages_new message_queue_new, of chunks] assms(3)
    by (auto simp: GETNETWORK_eq)
  then show ?thesis
    by (auto simp: getResult_def hasResult_def pop_def between_messages_def getTopoV2_network [OF assms(2)])
qed

lemma greeting_awaited:
  assumes "between_messages p" "message_queue p = []" "concat chunks = encode (SimpleString ''OK'')"
  shows "\<exists>q. await_result p chunks = Inr q"
  using await_encoded [of "SimpleString ''OK''" p chunks] assms by (auto simp: line_ok_def string_max_size_def)

section \<open>The announcement\<close>

definition nodein_request :: "u64 \<Rightarrow> Node \<Rightarrow> RespValue" where
  "nodein_request g n = Array (Some [SimpleString ''NODEIN'', SimpleString (to_string (unat g)), node_resp n])"

lemma nodein_text_eq: "nodein_text g c = encode (nodein_request g (self_node c))"
  by (simp add: nodein_text_def nodein_request_def encodeNode_eq to_string.simps [of 3] numeral_3_eq_3 [symmetric])

lemma broadcast_queue: "out_queue (broadcast request s) = out_queue s @ map (\<lambda>(u, fd). (encode request, fd)) (connections (cluster s))"
proof -
  have "out_queue (fold (\<lambda>(uuid, fd). enqueue_msg m fd) cs s) = out_queue s @ map (\<lambda>(u, fd). (m, fd)) cs"
    for m and cs :: "(u64 \<times> int) list"
    by (induction cs arbitrary: s) (auto simp: enqueue_msg_def)
  then show ?thesis by (simp add: broadcast_def)
qed

lemma send_entries:
  assumes "sorted_map (node_hash (cluster s))" "node_hash (cluster s) \<noteq> []"
  shows "\<exists>s'. foldE (send_entry u fd) s kvs = Inr s' \<and> cluster s' = cluster s \<and> set (out_queue s) \<subseteq> set (out_queue s')"
  using assms
proof (induction kvs arbitrary: s)
  case (Cons e kvs)
  obtain key v where e: "e = (key, v)" by (cases e)
  obtain owner where owner: "queryNode (cluster s) key = Inr owner"
    using ring_query_hd [OF Cons.prems] by (auto simp: queryNode_def)
  then obtain s1 where s1: "send_entry u fd s e = Inr s1" "cluster s1 = cluster s" "set (out_queue s) \<subseteq> set (out_queue s1)"
    by (cases "owner = u") (auto simp: send_entry_def e enqueue_msg_def)
  with Cons.IH [of s1] Cons.prems show ?case by auto
qed auto

lemma sendDataToNode_total:
  assumes "sorted_map (node_hash (cluster s))" "node_hash (cluster s) \<noteq> []"
  shows "\<exists>s'. sendDataToNode u s = Inr s' \<and> cluster s' = cluster s \<and> set (out_queue s) \<subseteq> set (out_queue s')"
proof (cases "getConnection u (cluster s) = -1")
  case True
  then show ?thesis by (simp add: sendDataToNode_def Let_def)
next
  case False
  with send_entries [OF assms, of u "getConnection u (cluster s)" "kv_entries (kvstore s)"] show ?thesis
    by (auto simp: sendDataToNode_def Let_def enqueue_msg_def)
qed

lemma ring_addNode_not_Nil: "sorted_map m \<Longrightarrow> ring_addNode n m \<noteq> []"
proof -
  assume m: "sorted_map m"
  have "hd (vpoints n) \<in> set (vpoints n)" using vring.points_nonempty [of n] by simp
  then have "map_of (ring_addNode n m) (hd (vpoints n)) = Some n"
    using m by (simp add: ring_node_eq map_of_put_points)
  then show ?thesis by auto
qed

lemma join_frame: "topo (addGossip now g c) = topo c" "node_hash (addGossip now g c) = node_hash c"
  by (simp_all add: addGossip_def Let_def)

lemma NODEIN_eq:
  assumes "request = nodein_request g n" "\<not> findGossip g (cluster b)"
  shows "NODEIN now request b =
    (let s = broadcast request (b\<lparr>cluster := addGossip now g (cluster b)\<rparr>);
         c = addTopoNode n (addNodeToHash (UUID n) (addGossip now g (cluster b))) in
     if getConnection (UUID n) (cluster s) \<noteq> -1
     then bindE (sendDataToNode (UUID n) (s\<lparr>cluster := c\<rparr>)) (\<lambda>s. Inr (enqueue_msg ''REBUILD_RAFTS'' (-2) s, []))
     else Inr (enqueue_msg ''REBUILD_RAFTS'' (-2) ((enqueue_msg (ip n @ '' '' @ to_string (unat (port n)) @ '' '' @
            to_string (unat (UUID n))) (-1) s)\<lparr>cluster := c\<rparr>), []))"
proof -
  have r: "request_elements request = Inr [SimpleString ''NODEIN'', SimpleString (to_string (unat g)), node_resp n]"
    by (simp add: assms(1) nodein_request_def request_elements_def)
  show ?thesis unfolding NODEIN_def r bindE_simps using assms(2) by (simp add: Let_def getNode_node_resp)
qed

section \<open>Properties\<close>

text \<open>C20. Joining works: when the bootstrap node answers \<open>GETNETWORK\<close> and \<open>HELLO\<close>, in whatever pieces,
  \<open>joinCluster\<close> ends normally; the new node then knows every node of the cluster besides itself, has
  put all of them on its ring, and is loading until as many nodes have reported the end of their
  transfer.\<close>

theorem join_learns_network:
  assumes "boot_fd io = Inr fd" "\<And>i e. snd (join_sends io i) \<noteq> Send_Broken e"
    and "topo_ok (topo (cluster b))" "topo_keyed (topo (cluster b))" "groups_ok (groupMembers b)"
    and "concat (network_reply io) = GETNETWORK b" "concat (greeting_reply io) = encode (SimpleString ''OK'')"
    and "sorted_map (topo (cluster (srv l)))"
  shows "\<exists>l'. joinCluster io bip bport now g l = Inr l' \<and> syncing (srv l') \<and>
    pending_sync_nodes (srv l') = int (length (topo (cluster b))) \<and>
    map_of (topo (cluster (srv l'))) = map_of (topo (cluster (srv l))) ++ map_of (topo (cluster b)) \<and>
    node_hash (cluster (srv l')) = run_members (node_hash (cluster (srv l))) (map (\<lambda>u. Join u) (map fst (topo (cluster b))))"
proof -
  let ?tp = "topo (cluster b)"
  have sends: "\<exists>x y. server_send (join_sends io i) str = Inr (x, y)" for i str
    using server_send_total [OF assms(2), of i str] by auto
  obtain p where p: "await_result new_RespParser (network_reply io) = Inr p" "between_messages (snd (getResult p))"
      "message_queue (snd (getResult p)) = []" "getTopoV2 (the (fst (getResult p))) [] = Inr (map snd ?tp, groupMembers b)"
    using getTopoV2_reply [OF assms(3,5,6)] by blast
  obtain q where q: "await_result (snd (getResult p)) (greeting_reply io) = Inr q"
    using greeting_awaited [OF p(2,3) assms(7)] by blast
  let ?c = "fold (learn_node bip bport fd) (map snd ?tp) (cluster (srv l))"
  have j: "map (\<lambda>n. Join (UUID n)) (map snd ?tp) = map (\<lambda>u. Join u) (map fst ?tp)"
    using assms(4) by (auto simp: topo_keyed_def)
  have rev: "map_of (rev ?tp) = map_of ?tp" using assms(4) by (intro map_of_rev sorted_map_distinct) (simp add: topo_keyed_def)
  note learnt = learn_nodes [OF assms(8), of bip bport fd "map snd ?tp", unfolded topo_keyed_map [OF assms(4)] j rev]
  then have c: "map_of (topo ?c) = map_of (topo (cluster (srv l))) ++ map_of ?tp"
      "node_hash ?c = run_members (node_hash (cluster (srv l))) (map (\<lambda>u. Join u) (map fst ?tp))" by blast+
  let ?s = "(markSyncing (int (length ?tp)) (srv l))\<lparr>cluster := ?c\<rparr>"
  let ?s' = "?s\<lparr>cluster := addGossip now g ?c\<rparr>"
  obtain x0 y0 x1 y1 x2 y2 where x: "server_send (join_sends io 0) (''*1'' @ crlf @ ''+GETNETWORK'' @ crlf) = Inr (x0, y0)"
      "server_send (join_sends io 1) (hello_text (cluster ?s)) = Inr (x1, y1)"
      "server_send (join_sends io 2) (nodein_text g (cluster ?s')) = Inr (x2, y2)"
    using sends by metis
  let ?l = "l\<lparr>srv := ?s', socks := map_insert fd new_RespParser (socks l), wire := wire l @ [(fd, x0), (fd, x1), (fd, x2)]\<rparr>"
  have "joinCluster io bip bport now g l = Inr ?l"
    unfolding joinCluster_def assms(1) bindE_simps x(1) prod.case p(1) Let_def case_prod_unfold p(4) fst_conv snd_conv
    using x(2,3) q by (simp add: markSyncing_def)
  then show ?thesis using c by (intro exI [of _ ?l]) (simp add: markSyncing_def join_frame)
qed

theorem join_learns_network_witness:
  "\<exists>l'. joinCluster \<lparr>boot_fd = Inr 5, join_sends = (\<lambda>_. ([Wrote 200], Send_Blocked)), network_reply = [GETNETWORK lone_server],
        greeting_reply = [''+O'', ''K'' @ crlf]\<rparr> ''10.0.0.1'' 7800 0 1
        (lone_loop\<lparr>srv := idle_Server (aof lone_server) 3 ''10.0.0.2'' 7800 Map.empty\<rparr>) = Inr l' \<and>
     syncing (srv l') \<and> pending_sync_nodes (srv l') = 1 \<and>
     map_of (topo (cluster (srv l'))) 7 = Some \<lparr>ip = ''10.0.0.1'', port = 7800, UUID = 7\<rparr>"
proof -
  have t: "topo (cluster lone_server) = [(7, \<lparr>ip = ''10.0.0.1'', port = 7800, UUID = 7\<rparr>)]" "groupMembers lone_server = []"
    by (simp_all add: lone_server_def idle_Server_def Let_def addNodeToHash_def new_Cluster_at_def)
  show ?thesis
    using join_learns_network [of "\<lparr>boot_fd = Inr 5, join_sends = (\<lambda>_. ([Wrote 200], Send_Blocked)), network_reply = [GETNETWORK lone_server],
        greeting_reply = [''+O'', ''K'' @ crlf]\<rparr>" 5 lone_server "lone_loop\<lparr>srv := idle_Server (aof lone_server) 3 ''10.0.0.2'' 7800 Map.empty\<rparr>"
        "''10.0.0.1''" 7800 0 1]
    by (auto simp: t topo_ok_def topo_keyed_def groups_ok_def sorted_map_def line_ok_def vector_max_size_def idle_Server_def new_Cluster_at_def Let_def)
qed

text \<open>An announcement reaches everybody: a node that hears of a new node for the first time passes the
  announcement on to all its connections, files the node in its topology and on its ring, and asks
  its main loop to rebuild the Raft groups; a node that has heard it before does nothing.\<close>

theorem announcement_adds_node:
  assumes "cluster_ok (cluster b)"
  shows "\<exists>b'. NODEIN now (nodein_request g n) b = Inr (b', []) \<and>
    (if findGossip g (cluster b) then b' = b
     else map_of (topo (cluster b')) = (map_of (topo (cluster b)))(UUID n \<mapsto> n) \<and>
       node_hash (cluster b') = ring_addNode (UUID n) (node_hash (cluster b)) \<and>
       (''REBUILD_RAFTS'', -2) \<in> set (out_queue b') \<and>
       (\<forall>(u, fd)\<in>set (connections (cluster b)). (encode (nodein_request g n), fd) \<in> set (out_queue b')))"
proof (cases "findGossip g (cluster b)")
  case True
  then show ?thesis by (simp add: NODEIN_def nodein_request_def request_elements_def)
next
  case False
  let ?b1 = "broadcast (nodein_request g n) (b\<lparr>cluster := addGossip now g (cluster b)\<rparr>)"
  let ?c = "addTopoNode n (addNodeToHash (UUID n) (addGossip now g (cluster b)))"
  have q: "\<forall>(u, fd)\<in>set (connections (cluster b)). (encode (nodein_request g n), fd) \<in> set (out_queue ?b1)"
    by (force simp: broadcast_queue leave_frame)
  have c: "map_of (topo ?c) = (map_of (topo (cluster b)))(UUID n \<mapsto> n)" "node_hash ?c = ring_addNode (UUID n) (node_hash (cluster b))"
      "sorted_map (node_hash ?c)" "node_hash ?c \<noteq> []"
    using assms by (simp_all add: cluster_ok_def addTopoNode_def addNodeToHash_def addGossip_def Let_def ring_addNode_not_Nil)
  show ?thesis
  proof (cases "getConnection (UUID n) (cluster ?b1) = -1")
    case True
    then show ?thesis using q c(1,2) False
      by (simp add: NODEIN_eq [OF refl False]) (auto simp: enqueue_msg_def)
  next
    case F: False
    obtain b2 where b2: "sendDataToNode (UUID n) (?b1\<lparr>cluster := ?c\<rparr>) = Inr b2" "cluster b2 = ?c" "set (out_queue ?b1) \<subseteq> set (out_queue b2)"
      using sendDataToNode_total [of "?b1\<lparr>cluster := ?c\<rparr>" "UUID n"] c(3,4) by auto
    then have "\<forall>(u, fd)\<in>set (connections (cluster b)). (encode (nodein_request g n), fd) \<in> set (out_queue b2)" using q by blast
    then show ?thesis using F b2(1,2) c(1,2) False
      by (simp add: NODEIN_eq [OF refl False]) (auto simp: enqueue_msg_def)
  qed
qed

theorem announcement_adds_node_witness:
  "\<exists>b'. NODEIN 0 (nodein_request 5 \<lparr>ip = ''10.0.0.2'', port = 7800, UUID = 3\<rparr>) lone_server = Inr (b', []) \<and>
     map_of (topo (cluster b')) 3 = Some \<lparr>ip = ''10.0.0.2'', port = 7800, UUID = 3\<rparr> \<and>
     node_hash (cluster b') = ring_addNode 3 (node_hash (cluster lone_server)) \<and> (''REBUILD_RAFTS'', -2) \<in> set (out_queue b')"
proof -
  have "\<not> findGossip 5 (cluster lone_server)"
    by (simp add: lone_server_def idle_Server_def Let_def findGossip_def addNodeToHash_def new_Cluster_at_def)
  then show ?thesis
    using lone_server_cluster_ok announcement_adds_node [of lone_server 0 5 "\<lparr>ip = ''10.0.0.2'', port = 7800, UUID = 3\<rparr>"] by auto
qed

end
