(* ===== verification/Server_Invariant.thy ===== *)
theory Server_Invariant
  imports Cluster_Join
begin

text \<open>
  What a sound server is, and that every operation keeps it so: the handlers, the rounds of the main loop, the
  Raft messages and the snapshot.  The last part says which requests make a handler undefined.
\<close>

section \<open>The state of a server\<close>

definition server_ok :: "Server \<Rightarrow> bool" where
  "server_ok s \<longleftrightarrow> kv_ok (kvstore s) \<and> cluster_ok (cluster s) \<and> sorted_map (raft_groups s) \<and>
     sorted_map (masterToGroup s) \<and> sorted_map (groupMembers s)"

lemma server_ok_cong:
  assumes "server_ok s" "kvstore s' = kvstore s" "cluster_ok (cluster s')" "raft_groups s' = raft_groups s"
    "masterToGroup s' = masterToGroup s" "groupMembers s' = groupMembers s"
  shows "server_ok s'"
  using assms by (simp add: server_ok_def)

lemma server_ok_queue [simp]: "server_ok (enqueue_msg text fd s) \<longleftrightarrow> server_ok s"
  by (simp add: server_ok_def enqueue_msg_def)

lemma server_ok_update:
  "server_ok s \<Longrightarrow> cluster_ok c \<Longrightarrow> server_ok (s\<lparr>cluster := c\<rparr>)" "server_ok s \<Longrightarrow> kv_ok kv \<Longrightarrow> server_ok (s\<lparr>kvstore := kv\<rparr>)"
  "server_ok s \<Longrightarrow> server_ok (s\<lparr>aof := a\<rparr>)" "server_ok s \<Longrightarrow> server_ok (s\<lparr>raft_groups := map_insert gid rn (raft_groups s)\<rparr>)"
  "server_ok s \<Longrightarrow> server_ok (s\<lparr>out_queue := q\<rparr>)"
  by (simp_all add: server_ok_def)

lemma server_ok_parts: "server_ok s \<Longrightarrow> kv_ok (kvstore s)" "server_ok s \<Longrightarrow> cluster_ok (cluster s)"
  by (simp_all add: server_ok_def)

lemma raft_send_ok [simp]: "server_ok (raft_send m s) \<longleftrightarrow> server_ok s"
  by (simp add: raft_send_def Let_def)

lemma fold_queue_ok: "server_ok (fold raft_send ms s) \<longleftrightarrow> server_ok s"
  by (induction ms arbitrary: s) simp_all

lemma broadcast_ok: "server_ok (broadcast request s) \<longleftrightarrow> server_ok s"
proof -
  have "server_ok (fold (\<lambda>(uuid, fd). enqueue_msg m fd) cs s) \<longleftrightarrow> server_ok s" for m and cs :: "(u64 \<times> int) list"
    by (induction cs arbitrary: s) (simp_all add: case_prod_unfold)
  then show ?thesis by (simp add: broadcast_def)
qed

lemma run_raft_ok: "run_raft gid f s = Inr s' \<Longrightarrow> server_ok s \<Longrightarrow> server_ok s'"
  by (auto simp: run_raft_def fold_queue_ok intro: server_ok_update elim!: bindE_InrE split: option.splits)

lemma propose_for_ok: "propose_for key cmd s = Inr s' \<Longrightarrow> server_ok s \<Longrightarrow> server_ok s'"
  by (auto simp: propose_for_def intro: run_raft_ok elim!: bindE_InrE split: option.splits)

lemma sendDataToNode_ok: "sendDataToNode u s = Inr s' \<Longrightarrow> server_ok s \<Longrightarrow> server_ok s'"
proof -
  assume s: "sendDataToNode u s = Inr s'" "server_ok s"
  have "server_ok t'" if "foldE (send_entry u fd) t kvs = Inr t'" "server_ok t" for fd t t' kvs
    by (rule foldE_invariant [where P = server_ok, OF that]) (auto simp: send_entry_def elim!: bindE_InrE split: if_splits)
  with s show ?thesis by (auto simp: sendDataToNode_def Let_def elim!: bindE_InrE split: if_splits)
qed

section \<open>Handlers\<close>

lemma SET_noAOF_ok: "SET_noAOF request s = Inr (s', r) \<Longrightarrow> server_ok s \<Longrightarrow> server_ok s'"
  by (auto simp: SET_noAOF_def intro!: server_ok_update dest: kv_set_ok [OF server_ok_parts(1)] elim!: bindE_InrE
      split: RespValue.splits if_splits)

lemma DEL_noAOF_ok: "DEL_noAOF request s = Inr (s', r) \<Longrightarrow> server_ok s \<Longrightarrow> server_ok s'"
  by (auto simp: DEL_noAOF_def intro!: server_ok_update dest: kv_del_ok [OF server_ok_parts(1)] elim!: bindE_InrE
      split: RespValue.splits if_splits)

lemma SET_ok:
  assumes "SET st request s = Inr (s', r)" "server_ok s"
  shows "server_ok s'"
proof -
  have "server_ok (s1\<lparr>aof := a, kvstore := kv\<rparr>)"
    if "propose_for key cmd s = Inr s1" "kv_set (kvstore s1) key v = Inr (kv, ev)" for key cmd s1 v kv ev a
    using propose_for_ok [OF that(1) assms(2)] kv_set_ok [OF server_ok_parts(1) that(2)] by (auto simp: server_ok_def)
  then show ?thesis using assms by (auto simp: SET_def elim!: bindE_InrE split: RespValue.splits if_splits)
qed

lemma GET_ok: "GET request s = Inr (s', r) \<Longrightarrow> server_ok s \<Longrightarrow> server_ok s'"
  by (auto simp: GET_def getValue_eq intro!: server_ok_update dest: kv_get_ok [OF server_ok_parts(1)] elim!: bindE_InrE
      split: RespValue.splits if_splits)

lemma EXIST_ok: "EXIST request s = Inr (s', r) \<Longrightarrow> server_ok s \<Longrightarrow> server_ok s'"
  by (auto simp: EXIST_def intro!: server_ok_update dest: kv_get_ok [OF server_ok_parts(1)] elim!: bindE_InrE
      split: RespValue.splits if_splits)

lemma DEL_ok: "DEL st request s = Inr (s', r) \<Longrightarrow> server_ok s \<Longrightarrow> server_ok s'"
  using DEL_unchanged by blast

lemma NODEIN_ok: "NODEIN now request s = Inr (s', r) \<Longrightarrow> server_ok s \<Longrightarrow> server_ok s'"
  by (auto simp: NODEIN_def Let_def broadcast_ok server_ok_parts elim!: bindE_InrE sendDataToNode_ok
      intro!: server_ok_update cluster_ops_ok addGossip_ok split: RespValue.splits if_splits)

lemma NODEOUT_ok: "NODEOUT now request s = Inr (s', r) \<Longrightarrow> server_ok s \<Longrightarrow> server_ok s'"
  by (auto simp: NODEOUT_def Let_def broadcast_ok server_ok_parts elim!: bindE_InrE
      intro!: server_ok_update cluster_ops_ok addGossip_ok split: RespValue.splits if_splits)

lemma handleRaft_ok: "handleRaft rand now request fd s = Inr (s', r) \<Longrightarrow> server_ok s \<Longrightarrow> server_ok s'"
  by (auto simp: handleRaft_def Let_def server_ok_parts elim!: bindE_InrE run_raft_ok
      intro!: server_ok_update cluster_ops_ok split: RespValue.splits if_splits)

lemma SYNCDONE_ok: "SYNCDONE request s = Inr (s', r) \<Longrightarrow> server_ok s \<Longrightarrow> server_ok s'"
  by (auto simp: SYNCDONE_def onSyncDone_def Let_def server_ok_def elim!: bindE_InrE split: if_splits)

lemma HELLO_ok: "HELLO request fd s = Inr (s', r) \<Longrightarrow> server_ok s \<Longrightarrow> server_ok s'"
  by (auto simp: HELLO_def server_ok_parts elim!: bindE_InrE intro!: server_ok_update cluster_ops_ok
      split: RespValue.splits if_splits)

lemma HEARTBEAT_ok: "HEARTBEAT now fd s = Inr (s', r) \<Longrightarrow> server_ok s \<Longrightarrow> server_ok s'"
  by (auto simp: HEARTBEAT_def server_ok_parts intro!: server_ok_update cluster_ops_ok)

lemmas handlers_ok = SET_ok GET_ok DEL_ok EXIST_ok NODEIN_ok NODEOUT_ok handleRaft_ok SYNCDONE_ok HELLO_ok HEARTBEAT_ok

lemma handle_ok:
  assumes "handle rand st now request fd s = Inr (s', r)" "server_ok s"
  shows "server_ok s'"
proof (cases "\<exists>c es. request = Array (Some (SimpleString c # es))")
  case False
  then have "s' = s" using assms(1) by (auto simp: handle_def split: RespValue.splits option.splits list.splits if_splits)
  then show ?thesis using assms(2) by simp
next
  case True
  then obtain c es where req: "request = Array (Some (SimpleString c # es))" by blast
  show ?thesis using assms unfolding req handle_def RespValue.case option.case list.case
    by (elim if_eqE) (simp_all add: handlers_ok)
qed

lemma handleCommand_ok: "handleCommand rand st now sock request s = Inr s' \<Longrightarrow> server_ok s \<Longrightarrow> server_ok s'"
  by (auto simp: handleCommand_def elim!: bindE_InrE dest: handle_ok split: if_splits)

lemma handle_noAOF_ok:
  assumes "handle_noAOF request s = Inr (s', r)" "server_ok s"
  shows "server_ok s'"
proof -
  obtain c es where req: "request = Array (Some (SimpleString c # es))"
    using assms(1) by (auto simp: handle_noAOF_def split: RespValue.splits option.splits list.splits)
  show ?thesis using assms unfolding req handle_noAOF_def RespValue.case option.case list.case
    by (elim if_eqE) (simp_all add: SET_noAOF_ok DEL_noAOF_ok GET_ok EXIST_ok)
qed

section \<open>The main loop\<close>

lemma open_group_ok: "open_group rand ids self files s gi = Inr s' \<Longrightarrow> server_ok s \<Longrightarrow> server_ok s'"
  by (auto simp: open_group_def Let_def server_ok_def elim!: bindE_InrE)

lemma initRaftGroups_ok:
  assumes "initRaftGroups rand s = Inr s'" "server_ok s"
  shows "server_ok s'"
proof (cases "topo (cluster s) = []")
  case True
  then show ?thesis using assms by (simp add: initRaftGroups_def)
next
  case False
  let ?ids = "map fst (topo (cluster s))"
  let ?s = "(close_groups s)\<lparr>cluster := fold addNodeToHash ?ids (cluster (close_groups s))\<rparr>"
  have "cluster_ok (fold addNodeToHash ids c)" if "cluster_ok c" for ids c
    using that by (induction ids arbitrary: c) (simp_all add: cluster_ops_ok)
  then have "server_ok ?s" using assms(2) by (simp add: server_ok_def close_groups_def sorted_map_def)
  moreover obtain self selfIdx where "foldE (open_group rand ?ids self (raft_files ?s)) ?s (group_indices selfIdx (length ?ids)) = Inr s'"
    using assms(1) False by (simp add: initRaftGroups_def Let_def)
  ultimately show ?thesis using foldE_invariant [where P = server_ok] open_group_ok by blast
qed

definition task_ok :: "task \<Rightarrow> bool" where
  "task_ok t = (case t of Handle_Command sock v \<Rightarrow> resp_ok v | Send_Data u \<Rightarrow> True)"

definition loop_ok :: "Loop \<Rightarrow> bool" where
  "loop_ok l \<longleftrightarrow> server_ok (srv l) \<and> sorted_map (socks l) \<and> (\<forall>p\<in>ran (map_of (socks l)). parser_ok p) \<and>
     pool_ok (pool l) \<and> (\<forall>t\<in>set (accepted (pool l)). task_ok t)"

lemma ran_map_upd_subset: "ran (m(k \<mapsto> v)) \<subseteq> insert v (ran m)"
  by (auto simp: ran_def)

lemma ran_map_erase: "sorted_map m \<Longrightarrow> ran (map_of (map_erase k m)) \<subseteq> ran (map_of m)"
  by (auto simp: ran_def split: if_splits)

lemma loop_ok_srv: "loop_ok l \<Longrightarrow> server_ok s \<Longrightarrow> loop_ok (l\<lparr>srv := s\<rparr>)"
  by (simp add: loop_ok_def)

lemma loop_ok_wire [simp]: "loop_ok (l\<lparr>wire := w\<rparr>) \<longleftrightarrow> loop_ok l" "loop_ok (l\<lparr>raft_msg_queue := q\<rparr>) \<longleftrightarrow> loop_ok l"
  by (simp_all add: loop_ok_def)

lemma loop_ok_insert: "loop_ok l \<Longrightarrow> parser_ok p \<Longrightarrow> loop_ok (l\<lparr>socks := map_insert fd p (socks l)\<rparr>)"
  using ran_map_upd_subset [of "map_of (socks l)" fd p] by (auto simp: loop_ok_def simp del: fun_upd_apply)

lemma loop_ok_erase: "loop_ok l \<Longrightarrow> loop_ok (l\<lparr>socks := map_erase fd (socks l)\<rparr>)"
  using ran_map_erase [of "socks l" fd] by (auto simp: loop_ok_def)

lemma enqueue_task_ok: "enqueue_task t l = Inr l' \<Longrightarrow> loop_ok l \<Longrightarrow> task_ok t \<Longrightarrow> loop_ok l'"
  by (auto simp: enqueue_task_def loop_ok_def enqueue_def pool_ok_def elim!: bindE_InrE split: if_splits)

lemma parser_ok_dequeue: "parser_ok p \<Longrightarrow> parser_ok (p\<lparr>message_queue := []\<rparr>)"
  by (simp add: parser_ok_def)

lemma append_keeps_ok: "append p str = Inr q \<Longrightarrow> parser_ok p \<Longrightarrow> parser_ok q \<and> (\<forall>v\<in>set (message_queue q). resp_ok v)"
  using append_ok [of p str] by (auto simp: parser_ok_def list_all_iff)

lemma await_result_ok: "await_result p chunks = Inr q \<Longrightarrow> parser_ok p \<Longrightarrow> parser_ok q"
proof (induction chunks arbitrary: p)
  case (Cons c chunks)
  then show ?case using append_keeps_ok by (auto elim!: bindE_InrE split: if_splits)
qed (auto split: if_splits)

lemma getResult_ok: "parser_ok p \<Longrightarrow> parser_ok (snd (getResult p))"
  by (cases "message_queue p") (auto simp: getResult_def pop_def hasResult_def parser_ok_def)

lemma on_readable_ok:
  assumes "on_readable fd io l = Inr l'" "loop_ok l"
  shows "loop_ok l'"
proof -
  obtain parser where parser: "map_of (socks l) fd = Some parser"
    using assms(1) by (auto simp: on_readable_def split: option.splits)
  then have p: "parser_ok parser" using assms(2) by (auto simp: loop_ok_def ran_def)
  obtain str d where recv: "server_recv io = Inr (str, d)" using assms(1) parser by (auto simp: on_readable_def elim!: bindE_InrE)
  show ?thesis
  proof (cases "str = [] \<or> d")
    case True
    then have "l' = (if d then l\<lparr>socks := map_erase fd (socks l)\<rparr> else l)"
      using assms(1) parser recv by (auto simp: on_readable_def Let_def)
    then show ?thesis using assms(2) loop_ok_erase by simp
  next
    case False
    then obtain q where q: "append parser str = Inr q"
        "foldE (\<lambda>l v. enqueue_task (Handle_Command fd v) l) (l\<lparr>socks := map_insert fd (q\<lparr>message_queue := []\<rparr>) (socks l)\<rparr>) (message_queue q) = Inr l'"
      using assms(1) parser recv by (auto simp: on_readable_def Let_def elim!: bindE_InrE)
    have ok: "parser_ok q" "\<forall>v\<in>set (message_queue q). resp_ok v" using append_keeps_ok [OF q(1) p] by auto
    have "loop_ok l2" if "foldE (\<lambda>l v. enqueue_task (Handle_Command fd v) l) l1 vs = Inr l2" "loop_ok l1" "\<forall>v\<in>set vs. resp_ok v" for l1 l2 vs
      using that
    proof (induction vs arbitrary: l1)
      case (Cons v vs)
      then show ?case using enqueue_task_ok by (fastforce simp: task_ok_def elim!: bindE_InrE)
    qed simp
    then show ?thesis using q(2) ok loop_ok_insert [OF assms(2) parser_ok_dequeue [OF ok(1)]] by blast
  qed
qed

lemma accept_socks_ok: "loop_ok l \<Longrightarrow> loop_ok (accept_socks fds l)"
proof (induction fds arbitrary: l)
  case (Cons fd fds)
  then show ?case using loop_ok_insert [OF Cons.prems parser_ok_new, of fd] by (fastforce simp: accept_socks_def)
qed (simp add: accept_socks_def)

lemma on_event_ok: "on_event l ev = Inr l' \<Longrightarrow> loop_ok l \<Longrightarrow> loop_ok l'"
  by (auto simp: on_event_def accept_socks_ok on_readable_ok split: epoll_event.splits)

lemma connect_node_ok:
  assumes "connect_node io uuid l = Inr l'" "loop_ok l"
  shows "loop_ok l'"
proof -
  obtain fd sent p where p: "await_result new_RespParser (hello_reply io) = Inr p"
      "enqueue_task (Send_Data uuid) (l\<lparr>socks := map_insert fd (snd (getResult p)) (socks l), wire := wire l @ [(fd, sent)],
         srv := (srv l)\<lparr>cluster := addConnection uuid fd (cluster (srv l))\<rparr>\<rparr>) = Inr l'"
    using assms(1) by (auto simp: connect_node_def Let_def elim!: bindE_InrE)
  have "parser_ok (snd (getResult p))" using await_result_ok [OF p(1) parser_ok_new] getResult_ok by blast
  then have "loop_ok (l\<lparr>socks := map_insert fd (snd (getResult p)) (socks l)\<rparr>)" by (rule loop_ok_insert [OF assms(2)])
  moreover have "server_ok ((srv l)\<lparr>cluster := addConnection uuid fd (cluster (srv l))\<rparr>)"
    using assms(2) by (simp add: loop_ok_def server_ok_update server_ok_parts cluster_ops_ok)
  ultimately show ?thesis using enqueue_task_ok [OF p(2)] by (simp add: loop_ok_def task_ok_def)
qed

lemma send_to_ok: "send_to io m fd l = Inr l' \<Longrightarrow> loop_ok l \<Longrightarrow> loop_ok l'"
  using loop_ok_erase [of "l\<lparr>wire := w\<rparr>" fd for w] by (auto simp: send_to_def Let_def elim!: bindE_InrE split: if_splits)

lemma send_message_ok:
  assumes "send_message io l x = Inr l'" "loop_ok l"
  shows "loop_ok l'"
proof -
  obtain i m fd where x: "x = (i, m, fd)" by (cases x)
  have "server_ok (srv l)" using assms(2) by (simp add: loop_ok_def)
  then show ?thesis using assms unfolding x send_message_def prod.case
    by (elim if_eqE) (auto intro: send_to_ok connect_node_ok loop_ok_srv initRaftGroups_ok elim!: bindE_InrE)
qed

lemma drain_queue_ok: "drain_queue io l = Inr l' \<Longrightarrow> loop_ok l \<Longrightarrow> loop_ok l'"
proof -
  assume l: "drain_queue io l = Inr l'" "loop_ok l"
  then have "loop_ok (l\<lparr>srv := (srv l)\<lparr>out_queue := []\<rparr>\<rparr>)" by (simp add: loop_ok_def server_ok_update)
  then show ?thesis using l(1) foldE_invariant [where P = loop_ok and f = "send_message io"] send_message_ok
    by (auto simp: drain_queue_def Let_def)
qed

lemma run_raft_locked_ok: "run_raft_locked gid f s = Inr s' \<Longrightarrow> server_ok s \<Longrightarrow> server_ok s'"
  by (auto simp: run_raft_locked_def intro: server_ok_update elim!: bindE_InrE split: option.splits if_splits)

lemma raft_messages_ok:
  assumes "raft_messages rand l = Inr l'" "loop_ok l"
  shows "loop_ok l'"
proof -
  obtain s where s: "foldE (\<lambda>s (gid, sender, raw). run_raft_locked gid (step rand sender raw) s) (srv l) (raft_msg_queue l) = Inr s"
      "l' = l\<lparr>srv := s, raft_msg_queue := []\<rparr>"
    using assms(1) by (auto simp: raft_messages_def elim!: bindE_InrE)
  have "server_ok s"
    by (rule foldE_invariant [where P = server_ok, OF s(1)]) (use assms(2) run_raft_locked_ok in \<open>auto simp: loop_ok_def\<close>)
  then show ?thesis using assms(2) s(2) by (simp add: loop_ok_def)
qed

lemma mark_alive_ok: "loop_ok l \<Longrightarrow> loop_ok (mark_alive now l)"
proof -
  assume l: "loop_ok l"
  have "cluster_ok (fold (\<lambda>(uuid, fd) c. if fd \<noteq> -1 \<and> map_of (socks l) fd \<noteq> None then updateHeartbeat now fd c else c) cs c)"
    if "cluster_ok c" for c and cs :: "(u64 \<times> int) list"
    using that by (induction cs arbitrary: c) (simp_all add: case_prod_unfold cluster_ops_ok)
  then show ?thesis using l by (simp add: mark_alive_def loop_ok_def server_ok_def)
qed

lemma detect_failures_ok: "detect_failures now l = Inr l' \<Longrightarrow> loop_ok l \<Longrightarrow> loop_ok l'"
  by (auto simp: detect_failures_def checkTimeouts_eq Let_def loop_ok_def server_ok_def remove_nodes_ok split: if_splits)

lemma run_noAOF_ok: "run_noAOF s v = Inr s' \<Longrightarrow> server_ok s \<Longrightarrow> server_ok s'"
  by (auto simp: run_noAOF_def dest: handle_noAOF_ok elim!: bindE_InrE)

lemma apply_entry_ok: "apply_entry s e = Inr s' \<Longrightarrow> server_ok s \<Longrightarrow> server_ok s'"
  by (simp add: apply_entry_def run_noAOF_ok)

lemma raft_round_ok:
  assumes "raft_round rand s gid = Inr s'" "server_ok s"
  shows "server_ok s'"
proof -
  obtain s1 where s1: "run_raft_locked gid (tick rand) s = Inr s1" using assms(1) by (auto simp: raft_round_def elim!: bindE_InrE)
  then have ok: "server_ok s1" using run_raft_locked_ok assms(2) by blast
  have "s' = s1 \<or> (\<exists>rn es. foldE apply_entry (s1\<lparr>raft_groups := map_insert gid rn (raft_groups s1)\<rparr>) es = Inr s')"
    using assms(1) s1 by (auto simp: raft_round_def split: option.splits if_splits prod.splits)
  then show ?thesis using ok server_ok_update(4) foldE_invariant [where P = server_ok and f = apply_entry] apply_entry_ok by blast
qed

lemma epoll_step_ok:
  assumes "epoll_step io l = Inr l'" "loop_ok l"
  shows "loop_ok l'"
proof (cases "polled io")
  case (Polled evs)
  then obtain l1 l2 l3 l4 where l: "foldE on_event l evs = Inr l1" "drain_queue io l1 = Inr l2" "raft_messages (randoms io) l2 = Inr l3"
      "detect_failures (clock io) (mark_alive (clock io) l3) = Inr l4" "raft_rounds (randoms io) l4 = Inr l'"
    using assms(1) by (auto simp: epoll_step_def elim!: bindE_InrE)
  have "loop_ok l1" using foldE_invariant [where P = loop_ok, OF l(1)] assms(2) on_event_ok by blast
  then have l4: "loop_ok l4" using l(2-4) drain_queue_ok raft_messages_ok mark_alive_ok detect_failures_ok by blast
  obtain s where s: "foldE (raft_round (randoms io)) (srv l4) (map fst (raft_groups (srv l4))) = Inr s" "l' = l4\<lparr>srv := s\<rparr>"
    using l(5) by (auto simp: raft_rounds_def elim!: bindE_InrE)
  have "server_ok s" using foldE_invariant [where P = server_ok, OF s(1)] l4 raft_round_ok by (auto simp: loop_ok_def)
  then show ?thesis using s(2) l4 by (simp add: loop_ok_srv)
qed (use assms in \<open>auto simp: epoll_step_def\<close>)

section \<open>The workers\<close>

lemma worker_accepted [simp]: "accepted (worker_take i p) = accepted p" "accepted (worker_finish i p) = accepted p"
  by (simp_all add: worker_take_def worker_finish_def split: list.split worker.split)

text \<open>A task that a worker holds was accepted by the pool.\<close>

lemma busy_accepted:
  assumes "pool_ok p" "i < length (workers p)" "workers p ! i = Busy t"
  shows "t \<in> set (accepted p)"
proof -
  have "Busy t \<in> set (workers p)" using assms(2,3) by (metis nth_mem)
  then have "t \<in># busy_tasks (workers p)" by (force simp: busy_tasks_def)
  then have "t \<in># mset (started p)" using assms(1) by (simp add: pool_ok_def)
  then show ?thesis using assms(1) by (simp add: pool_ok_def)
qed

lemma lone_loop_ok: "loop_ok lone_loop"
  using lone_server_clean lone_server_cluster_ok new_ThreadPool_ok
  by (simp add: loop_ok_def lone_loop_def server_ok_def clean_store_def sorted_map_def ran_def new_ThreadPool_def
      lone_server_def idle_Server_def Let_def)

section \<open>Undefined behaviour of the handlers\<close>

text \<open>A node with a ring, whose Raft groups accept proposals.\<close>

definition serving :: "Server \<Rightarrow> bool" where
  "serving s \<longleftrightarrow> server_ok s \<and> node_hash (cluster s) \<noteq> [] \<and> (\<forall>key cmd. \<exists>s1. propose_for key cmd s = Inr s1)"

lemma serving_query: "serving s \<Longrightarrow> \<exists>u. queryNode (cluster s) key = Inr u"
  using ring_query_hd [of "node_hash (cluster s)"] by (auto simp: serving_def server_ok_def cluster_ok_def queryNode_def)

lemma serving_defined:
  assumes "serving s"
  shows "isMasterFor (cluster s) key \<noteq> Inl e" "moved_reply key s \<noteq> Inl e" "propose_for key cmd s \<noteq> Inl e"
    "aof_append st (map Some es) a \<noteq> Inl e" "kv_get (kvstore s) key \<noteq> Inl (UB x)"
    "propose_for key cmd s = Inr s1 \<Longrightarrow> kv_set (kvstore s1) k v \<noteq> Inl (UB x)"
proof -
  obtain u where u: "queryNode (cluster s) key = Inr u" using serving_query [OF assms] by blast
  then show "isMasterFor (cluster s) key \<noteq> Inl e" "moved_reply key s \<noteq> Inl e"
    by (simp_all add: isMasterFor_def moved_reply_def Let_def)
  obtain t where "propose_for key cmd s = Inr t" using assms unfolding serving_def by blast
  then show "propose_for key cmd s \<noteq> Inl e" by simp
  show "aof_append st (map Some es) a \<noteq> Inl e" by (simp add: aof_append_def)
  have kv: "kv_ok (kvstore s)" using assms by (simp add: serving_def server_ok_def)
  show "kv_get (kvstore s) key \<noteq> Inl (UB x)" using kv_get_fails [OF kv] by fastforce
  show "kv_set (kvstore s1) k v \<noteq> Inl (UB x)" if "propose_for key cmd s = Inr s1"
    using kv_set_fails [OF kv] propose_for_frame [OF that] by fastforce
qed

lemma SET_undefined:
  assumes "serving s" "SET st (Array (Some (c # es))) s = Inl (UB x)"
  shows "\<exists>key. es = [SimpleString key, BulkString None] \<and> isMasterFor (cluster s) key = Inr True"
proof -
  have len: "length (c # es) = 3" using assms(2) by (auto simp: SET_def request_elements_def split: if_splits)
  then obtain k v where es: "es = [k, v]" by (auto simp: eval_nat_numeral length_Suc_conv)
  obtain key where k: "k = SimpleString key" using assms(2) by (auto simp: SET_def request_elements_def es split: RespValue.splits)
  obtain m where m: "isMasterFor (cluster s) key = Inr m" using serving_defined(1) [OF assms(1)] by (metis sumE)
  have "m \<and> value_string v = Inl (UB x)"
    using assms(2) serving_defined(2,3,6) [OF assms(1)] serving_defined(4) [OF assms(1), of _ "[c, k, v]"]
    by (auto simp: SET_def request_elements_def es k m elim!: bindE_InlE split: if_splits)
  then show ?thesis using es k m by (auto simp: value_string_def split: RespValue.splits option.splits)
qed

lemma DEL_undefined:
  assumes "serving s" "DEL st (Array (Some (c # es))) s = Inl (UB x)"
  shows "\<exists>key. es = [SimpleString key] \<and> isMasterFor (cluster s) key = Inr True"
proof -
  have len: "length (c # es) = 2" using assms(2) by (auto simp: DEL_def request_elements_def split: if_splits)
  then obtain k where es: "es = [k]" by (auto simp: eval_nat_numeral length_Suc_conv)
  obtain key where k: "k = SimpleString key" using assms(2) by (auto simp: DEL_def request_elements_def es split: RespValue.splits)
  obtain m where m: "isMasterFor (cluster s) key = Inr m" using serving_defined(1) [OF assms(1)] by (metis sumE)
  have m using assms(2) serving_defined(2) [OF assms(1)] by (auto simp: es k m DEL_eq elim!: bindE_InlE split: if_splits)
  then show ?thesis using es k m by simp
qed

lemma getNode_defined: "getNode v \<noteq> Inl (UB x)"
  by (auto simp: getNode_def split: RespValue.splits option.splits list.splits)

lemma NODEIN_defined:
  assumes "serving s"
  shows "NODEIN now (Array (Some (c # es))) s \<noteq> Inl (UB x)"
proof
  assume a: "NODEIN now (Array (Some (c # es))) s = Inl (UB x)"
  have send: "sendDataToNode u (t\<lparr>cluster := addTopoNode n (addNodeToHash (UUID n) (addGossip now g (cluster s)))\<rparr>) \<noteq> Inl e" for u n g e and t :: Server
  proof -
    let ?c = "addTopoNode n (addNodeToHash (UUID n) (addGossip now g (cluster s)))"
    have "sorted_map (node_hash ?c)" "node_hash ?c \<noteq> []"
      using assms by (simp_all add: serving_def server_ok_def cluster_ok_def addTopoNode_def addNodeToHash_def addGossip_def Let_def ring_addNode_not_Nil)
    then show ?thesis using sendDataToNode_total [of "t\<lparr>cluster := ?c\<rparr>" u] by auto
  qed
  show False using a send getNode_defined
    by (auto simp: NODEIN_def request_elements_def Let_def elim!: bindE_InlE split: if_splits RespValue.splits)
qed

lemma others_defined:
  assumes "serving s"
  shows "GET (Array (Some (c # es))) s \<noteq> Inl (UB x)" "EXIST (Array (Some (c # es))) s \<noteq> Inl (UB x)"
    "NODEOUT now (Array (Some (c # es))) s \<noteq> Inl (UB x)" "HELLO (Array (Some (c # es))) fd s \<noteq> Inl (UB x)"
    "SYNCDONE (Array (Some (c # es))) s \<noteq> Inl (UB x)" "HEARTBEAT now fd s \<noteq> Inl (UB x)"
  using serving_defined(5) [OF assms]
  by (auto simp: GET_def EXIST_def NODEOUT_def HELLO_def SYNCDONE_def HEARTBEAT_def request_elements_def getValue_eq Let_def
      elim!: bindE_InlE split: if_splits RespValue.splits)

text \<open>The requests that make a node execute undefined behaviour.\<close>

definition poison :: "Server \<Rightarrow> RespValue \<Rightarrow> bool" where
  "poison s request \<longleftrightarrow> request = Array None \<or>
     (\<exists>key. isMasterFor (cluster s) key = Inr True \<and>
       request \<in> {Array (Some [SimpleString ''SET'', SimpleString key, BulkString None]), Array (Some [SimpleString ''DEL'', SimpleString key])})"

lemma poison_undefined:
  assumes "serving s" "\<not> syncing s" "poison s request"
  shows "\<exists>x. handle rand st now request fd s = Inl (UB x)"
  using assms serving_defined(3) [OF assms(1)]
  by (auto simp: poison_def handle_def SET_def DEL_eq request_elements_def value_string_def bindE_def split: sum.split)

lemma undefined_poison:
  assumes "serving s" "handle rand st now request fd s = Inl (UB x)"
    and "\<forall>c\<in>{''RAFT_AE'', ''RAFT_AER'', ''RAFT_RV'', ''RAFT_RVR''}. \<not> command_is c request"
  shows "poison s request"
proof (cases "\<exists>c es. request = Array (Some (SimpleString c # es))")
  case False
  then show ?thesis using assms(2)
    by (auto simp: handle_def poison_def split: RespValue.splits option.splits list.splits if_splits)
next
  case True
  then obtain c es where req: "request = Array (Some (SimpleString c # es))" by blast
  have r: "c \<notin> {''RAFT_AE'', ''RAFT_AER'', ''RAFT_RV'', ''RAFT_RVR''}" using assms(3) by (auto simp: req)
  have "c = ''SET'' \<and> SET st request s = Inl (UB x) \<or> c = ''DEL'' \<and> DEL st request s = Inl (UB x)"
    using assms(2) others_defined [OF assms(1)] NODEIN_defined [OF assms(1)]
    unfolding req handle_def RespValue.case option.case list.case if_not_P [OF r]
    by (elim if_eqE) simp_all
  then show ?thesis using SET_undefined [OF assms(1)] DEL_undefined [OF assms(1)] unfolding req poison_def by blast
qed

section \<open>Properties\<close>



end
