(* ===== verification/Handler_Sections.thy ===== *)
theory Handler_Sections
  imports Server_Protocol
begin

text \<open>
  The handlers of \<open>server/Handler.cpp\<close> as sequences of critical sections.  Workers of the pool run them at
  the same time; what one worker does to the shared server without being interrupted is what it does
  under one lock.  A program is a value, an exception, or a section (a change of the server) followed by
  a program that may depend on the server the section found.  What a handler did before it throws stays.

  A section is one call of an operation of the store, the log, the cluster or the message queue, or one
  critical section of a Raft node.  \<open>addConnection\<close>, \<open>delTopoNode\<close> and \<open>updateHeartbeat\<close> take several locks of
  the cluster one after the other and are one section here, as is the walk through one shard in
  \<open>sendDataToNode\<close>.  A section that throws leaves the server as it found it.
\<close>

section \<open>Programs\<close>

datatype 'a prog = Ret 'a | Raise kv_error | Sec "Server \<Rightarrow> Server" "Server \<Rightarrow> 'a prog"

primrec bindP :: "'a prog \<Rightarrow> ('a \<Rightarrow> 'b prog) \<Rightarrow> 'b prog" where
  "bindP (Ret x) f = f x"
| "bindP (Raise e) f = Raise e"
| "bindP (Sec u k) f = Sec u (\<lambda>s. bindP (k s) f)"

text \<open>A section that only reads, one that only changes, one that may throw.\<close>

definition look :: "(Server \<Rightarrow> 'a) \<Rightarrow> 'a prog" where
  "look f = Sec id (\<lambda>s. Ret (f s))"

definition change :: "(Server \<Rightarrow> Server) \<Rightarrow> unit prog" where
  "change u = Sec u (\<lambda>_. Ret ())"

definition attempt :: "(Server \<Rightarrow> (Server \<times> 'a) res) \<Rightarrow> 'a prog" where
  "attempt f = Sec (\<lambda>s. case f s of Inl e \<Rightarrow> s | Inr (s', x) \<Rightarrow> s') (\<lambda>s. case f s of Inl e \<Rightarrow> Raise e | Inr (s', x) \<Rightarrow> Ret x)"

definition lookE :: "(Server \<Rightarrow> 'a res) \<Rightarrow> 'a prog" where
  "lookE f = attempt (\<lambda>s. bindE (f s) (\<lambda>x. Inr (s, x)))"

definition liftE :: "'a res \<Rightarrow> 'a prog" where
  "liftE r = (case r of Inl e \<Rightarrow> Raise e | Inr x \<Rightarrow> Ret x)"

fun eachP :: "('a \<Rightarrow> unit prog) \<Rightarrow> 'a list \<Rightarrow> unit prog" where
  "eachP f [] = Ret ()"
| "eachP f (x # xs) = bindP (f x) (\<lambda>_. eachP f xs)"

text \<open>A worker that is not interrupted: the server at the end, and the result or the exception.\<close>

primrec run_alone :: "'a prog \<Rightarrow> Server \<Rightarrow> Server \<times> 'a res" where
  "run_alone (Ret x) = (\<lambda>s. (s, Inr x))"
| "run_alone (Raise e) = (\<lambda>s. (s, Inl e))"
| "run_alone (Sec u k) = (\<lambda>s. run_alone (k s) (u s))"

definition exec :: "'a prog \<Rightarrow> Server \<Rightarrow> (Server \<times> 'a) res" where
  "exec p s = (case run_alone p s of (s', Inl e) \<Rightarrow> Inl e | (s', Inr x) \<Rightarrow> Inr (s', x))"

section \<open>Proposals\<close>

text \<open>\<open>RaftNode::propose\<close>: the log grows under the mutex of the node, the line is buffered under the mutex of
  the file, and the messages are built under the mutex of the node again.  A node that is not the leader
  does nothing.\<close>

definition propose_log :: "string \<Rightarrow> RaftNode \<Rightarrow> RaftNode \<times> LogEntry option" where
  "propose_log cmd n =
     (if role n \<noteq> Leader then (n, None)
      else let entry = \<lparr>entry_term = currentTerm n, command = cmd\<rparr>; n = n\<lparr>rlog := rlog n @ [entry]\<rparr>
           in (if peers n = [] then n\<lparr>commitIndex := lastLogIndex n\<rparr> else n, Some entry))"

definition with_group :: "u64 \<Rightarrow> (RaftNode \<Rightarrow> RaftNode \<times> 'a) \<Rightarrow> 'a \<Rightarrow> Server \<Rightarrow> Server \<times> 'a" where
  "with_group gid f x s = (case getRaftGroup gid s of
     None \<Rightarrow> (s, x)
   | Some rn \<Rightarrow> (case f rn of (rn', y) \<Rightarrow> (s\<lparr>raft_groups := map_insert gid rn' (raft_groups s)\<rparr>, y)))"

definition propose_sections :: "u64 \<Rightarrow> string \<Rightarrow> unit prog" where
  "propose_sections gid cmd =
     bindP (attempt (\<lambda>s. Inr (with_group gid (propose_log cmd) None s))) (\<lambda>entry. case entry of
       None \<Rightarrow> Ret ()
     | Some e \<Rightarrow>
         bindP (change (\<lambda>s. fst (with_group gid (\<lambda>n. (appendToDisk e n, ())) () s))) (\<lambda>_.
         attempt (\<lambda>s. bindE (run_raft gid (\<lambda>n. bindE (send_to_all n) (\<lambda>ms. Inr (n, ms))) s) (\<lambda>s. Inr (s, ())))))"

definition propose_for_sections :: "string \<Rightarrow> string \<Rightarrow> unit prog" where
  "propose_for_sections key cmd = bindP (lookE (getGroupForKey key)) (\<lambda>rn. case rn of
     None \<Rightarrow> Ret ()
   | Some gid \<Rightarrow> propose_sections gid cmd)"

section \<open>Data commands\<close>

definition moved_sections :: "string \<Rightarrow> string prog" where
  "moved_sections key = bindP (lookE (\<lambda>s. queryNode (cluster s) key)) (\<lambda>master_uuid.
     bindP (look (\<lambda>s. topo (cluster s))) (\<lambda>tp.
     let addr = (case map_of tp master_uuid of
         Some n \<Rightarrow> ip n @ '':'' @ to_string (unat (port n))
       | None \<Rightarrow> to_string (unat master_uuid))
     in Ret (encode (Error (''MOVED '' @ addr)))))"

definition log_section :: "int \<Rightarrow> slots \<Rightarrow> unit prog" where
  "log_section st es = attempt (\<lambda>s. bindE (aof_append st es (aof s)) (\<lambda>a. Inr (s\<lparr>aof := a\<rparr>, ())))"

definition set_section :: "string \<Rightarrow> RespValue \<Rightarrow> unit prog" where
  "set_section key v = attempt (\<lambda>s. bindE (kv_set (kvstore s) key v) (\<lambda>(kv, _). Inr (s\<lparr>kvstore := kv\<rparr>, ())))"

definition SET_sections :: "int \<Rightarrow> RespValue \<Rightarrow> string prog" where
  "SET_sections st request = bindP (liftE (request_elements request)) (\<lambda>es.
     if length es \<noteq> 3 then Raise (Runtime_Error ''SET: Wrong number of arguments'')
     else case es ! 1 of
       SimpleString key \<Rightarrow>
         bindP (lookE (\<lambda>s. isMasterFor (cluster s) key)) (\<lambda>master.
         if \<not> master then moved_sections key
         else bindP (liftE (value_string (es ! 2))) (\<lambda>val_str.
           bindP (propose_for_sections key (''SET '' @ key @ '' '' @ val_str)) (\<lambda>_.
           bindP (log_section st (map Some es)) (\<lambda>_.
           bindP (set_section key (es ! 2)) (\<lambda>_. Ret (encode (SimpleString ''OK'')))))))
     | _ \<Rightarrow> Raise (Runtime_Error ''SET: Key is not a SimpleString''))"

definition GET_sections :: "RespValue \<Rightarrow> string prog" where
  "GET_sections request = bindP (liftE (request_elements request)) (\<lambda>es.
     if length es \<noteq> 2 then Raise (Runtime_Error ''GET: Wrong number of arguments'')
     else case es ! 1 of
       SimpleString key \<Rightarrow>
         bindP (attempt (\<lambda>s. bindE (getValue (kvstore s) key) (\<lambda>(kv, result). Inr (s\<lparr>kvstore := kv\<rparr>, result)))) (\<lambda>result.
         Ret (if result \<noteq> [] then result else encode (BulkString None)))
     | _ \<Rightarrow> Raise (Runtime_Error ''GET: Key is not a SimpleString''))"

definition DEL_sections :: "int \<Rightarrow> RespValue \<Rightarrow> string prog" where
  "DEL_sections st request = bindP (liftE (request_elements request)) (\<lambda>es.
     if length es \<noteq> 2 then Raise (Runtime_Error ''DEL: Usage: DEL key'')
     else case es ! 1 of
       SimpleString key \<Rightarrow>
         bindP (lookE (\<lambda>s. isMasterFor (cluster s) key)) (\<lambda>master.
         if \<not> master then moved_sections key
         else bindP (propose_for_sections key (''DEL '' @ key)) (\<lambda>_.
           bindP (log_section st ((map Some es)[1 := None])) (\<lambda>_.
           bindP (attempt (\<lambda>s. bindE (kv_del (kvstore s) key) (\<lambda>(kv, ret). Inr (s\<lparr>kvstore := kv\<rparr>, ret)))) (\<lambda>ret.
             Ret (encode (Integer (of_bool ret)))))))
     | _ \<Rightarrow> Raise (Runtime_Error ''DEL: Key is not a SimpleString''))"

definition EXIST_sections :: "RespValue \<Rightarrow> string prog" where
  "EXIST_sections request = bindP (liftE (request_elements request)) (\<lambda>es.
     if length es \<noteq> 2 then Raise (Runtime_Error ''EXIST: Usage: EXIST key'')
     else case es ! 1 of
       SimpleString key \<Rightarrow>
         bindP (attempt (\<lambda>s. bindE (kv_get (kvstore s) key) (\<lambda>(kv, r). Inr (s\<lparr>kvstore := kv\<rparr>, r)))) (\<lambda>r.
         Ret (encode (Integer (of_bool (r \<noteq> None)))))
     | _ \<Rightarrow> Raise (Runtime_Error ''EXIST: Key is not a SimpleString''))"

section \<open>Cluster commands\<close>

definition queue_section :: "string \<Rightarrow> int \<Rightarrow> unit prog" where
  "queue_section text fd = change (enqueue_msg text fd)"

definition on_cluster :: "(Cluster \<Rightarrow> Cluster) \<Rightarrow> unit prog" where
  "on_cluster f = change (\<lambda>s. s\<lparr>cluster := f (cluster s)\<rparr>)"

text \<open>The list of connections is copied; each copy of the message enters the queue on its own.\<close>

definition broadcast_sections :: "RespValue \<Rightarrow> unit prog" where
  "broadcast_sections request = bindP (look (\<lambda>s. connections (cluster s))) (\<lambda>conn.
     eachP (\<lambda>(uuid, fd). queue_section (encode request) fd) conn)"

definition sendData_sections :: "u64 \<Rightarrow> unit prog" where
  "sendData_sections target_uuid = bindP (look (\<lambda>s. getConnection target_uuid (cluster s))) (\<lambda>target_fd.
     if target_fd = -1 then Ret ()
     else bindP (look (\<lambda>s. length (shards (kvstore s)))) (\<lambda>n.
       bindP (eachP (\<lambda>i. attempt (\<lambda>s. bindE (foldE (send_entry target_uuid target_fd) s (ht_entries (data (shards (kvstore s) ! i))))
         (\<lambda>s. Inr (s, ())))) [0..<n]) (\<lambda>_.
       change (\<lambda>s. enqueue_msg (''*2'' @ crlf @ ''+SYNCDONE'' @ crlf @ ''+'' @
               to_string (unat (UUID (self_node (cluster s)))) @ crlf) target_fd s))))"

definition NODEIN_sections :: "u64 \<Rightarrow> RespValue \<Rightarrow> string prog" where
  "NODEIN_sections now request = bindP (liftE (request_elements request)) (\<lambda>es.
     if length es \<noteq> 3 then Raise (Runtime_Error ''NODEIN: Wrong number of arguments'')
     else case es ! 1 of
       SimpleString u \<Rightarrow>
         bindP (look (\<lambda>s. findGossip (to_uint64_t u) (cluster s))) (\<lambda>known.
         if known then Ret []
         else bindP (on_cluster (addGossip now (to_uint64_t u))) (\<lambda>_.
           bindP (broadcast_sections request) (\<lambda>_.
           bindP (liftE (getNode (es ! 2))) (\<lambda>new_node.
           bindP (look (\<lambda>s. getConnection (UUID new_node) (cluster s))) (\<lambda>fd.
           if fd \<noteq> -1 then
             bindP (on_cluster (addNodeToHash (UUID new_node))) (\<lambda>_.
             bindP (on_cluster (addTopoNode new_node)) (\<lambda>_.
             bindP (sendData_sections (UUID new_node)) (\<lambda>_.
             bindP (queue_section ''REBUILD_RAFTS'' (-2)) (\<lambda>_. Ret []))))
           else
             bindP (queue_section (ip new_node @ '' '' @ to_string (unat (port new_node)) @ '' '' @
                      to_string (unat (UUID new_node))) (-1)) (\<lambda>_.
             bindP (on_cluster (addNodeToHash (UUID new_node))) (\<lambda>_.
             bindP (on_cluster (addTopoNode new_node)) (\<lambda>_.
             bindP (queue_section ''REBUILD_RAFTS'' (-2)) (\<lambda>_. Ret [])))))))))
     | _ \<Rightarrow> Raise (Runtime_Error ''NODEIN: UUID is not a SimpleString''))"

definition NODEOUT_sections :: "u64 \<Rightarrow> RespValue \<Rightarrow> string prog" where
  "NODEOUT_sections now request = bindP (liftE (request_elements request)) (\<lambda>es.
     if length es \<noteq> 3 then Raise (Runtime_Error ''NODEOUT: Wrong number of arguments'')
     else case es ! 1 of
       SimpleString u \<Rightarrow>
         bindP (look (\<lambda>s. findGossip (to_uint64_t u) (cluster s))) (\<lambda>known.
         if known then Ret []
         else bindP (on_cluster (addGossip now (to_uint64_t u))) (\<lambda>_.
           bindP (broadcast_sections request) (\<lambda>_.
           case es ! 2 of
             SimpleString n \<Rightarrow>
               let uuid = int_of_uuid (to_uint64_t n) in
               bindP (on_cluster (delNodeToHash uuid)) (\<lambda>_.
               bindP (on_cluster (delTopoNode uuid)) (\<lambda>_.
               bindP (on_cluster (delConnection uuid)) (\<lambda>_. Ret [])))
           | _ \<Rightarrow> Raise (Runtime_Error ''NODEOUT: node_id is not a SimpleString''))))
     | _ \<Rightarrow> Raise (Runtime_Error ''NODEOUT:UUID is not a SimpleString''))"

definition handleRaft_sections :: "(nat \<Rightarrow> nat) \<Rightarrow> u64 \<Rightarrow> RespValue \<Rightarrow> int \<Rightarrow> string prog" where
  "handleRaft_sections rand now request fd = bindP (liftE (request_elements request)) (\<lambda>es.
     if length es < 2 then Ret []
     else let gid = (case es ! 1 of SimpleString g \<Rightarrow> to_uint64_t g | _ \<Rightarrow> 0) in
       bindP (look (\<lambda>s. getRaftGroup gid s = None)) (\<lambda>missing.
       if missing then Ret []
       else bindP (on_cluster (updateHeartbeat now fd)) (\<lambda>_.
         bindP (look (\<lambda>s. getUuidByFd fd (cluster s))) (\<lambda>sender.
         bindP (attempt (\<lambda>s. bindE (run_raft gid (step rand sender (encode request)) s) (\<lambda>s. Inr (s, ())))) (\<lambda>_. Ret [])))))"

definition HEARTBEAT_sections :: "u64 \<Rightarrow> int \<Rightarrow> string prog" where
  "HEARTBEAT_sections now fd = bindP (on_cluster (updateHeartbeat now fd)) (\<lambda>_. Ret [])"

definition SYNCDONE_sections :: "RespValue \<Rightarrow> string prog" where
  "SYNCDONE_sections request = bindP (liftE (request_elements request)) (\<lambda>es.
     if length es < 2 then Raise (Runtime_Error ''SYNCDONE: missing node UUID'') else bindP (change onSyncDone) (\<lambda>_. Ret []))"

definition HELLO_sections :: "RespValue \<Rightarrow> int \<Rightarrow> string prog" where
  "HELLO_sections request fd = bindP (liftE (request_elements request)) (\<lambda>es.
     if length es \<noteq> 2 then Raise (Runtime_Error ''HELLO: Wrong number of arguments'')
     else case es ! 1 of
       SimpleString u \<Rightarrow> bindP (on_cluster (addConnection (to_uint64_t u) fd)) (\<lambda>_. Ret (encode (SimpleString ''OK'')))
     | _ \<Rightarrow> Raise (Runtime_Error ''HELLO: UUID is not a SimpleString''))"

section \<open>Dispatch\<close>

definition handle_sections :: "(nat \<Rightarrow> nat) \<Rightarrow> int \<Rightarrow> u64 \<Rightarrow> RespValue \<Rightarrow> int \<Rightarrow> string prog" where
  "handle_sections rand st now request fd = (case request of
     Array None \<Rightarrow> Raise (UB Nullopt_Deref)
   | Array (Some []) \<Rightarrow> Raise (Runtime_Error ''Empty request!!'')
   | Array (Some (SimpleString c # _)) \<Rightarrow>
       if c = ''SYNCDONE'' then SYNCDONE_sections request
       else if c = ''HEARTBEAT'' then HEARTBEAT_sections now fd
       else if c \<in> {''RAFT_AE'', ''RAFT_AER'', ''RAFT_RV'', ''RAFT_RVR''} then handleRaft_sections rand now request fd
       else bindP (look syncing) (\<lambda>loading.
         if loading \<and> c \<in> {''SET'', ''GET'', ''DEL'', ''EXIST''} then
           Ret (encode (Error ''LOADING server is syncing, please retry''))
         else if c = ''GET'' then GET_sections request
         else if c = ''SET'' then SET_sections st request
         else if c = ''DEL'' then DEL_sections st request
         else if c = ''EXIST'' then EXIST_sections request
         else if c = ''NODEIN'' then NODEIN_sections now request
         else if c = ''NODEOUT'' then NODEOUT_sections now request
         else if c = ''GETNETWORK'' then look GETNETWORK
         else if c = ''HELLO'' then HELLO_sections request fd
         else Raise (Runtime_Error ''Unknown request!!''))
   | Array (Some (_ # _)) \<Rightarrow> Raise (Runtime_Error ''Command is not a SimpleString!!'')
   | SimpleString c \<Rightarrow> (if c = ''OK'' then Ret [] else Raise (Runtime_Error ''Unknown request!''))
   | _ \<Rightarrow> Raise (Runtime_Error ''Unknown request!''))"

definition handleCommand_sections :: "(nat \<Rightarrow> nat) \<Rightarrow> int \<Rightarrow> u64 \<Rightarrow> int \<Rightarrow> RespValue \<Rightarrow> unit prog" where
  "handleCommand_sections rand st now sock request =
     bindP (handle_sections rand st now request sock) (\<lambda>text. if text = [] then Ret () else queue_section text sock)"

section \<open>A worker that is not interrupted\<close>

lemma exec_Ret [simp]: "exec (Ret x) s = Inr (s, x)" and exec_Raise [simp]: "exec (Raise e) s = Inl e"
  and exec_Sec [simp]: "exec (Sec u k) s = exec (k s) (u s)"
  by (simp_all add: exec_def)

lemma exec_if [simp]: "exec (if c then p else q) s = (if c then exec p s else exec q s)"
  by simp

lemma exec_bindP [simp]: "exec (bindP p f) s = bindE (exec p s) (\<lambda>(s', x). exec (f x) s')"
  by (induction p arbitrary: s) simp_all

lemma exec_section [simp]:
  "exec (look f) s = Inr (s, f s)" "exec (change u) s = Inr (u s, ())" "exec (attempt g) s = g s"
  "exec (lookE h) s = bindE (h s) (\<lambda>x. Inr (s, x))" "exec (liftE r) s = bindE r (\<lambda>x. Inr (s, x))"
  by (simp_all add: look_def change_def attempt_def lookE_def liftE_def bindE_def split: sum.split)

lemma exec_eachP:
  "exec (eachP f xs) s = bindE (foldE (\<lambda>s x. bindE (exec (f x) s) (\<lambda>(s', _). Inr s')) s xs) (\<lambda>s. Inr (s, ()))"
  by (induction xs arbitrary: s) (simp_all add: bindE_assoc case_prod_unfold)

text \<open>What an uninterrupted worker leaves, also when the handler throws.\<close>

lemma exec_run_alone: "exec p s = Inr (s', x) \<longleftrightarrow> run_alone p s = (s', Inr x)" "exec p s = Inl e \<longleftrightarrow> (\<exists>s'. run_alone p s = (s', Inl e))"
  by (auto simp: exec_def split: prod.splits sum.splits)

lemma exec_propose:
  assumes "getRaftGroup gid s \<noteq> None"
  shows "exec (propose_sections gid cmd) s = bindE (run_raft gid (propose cmd) s) (\<lambda>s. Inr (s, ()))"
proof -
  obtain rn where rn: "map_of (raft_groups s) gid = Some rn" using assms by (auto simp: getRaftGroup_def)
  show ?thesis
  proof (cases "role rn = Leader")
    case False
    then show ?thesis using rn
      by (simp add: propose_sections_def with_group_def propose_log_def getRaftGroup_def run_raft_def propose_def)
  next
    case True
    define e where "e = \<lparr>entry_term = currentTerm rn, command = cmd\<rparr>"
    define n where "n = (let n = rn\<lparr>rlog := rlog rn @ [e]\<rparr> in if peers n = [] then n\<lparr>commitIndex := lastLogIndex n\<rparr> else n)"
    have "propose_log cmd rn = (n, Some e)" "propose cmd rn = bindE (send_to_all (appendToDisk e n)) (\<lambda>ms. Inr (appendToDisk e n, ms))"
      using True by (simp_all add: propose_log_def propose_def n_def e_def Let_def)
    then show ?thesis using rn
      by (simp add: propose_sections_def with_group_def getRaftGroup_def run_raft_def bindE_assoc)
  qed
qed

lemma exec_propose_for [simp]: "exec (propose_for_sections key cmd) s = bindE (propose_for key cmd s) (\<lambda>s. Inr (s, ()))"
proof -
  have "exec (case rn of None \<Rightarrow> Ret () | Some gid \<Rightarrow> propose_sections gid cmd) s =
      bindE (case rn of None \<Rightarrow> Inr s | Some gid \<Rightarrow> run_raft gid (propose cmd) s) (\<lambda>s. Inr (s, ()))"
    if "getGroupForKey key s = Inr rn" for rn
    using that exec_propose [of _ s cmd]
    by (auto simp: getGroupForKey_def elim!: bindE_InrE split: option.splits if_splits)
  then show ?thesis
    by (cases "getGroupForKey key s") (simp_all add: propose_for_sections_def propose_for_def)
qed

lemma exec_moved [simp]: "exec (moved_sections key) s = bindE (moved_reply key s) (\<lambda>r. Inr (s, r))"
  by (simp add: moved_sections_def moved_reply_def bindE_assoc Let_def)

lemma exec_broadcast [simp]: "exec (broadcast_sections request) s = Inr (broadcast request s, ())"
proof -
  have "foldE (\<lambda>s (uuid, fd). Inr (enqueue_msg m fd s)) s cs = Inr (fold (\<lambda>(uuid, fd). enqueue_msg m fd) cs s)"
    for m and cs :: "(u64 \<times> int) list"
    by (induction cs arbitrary: s) (simp_all add: case_prod_unfold)
  then show ?thesis by (simp add: broadcast_sections_def exec_eachP queue_section_def broadcast_def case_prod_unfold)
qed

lemma foldE_shards:
  assumes "kvstore s = kv" "\<And>s x s'. g s x = Inr s' \<Longrightarrow> kvstore s' = kvstore s"
  shows "foldE (\<lambda>s i. foldE g s (ht_entries (data (shards (kvstore s) ! i)))) s is =
    foldE g s (concat (map (\<lambda>i. ht_entries (data (shards kv ! i))) is))"
  using assms(1)
proof (induction "is" arbitrary: s)
  case (Cons i "is")
  have "kvstore s1 = kv" if "foldE g s (ht_entries (data (shards kv ! i))) = Inr s1" for s1
    using foldE_invariant [where P = "\<lambda>s. kvstore s = kv", OF that Cons.prems] assms(2) by metis
  then have "foldE (\<lambda>s i. foldE g s (ht_entries (data (shards (kvstore s) ! i)))) s1 is =
      foldE g s1 (concat (map (\<lambda>i. ht_entries (data (shards kv ! i))) is))"
    if "foldE g s (ht_entries (data (shards kv ! i))) = Inr s1" for s1
    using Cons.IH that by blast
  then show ?case using Cons.prems by (cases "foldE g s (ht_entries (data (shards kv ! i)))") (simp_all add: foldE_append)
qed simp

lemma exec_sendData [simp]: "exec (sendData_sections u) s = bindE (sendDataToNode u s) (\<lambda>s. Inr (s, ()))"
proof -
  have "kvstore s' = kvstore s" if "send_entry u fd s x = Inr s'" for fd s x s'
    using that by (cases x) (auto simp: send_entry_def elim!: bindE_InrE)
  note shards = foldE_shards [where g = "send_entry u fd" for fd, OF refl this]
  have "map (\<lambda>i. ht_entries (data (shards kv ! i))) [0..<length (shards kv)] = map (\<lambda>sh. ht_entries (data sh)) (shards kv)" for kv :: "RespValue KVStore"
    by (rule nth_equalityI) simp_all
  then have "foldE (\<lambda>s i. foldE (send_entry u fd) s (ht_entries (data (shards (kvstore s) ! i)))) s [0..<length (shards (kvstore s))] =
      foldE (send_entry u fd) s (kv_entries (kvstore s))" for fd s
    by (simp add: kv_entries_def shards)
  then show ?thesis by (simp add: sendData_sections_def sendDataToNode_def exec_eachP Let_def bindE_assoc)
qed

lemmas exec_defs = bindE_assoc case_prod_unfold Let_def log_section_def set_section_def on_cluster_def queue_section_def

lemma exec_SET: "exec (SET_sections st request) s = SET st request s"
  by (cases "request_elements request") (simp_all add: SET_sections_def SET_def exec_defs split: RespValue.split cong: if_cong)

lemma exec_GET: "exec (GET_sections request) s = GET request s"
  by (cases "request_elements request") (simp_all add: GET_sections_def GET_def exec_defs split: RespValue.split cong: if_cong)

lemma exec_DEL: "exec (DEL_sections st request) s = DEL st request s"
  by (cases "request_elements request") (simp_all add: DEL_sections_def DEL_def exec_defs split: RespValue.split cong: if_cong)

lemma exec_EXIST: "exec (EXIST_sections request) s = EXIST request s"
  by (cases "request_elements request") (simp_all add: EXIST_sections_def EXIST_def exec_defs split: RespValue.split)

lemma exec_NODEIN: "exec (NODEIN_sections now request) s = NODEIN now request s"
  by (cases "request_elements request")
    (simp_all add: NODEIN_sections_def NODEIN_def exec_defs enqueue_msg_def split: RespValue.split cong: if_cong)

lemma exec_NODEOUT: "exec (NODEOUT_sections now request) s = NODEOUT now request s"
  by (cases "request_elements request") (simp_all add: NODEOUT_sections_def NODEOUT_def exec_defs split: RespValue.split)

lemma exec_handleRaft: "exec (handleRaft_sections rand now request fd) s = handleRaft rand now request fd s"
  by (cases "request_elements request") (simp_all add: handleRaft_sections_def handleRaft_def exec_defs)

lemma exec_other:
  "exec (HEARTBEAT_sections now fd) s = HEARTBEAT now fd s" "exec (SYNCDONE_sections request) s = SYNCDONE request s"
  "exec (HELLO_sections request fd) s = HELLO request fd s"
  by (cases "request_elements request";
      simp add: HEARTBEAT_sections_def HEARTBEAT_def SYNCDONE_sections_def SYNCDONE_def HELLO_sections_def HELLO_def exec_defs
      split: RespValue.split)+

lemmas exec_handlers = exec_SET exec_GET exec_DEL exec_EXIST exec_NODEIN exec_NODEOUT exec_handleRaft exec_other

lemma exec_handle: "exec (handle_sections rand st now request fd) s = handle rand st now request fd s"
proof (cases "\<exists>c es. request = Array (Some (SimpleString c # es))")
  case False
  then show ?thesis by (auto simp: handle_sections_def handle_def split: RespValue.split option.split list.split)
next
  case True
  then obtain c es where "request = Array (Some (SimpleString c # es))" by blast
  then show ?thesis by (simp add: handle_sections_def handle_def exec_handlers)
qed

section \<open>Properties\<close>


end
