(* ===== verification/Concurrent_Handlers.thy ===== *)
theory Concurrent_Handlers
  imports Handler_Sections
begin

text \<open>
  Data commands run by any number of workers at the same time.  Requests arrive at any moment; each step
  is one critical section of one request.  The answers are those of some sequential order that respects
  the real time of the requests; the append-only file, written in another section than the store, can
  have another order.
\<close>

section \<open>Interleavings\<close>

text \<open>The server, the requests in the order of their arrival, and what is left to do for each.\<close>

record Workers =
  shared :: Server
  requests :: "data_request list"
  remaining :: "string prog list"

inductive work :: "Workers \<Rightarrow> Workers \<Rightarrow> bool" where
  Arrive: "work w (w\<lparr>requests := requests w @ [r], remaining := remaining w @ [handle_sections rand st now (request_of r) fd]\<rparr>)"
| Advance: "i < length (remaining w) \<Longrightarrow> remaining w ! i = Sec u k \<Longrightarrow>
    work w (w\<lparr>shared := u (shared w), remaining := (remaining w)[i := k (shared w)]\<rparr>)"

inductive_cases workE: "work w w'"

definition no_requests :: "Server \<Rightarrow> Workers" where
  "no_requests s = \<lparr>shared = s, requests = [], remaining = []\<rparr>"

section \<open>What a request still has to do\<close>

text \<open>While only data commands run, the cluster stays as it is and the store stays sound.\<close>

definition settled_state :: "Cluster \<Rightarrow> Server \<Rightarrow> bool" where
  "settled_state c s \<longleftrightarrow> kv_ok (kvstore s) \<and> cluster s = c \<and> \<not> syncing s"

text \<open>The rest of a request that has taken effect and will answer \<open>a\<close>: nothing but silent sections.\<close>

inductive answering :: "Cluster \<Rightarrow> string \<Rightarrow> string prog \<Rightarrow> bool" for c a where
  Answer: "answering c a (Ret a)"
| Silent: "(\<And>s. settled_state c s \<Longrightarrow> settled_state c (u s) \<and> kv_map (kvstore (u s)) = kv_map (kvstore s) \<and> answering c a (k s)) \<Longrightarrow>
    answering c a (Sec u k)"

text \<open>A request that has not taken effect: its next section is silent, or is the one in which the request
  takes effect as the specification says.\<close>

inductive waiting :: "Cluster \<Rightarrow> data_request \<Rightarrow> string prog \<Rightarrow> bool" for c r where
  Failed: "waiting c r (Raise e)"
| Section: "(\<And>s. settled_state c s \<Longrightarrow> settled_state c (u s) \<and>
     (kv_map (kvstore (u s)) = kv_map (kvstore s) \<and> waiting c r (k s) \<or>
      kv_map (kvstore (u s)) = fst (spec_answer c (kv_map (kvstore s)) r) \<and> answering c (snd (spec_answer c (kv_map (kvstore s)) r)) (k s))) \<Longrightarrow>
    waiting c r (Sec u k)"

inductive_cases answeringE: "answering c a (Ret b)" "answering c a (Sec u k)"
inductive_cases waitingE: "waiting c r (Ret b)" "waiting c r (Sec u k)"

text \<open>Sections that touch neither the store nor the log nor the cluster.\<close>

primrec silent :: "'a prog \<Rightarrow> bool" where
  "silent (Ret x) \<longleftrightarrow> True"
| "silent (Raise e) \<longleftrightarrow> True"
| "silent (Sec u k) \<longleftrightarrow> (\<forall>s. kvstore (u s) = kvstore s \<and> aof (u s) = aof s \<and> cluster (u s) = cluster s \<and> syncing (u s) = syncing s \<and> silent (k s))"

lemma silent_bindP: "silent p \<Longrightarrow> (\<And>x. silent (f x)) \<Longrightarrow> silent (bindP p f)"
  by (induction p) auto

lemma silent_look [simp]: "silent (look f)" "silent (lookE g)" "silent (liftE r)"
  by (auto simp: look_def lookE_def attempt_def liftE_def bindE_def split: sum.splits)

lemma silent_change: "(\<And>s. kvstore (u s) = kvstore s \<and> aof (u s) = aof s \<and> cluster (u s) = cluster s \<and> syncing (u s) = syncing s) \<Longrightarrow> silent (change u)"
  by (simp add: change_def)

lemma silent_attempt:
  "(\<And>s s' x. f s = Inr (s', x) \<Longrightarrow> kvstore s' = kvstore s \<and> aof s' = aof s \<and> cluster s' = cluster s \<and> syncing s' = syncing s) \<Longrightarrow> silent (attempt f)"
  by (auto simp: attempt_def split: sum.splits)

lemma with_group_frame:
  "kvstore (fst (with_group gid f x s)) = kvstore s \<and> aof (fst (with_group gid f x s)) = aof s \<and>
   cluster (fst (with_group gid f x s)) = cluster s \<and> syncing (fst (with_group gid f x s)) = syncing s"
  by (simp add: with_group_def split: option.split prod.split)

lemma run_raft_silent:
  "run_raft gid f s = Inr s' \<Longrightarrow> kvstore s' = kvstore s \<and> aof s' = aof s \<and> cluster s' = cluster s \<and> syncing s' = syncing s"
  by (auto simp: run_raft_def elim!: bindE_InrE split: option.splits)

lemma silent_propose [simp]: "silent (propose_for_sections key cmd)"
proof -
  have "silent (propose_sections gid cmd)" for gid
    unfolding propose_sections_def
  proof (intro silent_bindP silent_attempt)
    fix s s' x assume "Inr (with_group gid (propose_log cmd) None s) = (Inr (s', x) :: (Server \<times> LogEntry option) res)"
    then show "kvstore s' = kvstore s \<and> aof s' = aof s \<and> cluster s' = cluster s \<and> syncing s' = syncing s"
      using with_group_frame [of gid "propose_log cmd" None s] by simp
  next
    fix e show "silent (case e of None \<Rightarrow> Ret () | Some e \<Rightarrow>
         bindP (change (\<lambda>s. fst (with_group gid (\<lambda>n. (appendToDisk e n, ())) () s))) (\<lambda>_.
         attempt (\<lambda>s. bindE (run_raft gid (\<lambda>n. bindE (send_to_all n) (\<lambda>ms. Inr (n, ms))) s) (\<lambda>s. Inr (s, ())))))"
      by (auto intro!: silent_bindP silent_change silent_attempt simp: with_group_frame
          elim!: bindE_InrE dest!: run_raft_silent split: option.split)
  qed
  then show ?thesis by (auto simp: propose_for_sections_def intro!: silent_bindP split: option.split)
qed

text \<open>Sections as premises of the rules.\<close>

lemma waiting_silent: "silent p \<Longrightarrow> (\<And>x. waiting c r (f x)) \<Longrightarrow> waiting c r (bindP p f)"
proof (induction p)
  case (Sec u k)
  then show ?case by (auto simp: settled_state_def intro!: waiting.Section)
qed (simp_all add: waiting.Failed)

lemma waiting_lookE:
  "(\<And>s x. settled_state c s \<Longrightarrow> g s = Inr x \<Longrightarrow> waiting c r (f x)) \<Longrightarrow> waiting c r (bindP (lookE g) f)"
  by (auto simp: lookE_def attempt_def bindE_def intro!: waiting.intros split: sum.splits)

lemma waiting_attempt:
  assumes "\<And>s s' x. settled_state c s \<Longrightarrow> g s = Inr (s', x) \<Longrightarrow> settled_state c s' \<and>
     (kv_map (kvstore s') = kv_map (kvstore s) \<and> waiting c r (f x) \<or>
      kv_map (kvstore s') = fst (spec_answer c (kv_map (kvstore s)) r) \<and> answering c (snd (spec_answer c (kv_map (kvstore s)) r)) (f x))"
  shows "waiting c r (bindP (attempt g) f)"
  unfolding attempt_def bindP.simps
proof (rule waiting.Section, goal_cases)
  case (1 s)
  then show ?case using assms [OF 1] by (cases "g s") (auto simp: waiting.Failed)
qed

lemma waiting_GET: "waiting c (Get key) (GET_sections (request_of (Get key)))"
proof -
  have "waiting c (Get key) (bindP (attempt (\<lambda>s. bindE (getValue (kvstore s) key) (\<lambda>(kv, result). Inr (s\<lparr>kvstore := kv\<rparr>, result))))
      (\<lambda>result. Ret (if result \<noteq> [] then result else encode (BulkString None))))"
  proof (rule waiting_attempt, goal_cases)
    case (1 s s' x)
    then obtain kv r where kv: "kv_get (kvstore s) key = Inr (kv, r)" "s' = s\<lparr>kvstore := kv\<rparr>" "x = (case r of None \<Rightarrow> [] | Some v \<Rightarrow> encode v)"
      by (auto simp: getValue_eq elim!: bindE_InrE)
    then have "kv_ok kv \<and> kv_map kv = kv_map (kvstore s) \<and> r = kv_map (kvstore s) key" using 1(1) kv_get_ok by (auto simp: settled_state_def)
    then show ?case using 1(1) kv(2,3)
      by (auto simp: settled_state_def simp del: encode_Bulk intro!: answering.Answer split: option.split)
  qed
  then show ?thesis by (simp add: GET_sections_def request_elements_def liftE_def)
qed

lemma waiting_EXIST: "waiting c (Exist key) (EXIST_sections (request_of (Exist key)))"
proof -
  have "waiting c (Exist key) (bindP (attempt (\<lambda>s. bindE (kv_get (kvstore s) key) (\<lambda>(kv, r). Inr (s\<lparr>kvstore := kv\<rparr>, r))))
      (\<lambda>r. Ret (encode (Integer (of_bool (r \<noteq> None))))))"
  proof (rule waiting_attempt, goal_cases)
    case (1 s s' x)
    then obtain kv where "kv_get (kvstore s) key = Inr (kv, x)" "s' = s\<lparr>kvstore := kv\<rparr>" by (auto elim!: bindE_InrE)
    with kv_get_ok 1(1) show ?case
      by (fastforce simp: settled_state_def simp del: encode_Integer intro: answering.Answer)
  qed
  then show ?thesis by (simp add: EXIST_sections_def request_elements_def liftE_def)
qed

lemma answering_moved:
  assumes "queryNode c key = Inr owner"
  shows "answering c (encode (Error (''MOVED '' @ (case map_of (topo c) owner of
     Some n \<Rightarrow> ip n @ '':'' @ to_string (unat (port n)) | None \<Rightarrow> to_string (unat owner))))) (moved_sections key)"
  using assms
  by (auto simp: moved_sections_def lookE_def attempt_def look_def settled_state_def Let_def simp del: encode_Error
      intro!: answering.intros)

lemma waiting_SET: "waiting c (Set key v) (SET_sections st (request_of (Set key v)))"
proof -
  let ?req = "Array (Some [SimpleString ''SET'', SimpleString key, v])"
  let ?rest = "bindP (liftE (value_string v)) (\<lambda>w. bindP (propose_for_sections key (''SET '' @ key @ '' '' @ w)) (\<lambda>_.
      bindP (log_section st (map Some [SimpleString ''SET'', SimpleString key, v])) (\<lambda>_.
      bindP (set_section key v) (\<lambda>_. Ret (encode (SimpleString ''OK'')))))) :: string prog"
  have eq: "SET_sections st (request_of (Set key v)) = bindP (lookE (\<lambda>s. isMasterFor (cluster s) key)) (\<lambda>master.
      if \<not> master then moved_sections key else ?rest)"
    by (simp add: SET_sections_def request_elements_def liftE_def numeral_2_eq_2 cong: if_cong)
  consider (None) e where "queryNode c key = Inl e" | (Mine) "queryNode c key = Inr (UUID (self_node c))"
    | (Other) owner where "queryNode c key = Inr owner" "owner \<noteq> UUID (self_node c)"
    by (cases "queryNode c key") auto
  then show ?thesis
  proof cases
    case None
    then show ?thesis unfolding eq by (intro waiting_lookE) (simp add: settled_state_def isMasterFor_def)
  next
    case Other
    then have "answering c (snd (spec_answer c m (Set key v))) (moved_sections key)" "fst (spec_answer c m (Set key v)) = m" for m
      using answering_moved [OF Other(1)] Other by (simp_all cong: option.case_cong)
    then show ?thesis unfolding eq lookE_def using Other
      by (intro waiting_attempt) (auto simp: settled_state_def isMasterFor_def simp del: spec_answer.simps)
  next
    case Mine
    have store: "waiting c (Set key v) (bindP (set_section key v) (\<lambda>_. Ret (encode (SimpleString ''OK''))))"
      unfolding set_section_def
    proof (rule waiting_attempt, goal_cases)
      case (1 s s' x)
      then obtain kv ev where "kv_set (kvstore s) key v = Inr (kv, ev)" "s' = s\<lparr>kvstore := kv\<rparr>" by (auto elim!: bindE_InrE)
      with kv_set_ok 1(1) show ?case using Mine
        by (fastforce simp: settled_state_def simp del: encode_SimpleString intro: answering.Answer)
    qed
    have "waiting c (Set key v) (bindP (log_section st es) (\<lambda>_. bindP (set_section key v) (\<lambda>_. Ret (encode (SimpleString ''OK'')))))" for es
      unfolding log_section_def by (rule waiting_attempt) (use store in \<open>auto simp: settled_state_def elim!: bindE_InrE\<close>)
    then have "waiting c (Set key v) ?rest" by (intro waiting_silent [OF silent_look(3)] waiting_silent [OF silent_propose])
    then show ?thesis unfolding eq using Mine by (intro waiting_lookE) (auto simp: settled_state_def isMasterFor_def)
  qed
qed

lemma waiting_data_request: "waiting c r (handle_sections rand st now (request_of r) fd)"
proof -
  have s: "bindP (look syncing) f = Sec id (\<lambda>s. f (syncing s))" for f :: "bool \<Rightarrow> string prog" by (simp add: look_def)
  show ?thesis
    by (cases r) (auto simp: handle_sections_def s settled_state_def simp del: encode_Array
        intro!: waiting.Section waiting_GET [simplified] waiting_EXIST [simplified] waiting_SET [simplified])
qed

section \<open>Linearization\<close>

type_synonym history = "(nat \<times> data_request \<times> string) list"

text \<open>The answers of the history are those of the specification, and lead to the content \<open>m\<close>.\<close>

definition sequential :: "Cluster \<Rightarrow> (string \<rightharpoonup> RespValue) \<Rightarrow> history \<Rightarrow> (string \<rightharpoonup> RespValue) \<Rightarrow> bool" where
  "sequential c m0 h m \<longleftrightarrow>
     spec_answers c m0 (map (\<lambda>(i, r, a). (int i, r)) h) = (m, map (\<lambda>(i, r, a). (a, int i)) h)"

text \<open>A linearization of what the workers have done: a sequential history of requests that have arrived, each
  at most once, that leads to the content of the store, contains every request that was answered, and
  gives the answers that were given.\<close>

definition linearization :: "Cluster \<Rightarrow> (string \<rightharpoonup> RespValue) \<Rightarrow> Workers \<Rightarrow> history \<Rightarrow> bool" where
  "linearization c m0 w h \<longleftrightarrow> distinct (map fst h) \<and> sequential c m0 h (kv_map (kvstore (shared w))) \<and>
     (\<forall>(i, r, a)\<in>set h. i < length (requests w) \<and> requests w ! i = r) \<and>
     (\<forall>i < length (remaining w). \<forall>b. remaining w ! i = Ret b \<longrightarrow> (i, requests w ! i, b) \<in> set h)"

lemma spec_answers_snoc:
  "spec_answers c m (rs @ [(i, r)]) = (case spec_answers c m rs of (m', as) \<Rightarrow>
     (fst (spec_answer c m' r), as @ [(snd (spec_answer c m' r), i)]))"
  by (induction rs arbitrary: m) (auto split: prod.splits)

lemma sequential_snoc:
  "sequential c m0 h m \<Longrightarrow> sequential c m0 (h @ [(i, r, snd (spec_answer c m r))]) (fst (spec_answer c m r))"
  by (simp add: sequential_def spec_answers_snoc)

text \<open>The simulation relation: requests in the history have taken effect, the others wait.\<close>

definition simulates :: "Cluster \<Rightarrow> (string \<rightharpoonup> RespValue) \<Rightarrow> Workers \<Rightarrow> history \<Rightarrow> bool" where
  "simulates c m0 w h \<longleftrightarrow> settled_state c (shared w) \<and> length (remaining w) = length (requests w) \<and> distinct (map fst h) \<and>
     sequential c m0 h (kv_map (kvstore (shared w))) \<and>
     (\<forall>(i, r, a)\<in>set h. i < length (requests w) \<and> requests w ! i = r \<and> answering c a (remaining w ! i)) \<and>
     (\<forall>i < length (requests w). i \<notin> fst ` set h \<longrightarrow> waiting c (requests w ! i) (remaining w ! i))"

lemma simulates_linearization:
  assumes "simulates c m0 w h"
  shows "linearization c m0 w h"
proof -
  have "(i, requests w ! i, b) \<in> set h" if "i < length (remaining w)" "remaining w ! i = Ret b" for i b
  proof (cases "i \<in> fst ` set h")
    case True
    then obtain r a where "(i, r, a) \<in> set h" by auto
    moreover from this have "requests w ! i = r" "answering c a (Ret b)" using assms that by (auto simp: simulates_def)
    ultimately show ?thesis by (auto elim: answeringE)
  next
    case False
    then have "waiting c (requests w ! i) (Ret b)" using assms that by (auto simp: simulates_def)
    then show ?thesis by (auto elim: waitingE)
  qed
  then show ?thesis using assms by (auto simp: simulates_def linearization_def)
qed

lemma simulates_arrive:
  assumes "simulates c m0 w h"
  shows "simulates c m0 (w\<lparr>requests := requests w @ [r], remaining := remaining w @ [handle_sections rand st now (request_of r) fd]\<rparr>) h"
  using assms waiting_data_request by (auto simp: simulates_def nth_append less_Suc_eq)

lemma simulates_update:
  assumes "simulates c m0 w h" "settled_state c s'" "kv_map (kvstore s') = kv_map (kvstore (shared w))"
    and "\<And>r a. (i, r, a) \<in> set h \<Longrightarrow> answering c a p" "i \<notin> fst ` set h \<Longrightarrow> waiting c (requests w ! i) p"
  shows "simulates c m0 (w\<lparr>shared := s', remaining := (remaining w)[i := p]\<rparr>) h"
proof -
  have n: "length (remaining w) = length (requests w)" using assms(1) by (simp add: simulates_def)
  have "j < length (requests w) \<and> requests w ! j = r \<and> answering c a ((remaining w)[i := p] ! j)" if "(j, r, a) \<in> set h" for j r a
    using assms(1) assms(4) [of r a] that n by (cases "j = i") (auto simp: simulates_def)
  moreover have "waiting c (requests w ! j) ((remaining w)[i := p] ! j)" if "j < length (requests w)" "j \<notin> fst ` set h" for j
    using assms(1,5) that n by (cases "j = i") (auto simp: simulates_def)
  ultimately show ?thesis using assms(1-3) by (auto simp: simulates_def)
qed

lemma simulates_effect:
  assumes "simulates c m0 w h" "settled_state c s'" "i < length (requests w)" "i \<notin> fst ` set h"
    and "kv_map (kvstore s') = fst (spec_answer c (kv_map (kvstore (shared w))) (requests w ! i))"
    and "answering c (snd (spec_answer c (kv_map (kvstore (shared w))) (requests w ! i))) p"
  shows "simulates c m0 (w\<lparr>shared := s', remaining := (remaining w)[i := p]\<rparr>)
    (h @ [(i, requests w ! i, snd (spec_answer c (kv_map (kvstore (shared w))) (requests w ! i)))])"
proof -
  have n: "length (remaining w) = length (requests w)" using assms(1) by (simp add: simulates_def)
  have "j < length (requests w) \<and> requests w ! j = r \<and> answering c a ((remaining w)[i := p] ! j)" if "(j, r, a) \<in> set h" for j r a
    using assms(1,4) that by (cases "j = i") (force simp: simulates_def)+
  moreover have "waiting c (requests w ! j) ((remaining w)[i := p] ! j)" if "j < length (requests w)" "j \<notin> fst ` set h" "j \<noteq> i" for j
    using assms(1) that by (auto simp: simulates_def)
  moreover have "sequential c m0 h (kv_map (kvstore (shared w)))" using assms(1) by (simp add: simulates_def)
  ultimately show ?thesis using assms n sequential_snoc [of c m0 h] by (auto simp: simulates_def simp del: spec_answer.simps)
qed

lemma simulates_advance:
  assumes "simulates c m0 w h" "i < length (remaining w)" "remaining w ! i = Sec u k"
  shows "\<exists>h'. simulates c m0 (w\<lparr>shared := u (shared w), remaining := (remaining w)[i := k (shared w)]\<rparr>) (h @ h')"
proof -
  let ?s = "shared w"
  have s: "settled_state c ?s" and n: "i < length (requests w)" using assms by (simp_all add: simulates_def)
  show ?thesis
  proof (cases "i \<in> fst ` set h")
    case True
    have "settled_state c (u ?s) \<and> kv_map (kvstore (u ?s)) = kv_map (kvstore ?s) \<and> answering c a (k ?s)" if "(i, r, a) \<in> set h" for r a
    proof -
      have "answering c a (Sec u k)" using assms that by (auto simp: simulates_def)
      then show ?thesis using s by (auto elim!: answeringE)
    qed
    then have "simulates c m0 (w\<lparr>shared := u ?s, remaining := (remaining w)[i := k ?s]\<rparr>) h"
      using True by (intro simulates_update [OF assms(1)]) auto
    then show ?thesis by (metis append_Nil2)
  next
    case False
    let ?m = "kv_map (kvstore ?s)" and ?r = "requests w ! i"
    have "waiting c ?r (Sec u k)" using assms False n by (auto simp: simulates_def)
    then consider "settled_state c (u ?s)" "kv_map (kvstore (u ?s)) = ?m" "waiting c ?r (k ?s)"
      | "settled_state c (u ?s)" "kv_map (kvstore (u ?s)) = fst (spec_answer c ?m ?r)" "answering c (snd (spec_answer c ?m ?r)) (k ?s)"
      using s by (auto elim!: waitingE)
    then show ?thesis
    proof cases
      case 1
      then have "simulates c m0 (w\<lparr>shared := u ?s, remaining := (remaining w)[i := k ?s]\<rparr>) h"
        using False by (intro simulates_update [OF assms(1)]) force+
      then show ?thesis by (metis append_Nil2)
    next
      case 2
      then show ?thesis using simulates_effect [OF assms(1) _ n False] by blast
    qed
  qed
qed

lemma simulates_run:
  assumes "work\<^sup>*\<^sup>* w w'" "simulates c m0 w h"
  shows "\<exists>h'. simulates c m0 w' (h @ h')"
  using assms
proof (induction rule: rtranclp_induct)
  case base
  then show ?case by (metis append_Nil2)
next
  case (step w1 w2)
  then obtain h1 where h1: "simulates c m0 w1 (h @ h1)" by blast
  from step(2) have "\<exists>h2. simulates c m0 w2 ((h @ h1) @ h2)"
  proof cases
    case (Arrive r rand st now fd)
    then show ?thesis using simulates_arrive [OF h1] by (metis append_Nil2)
  next
    case (Advance i u k)
    then show ?thesis using simulates_advance [OF h1] by blast
  qed
  then show ?case by (metis append.assoc)
qed

lemma simulates_start: "kv_ok (kvstore s) \<Longrightarrow> \<not> syncing s \<Longrightarrow> simulates (cluster s) (kv_map (kvstore s)) (no_requests s) []"
  by (simp add: simulates_def no_requests_def settled_state_def sequential_def)

section \<open>Two writers of one key\<close>

text \<open>A worker that advances alone by \<open>n\<close> sections.\<close>

primrec advance_by :: "nat \<Rightarrow> 'a prog \<Rightarrow> Server \<Rightarrow> 'a prog \<times> Server" where
  "advance_by 0 p s = (p, s)"
| "advance_by (Suc n) p s = (case p of Sec u k \<Rightarrow> advance_by n (k s) (u s) | _ \<Rightarrow> (p, s))"

lemma advance_works:
  assumes "advance_by n (remaining w ! i) (shared w) = (p, s)" "i < length (remaining w)"
  shows "work\<^sup>*\<^sup>* w (w\<lparr>shared := s, remaining := (remaining w)[i := p]\<rparr>)"
  using assms
proof (induction n arbitrary: w)
  case (Suc n)
  show ?case
  proof (cases "remaining w ! i")
    case (Sec u k)
    let ?w = "w\<lparr>shared := u (shared w), remaining := (remaining w)[i := k (shared w)]\<rparr>"
    have "work w ?w" using Sec Suc.prems(2) by (rule work.Advance [rotated])
    moreover have "work\<^sup>*\<^sup>* ?w (?w\<lparr>shared := s, remaining := (remaining ?w)[i := p]\<rparr>)"
      using Suc Sec by (intro Suc.IH) simp_all
    ultimately show ?thesis by (simp add: converse_rtranclp_into_rtranclp)
  qed (use Suc.prems in auto)
qed auto

text \<open>The five sections of a \<open>SET\<close> on the owner of the key, where the key has no Raft group: the last one stores.\<close>

lemma encode_three: "encode_slots [Some a, Some b, Some c] = Inr (encode (Array (Some [a, b, c])))"
  by (simp add: encode_slots_def del: encode_Array)

lemma set_logs:
  assumes "\<not> syncing s" "isMasterFor (cluster s) key = Inr True" "getGroupForKey key s = Inr None" "value_string v = Inr w"
  shows "advance_by 4 (handle_sections rand st now (request_of (Set key v)) fd) s =
    (bindP (set_section key v) (\<lambda>_. Ret (encode (SimpleString ''OK''))), s\<lparr>aof := aof_append_text st (encode (set_request (key, v))) (aof s)\<rparr>)"
  using assms
  by (simp add: handle_sections_def SET_sections_def request_elements_def liftE_def look_def lookE_def attempt_def
      propose_for_sections_def log_section_def aof_append_def set_request_def eval_nat_numeral
      encode_three del: encode_Array encode_SimpleString)

lemma set_stores:
  "kv_set (kvstore s) key v = Inr (kv, ev) \<Longrightarrow> advance_by (Suc 0) (bindP (set_section key v) (\<lambda>_. Ret a)) s = (Ret a, s\<lparr>kvstore := kv\<rparr>)"
  by (simp add: set_section_def attempt_def)

lemma work_trans: "work\<^sup>*\<^sup>* w1 w2 \<Longrightarrow> work\<^sup>*\<^sup>* w2 w3 \<Longrightarrow> work\<^sup>*\<^sup>* w1 w3"
  by (rule rtranclp_trans)

text \<open>Two workers that write one key: both log, in one order, and store, in the other.\<close>

lemma crossed_writes:
  assumes "kv_ok (kvstore s)" "\<not> syncing s" "\<And>s'. cluster s' = cluster s \<Longrightarrow> masterToGroup s' = masterToGroup s \<Longrightarrow>
      raft_groups s' = raft_groups s \<Longrightarrow> isMasterFor (cluster s') key = Inr True \<and> getGroupForKey key s' = Inr None"
    and "value_string v1 = Inr x1" "value_string v2 = Inr x2" "kv_set (kvstore s) key v2 = Inr (kv2, None)"
  shows "\<exists>w. work\<^sup>*\<^sup>* (no_requests s) w \<and> requests w = [Set key v1, Set key v2] \<and>
    remaining w = [Ret (encode (SimpleString ''OK'')), Ret (encode (SimpleString ''OK''))] \<and>
    kv_map (kvstore (shared w)) = (kv_map (kvstore s))(key \<mapsto> v1) \<and>
    log_text (aof (shared w)) = log_text (aof s) @ encode (set_request (key, v1)) @ encode (set_request (key, v2))"
proof -
  obtain kv1 ev where kv1: "kv_set kv2 key v1 = Inr (kv1, ev)" using kv_set_again [OF assms(1,6)] by blast
  let ?p = "\<lambda>v. handle_sections (\<lambda>_. 0) 0 0 (request_of (Set key v)) 9" and ?ok = "encode (SimpleString ''OK'')"
  let ?q = "\<lambda>v. bindP (set_section key v) (\<lambda>_. Ret ?ok)"
  define s1 where "s1 = s\<lparr>aof := aof_append_text 0 (encode (set_request (key, v1))) (aof s)\<rparr>"
  define s2 where "s2 = s1\<lparr>aof := aof_append_text 0 (encode (set_request (key, v2))) (aof s1)\<rparr>"
  let ?w = "\<lambda>t ps. \<lparr>shared = t, requests = [Set key v1, Set key v2], remaining = ps\<rparr>"
  have "work\<^sup>*\<^sup>* (no_requests s) (?w s [?p v1, ?p v2])"
  proof (rule rtranclp_trans [OF r_into_rtranclp r_into_rtranclp])
    show "work (no_requests s) \<lparr>shared = s, requests = [Set key v1], remaining = [?p v1]\<rparr>"
      using work.Arrive [where w = "no_requests s" and r = "Set key v1"] by (simp add: no_requests_def del: request_of.simps)
    show "work \<lparr>shared = s, requests = [Set key v1], remaining = [?p v1]\<rparr> (?w s [?p v1, ?p v2])"
      using work.Arrive [where w = "\<lparr>shared = s, requests = [Set key v1], remaining = [?p v1]\<rparr>" and r = "Set key v2"] by (simp del: request_of.simps)
  qed
  moreover have "work\<^sup>*\<^sup>* (?w s [?p v1, ?p v2]) (?w s1 [?q v1, ?p v2])"
    using advance_works [of 4 "?w s [?p v1, ?p v2]" 0 "?q v1" s1] set_logs [of s key v1 x1] assms(2-4) by (simp add: s1_def)
  moreover have "work\<^sup>*\<^sup>* (?w s1 [?q v1, ?p v2]) (?w s2 [?q v1, ?q v2])"
    using advance_works [of 4 "?w s1 [?q v1, ?p v2]" 1 "?q v2" s2] set_logs [of s1 key v2 x2] assms(2,3,5) by (simp add: s1_def s2_def)
  moreover have "work\<^sup>*\<^sup>* (?w s2 [?q v1, ?q v2]) (?w (s2\<lparr>kvstore := kv2\<rparr>) [?q v1, Ret ?ok])"
    using advance_works [of "Suc 0" "?w s2 [?q v1, ?q v2]" 1 "Ret ?ok" "s2\<lparr>kvstore := kv2\<rparr>"] set_stores [of s2 key v2 kv2 None ?ok] assms(6)
    by (simp add: s1_def s2_def del: advance_by.simps encode_SimpleString)
  moreover have "work\<^sup>*\<^sup>* (?w (s2\<lparr>kvstore := kv2\<rparr>) [?q v1, Ret ?ok]) (?w (s2\<lparr>kvstore := kv1\<rparr>) [Ret ?ok, Ret ?ok])"
    using advance_works [of "Suc 0" "?w (s2\<lparr>kvstore := kv2\<rparr>) [?q v1, Ret ?ok]" 0 "Ret ?ok" "s2\<lparr>kvstore := kv1\<rparr>"]
      set_stores [of "s2\<lparr>kvstore := kv2\<rparr>" key v1 kv1 ev ?ok] kv1
    by (simp del: advance_by.simps encode_SimpleString)
  ultimately have "work\<^sup>*\<^sup>* (no_requests s) (?w (s2\<lparr>kvstore := kv1\<rparr>) [Ret ?ok, Ret ?ok])" by (meson work_trans)
  moreover have "kv_map kv1 = (kv_map (kvstore s))(key \<mapsto> v1)"
    using kv_set_ok [OF assms(1,6)] kv_set_ok [OF _ kv1] by auto
  moreover have "log_text (aof s2) = log_text (aof s) @ encode (set_request (key, v1)) @ encode (set_request (key, v2))"
    by (simp add: s1_def s2_def)
  ultimately show ?thesis by (intro exI [of _ "?w (s2\<lparr>kvstore := kv1\<rparr>) [Ret ?ok, Ret ?ok]"]) simp
qed

lemma lone_group: "cluster s' = cluster lone_server \<Longrightarrow> masterToGroup s' = masterToGroup lone_server \<Longrightarrow>
    isMasterFor (cluster s') key = Inr True \<and> getGroupForKey key s' = Inr None"
  by (simp add: getGroupForKey_def lone_server_owns)

lemma lone_crossed_writes:
  "\<exists>w. work\<^sup>*\<^sup>* (no_requests lone_server) w \<and> requests w = [Set key (SimpleString a), Set key (SimpleString b)] \<and>
    remaining w = [Ret (encode (SimpleString ''OK'')), Ret (encode (SimpleString ''OK''))] \<and>
    kv_map (kvstore (shared w)) = [key \<mapsto> SimpleString a] \<and>
    log_text (aof (shared w)) = encode (set_request (key, SimpleString a)) @ encode (set_request (key, SimpleString b))"
proof -
  obtain kv where kv: "kv_set (kvstore lone_server) key (SimpleString b) = Inr (kv, None)"
    using new_store_kv_set [of key "SimpleString b"] by auto
  have ok: "kv_ok (kvstore lone_server)" using lone_server_clean by (simp add: clean_store_def)
  have "value_string (SimpleString x) = Inr x" for x by (simp add: value_string_def)
  from crossed_writes [OF ok _ _ this [of a] this kv] lone_group show ?thesis
    by (simp add: log_text_def new_KVStore_empty SHARD_COUNT_def)
qed

section \<open>Properties\<close>

text \<open>C3. The data commands are linearizable: however many \<open>GET\<close>, \<open>EXIST\<close> and \<open>SET\<close> requests the workers handle at
  the same time and however their critical sections interleave, there is a sequential order of the
  requests in which every answer given is the answer of the map specification, byte for byte, and which
  leads to the content of the store.  The order only grows at its end: what was answered before another
  request arrived comes before it.\<close>

theorem data_commands_linearizable:
  assumes "kv_ok (kvstore s)" "\<not> syncing s" "work\<^sup>*\<^sup>* (no_requests s) w1" "work\<^sup>*\<^sup>* w1 w2"
  shows "\<exists>h h'. linearization (cluster s) (kv_map (kvstore s)) w1 h \<and> linearization (cluster s) (kv_map (kvstore s)) w2 (h @ h')"
proof -
  obtain h where h: "simulates (cluster s) (kv_map (kvstore s)) w1 h"
    using simulates_run [OF assms(3) simulates_start [OF assms(1,2)]] by auto
  then obtain h' where "simulates (cluster s) (kv_map (kvstore s)) w2 (h @ h')" using simulates_run [OF assms(4)] by blast
  with h show ?thesis using simulates_linearization by blast
qed

theorem data_commands_linearizable_witness:
  "\<exists>w h h'. remaining w = [Ret (encode (SimpleString ''OK'')), Ret (encode (SimpleString ''OK''))] \<and>
     requests w = [Set ''k'' (SimpleString ''a''), Set ''k'' (SimpleString ''b'')] \<and>
     kv_map (kvstore (shared w)) = [''k'' \<mapsto> SimpleString ''a''] \<and>
     linearization (cluster lone_server) (kv_map (kvstore lone_server)) (no_requests lone_server) h \<and>
     linearization (cluster lone_server) (kv_map (kvstore lone_server)) w (h @ h')"
proof -
  have ok: "kv_ok (kvstore lone_server)" using lone_server_clean by (simp add: clean_store_def)
  obtain w where w: "work\<^sup>*\<^sup>* (no_requests lone_server) w" "requests w = [Set ''k'' (SimpleString ''a''), Set ''k'' (SimpleString ''b'')]"
      "remaining w = [Ret (encode (SimpleString ''OK'')), Ret (encode (SimpleString ''OK''))]" "kv_map (kvstore (shared w)) = [''k'' \<mapsto> SimpleString ''a'']"
    using lone_crossed_writes by blast
  from data_commands_linearizable [OF ok _ rtranclp.rtrancl_refl w(1)] w(2-4) show ?thesis by auto
qed

end
