(* ===== verification/Snapshot_Thread.thy ===== *)
theory Snapshot_Thread
  imports Server_Protocol
begin

text \<open>
  \<open>Server::snapshotLoop\<close> with its processes.  The thread of the server forks a child, which has the store
  of that moment, clears the snapshot directory, writes one file per shard and leaves; the parent waits
  for it and then cuts the log.  An exception of the child is caught by the handler around \<open>fork\<close>: the child
  then goes on with the loop as if it were the server, with its own copies of the store and of \<open>running\<close>.

  Process 0 is the thread of the server, whose store is the live one.  The directory and the log file are
  shared by all processes.  A fork happens between two critical sections of the other threads: what the
  child sees when a worker is in the middle of a shard is not described.  The sleep is a point where the scheduler may leave a process for any time.
\<close>

section \<open>Processes\<close>

datatype snap_phase = Asleep | Clearing | Writing nat | Awaiting nat | Truncating | Gone

record Snapshotter =
  image :: "RespValue KVStore option"
  phase :: snap_phase
  keep_running :: bool

record Snapshots =
  procs :: "Snapshotter list"
  snap_dir :: directory

text \<open>What a step of a process does.  \<open>Clear_Throws\<close> names the files that were removed before the exception,
  \<open>Throws\<close> is a shard file that cannot be opened or a log file that cannot be resized, \<open>Wait_Fails\<close> is
  \<open>waitpid\<close> returning -1.\<close>

datatype snap_event = Fork | Fork_Fails | Leave | Clear | Clear_Throws "string list" | Write | Exit | Reap | Wait_Fails
  | Truncate | Throws

definition visible_store :: "Server \<Rightarrow> Snapshotter \<Rightarrow> RespValue KVStore" where
  "visible_store s p = (case image p of None \<Rightarrow> kvstore s | Some kv \<Rightarrow> kv)"

definition goto :: "nat \<Rightarrow> snap_phase \<Rightarrow> Snapshots \<Rightarrow> Snapshots" where
  "goto i ph sn = sn\<lparr>procs := (procs sn)[i := (procs sn ! i)\<lparr>phase := ph\<rparr>]\<rparr>"

text \<open>\<open>fork\<close>: the child has a copy of what the parent sees and returns from the call with 0.\<close>

definition fork_child :: "nat \<Rightarrow> Server \<Rightarrow> Snapshots \<Rightarrow> Snapshots" where
  "fork_child i s sn = (let p = procs sn ! i; sn' = goto i (Awaiting (length (procs sn))) sn in
     sn'\<lparr>procs := procs sn' @ [\<lparr>image = Some (visible_store s p), phase = Clearing, keep_running = keep_running p\<rparr>]\<rparr>)"

definition write_shard :: "RespValue KVStore \<Rightarrow> nat \<Rightarrow> directory \<Rightarrow> directory" where
  "write_shard kv n d = d(shard_file n \<mapsto> snapshot_bytes (data (shards kv ! n)))"

definition snap_step :: "nat \<Rightarrow> snap_event \<Rightarrow> Server \<Rightarrow> Snapshots \<Rightarrow> (Server \<times> Snapshots) option" where
  "snap_step i e s sn =
     (if i \<ge> length (procs sn) then None
      else let p = procs sn ! i; kv = visible_store s p in
        case phase p of
          Asleep \<Rightarrow> (case e of
              Fork \<Rightarrow> if keep_running p then Some (s, fork_child i s sn) else None
            | Fork_Fails \<Rightarrow> if keep_running p then Some (s, goto i Truncating sn) else None
            | Leave \<Rightarrow> if keep_running p then None else Some (s, goto i Gone sn)
            | _ \<Rightarrow> None)
        | Clearing \<Rightarrow> (case e of
              Clear \<Rightarrow> Some (s, (goto i (Writing 0) sn)\<lparr>snap_dir := Map.empty\<rparr>)
            | Clear_Throws removed \<Rightarrow> Some (s, (goto i Asleep sn)\<lparr>snap_dir := snap_dir sn |` (- set removed)\<rparr>)
            | _ \<Rightarrow> None)
        | Writing n \<Rightarrow> (case e of
              Write \<Rightarrow> if n < shardCount kv then Some (s, (goto i (Writing (Suc n)) sn)\<lparr>snap_dir := write_shard kv n (snap_dir sn)\<rparr>) else None
            | Throws \<Rightarrow> if n < shardCount kv then Some (s, goto i Asleep sn) else None
            | Exit \<Rightarrow> if n \<ge> shardCount kv then Some (s, goto i Gone sn) else None
            | _ \<Rightarrow> None)
        | Awaiting j \<Rightarrow> (case e of
              Reap \<Rightarrow> if phase (procs sn ! j) = Gone then Some (s, goto i Truncating sn) else None
            | Wait_Fails \<Rightarrow> Some (s, goto i Truncating sn)
            | _ \<Rightarrow> None)
        | Truncating \<Rightarrow> (case e of
              Truncate \<Rightarrow> Some (snapshot_truncate s, goto i Asleep sn)
            | Throws \<Rightarrow> Some (s, goto i Asleep sn)
            | _ \<Rightarrow> None)
        | Gone \<Rightarrow> None)"

text \<open>The thread starts when \<open>Server::run\<close> does; \<open>running = false\<close> is seen by process 0 only.\<close>

definition new_Snapshots :: "directory \<Rightarrow> Snapshots" where
  "new_Snapshots dir = \<lparr>procs = [\<lparr>image = None, phase = Asleep, keep_running = True\<rparr>], snap_dir = dir\<rparr>"

definition stop_running :: "Snapshots \<Rightarrow> Snapshots" where
  "stop_running sn = sn\<lparr>procs := (procs sn)[0 := (procs sn ! 0)\<lparr>keep_running := False\<rparr>]\<rparr>"

text \<open>\<open>~Server\<close> can return: \<open>snapshot_thread.join()\<close> does.\<close>

definition thread_joined :: "Snapshots \<Rightarrow> bool" where
  "thread_joined sn \<longleftrightarrow> phase (procs sn ! 0) = Gone"

fun snap_run :: "(nat \<times> snap_event) list \<Rightarrow> Server \<Rightarrow> Snapshots \<Rightarrow> (Server \<times> Snapshots) option" where
  "snap_run [] s sn = Some (s, sn)"
| "snap_run ((i, e) # es) s sn = (case snap_step i e s sn of None \<Rightarrow> None | Some (s', sn') \<Rightarrow> snap_run es s' sn')"

text \<open>All processes together with the other threads of the server, which may do anything to it; \<open>allowed\<close>
  restricts what can happen to the processes.\<close>

inductive snap_reach :: "(snap_event \<Rightarrow> bool) \<Rightarrow> Server \<times> Snapshots \<Rightarrow> Server \<times> Snapshots \<Rightarrow> bool" for allowed w where
  Start: "snap_reach allowed w w"
| Own: "snap_reach allowed w (s, sn) \<Longrightarrow> allowed e \<Longrightarrow> snap_step i e s sn = Some w' \<Longrightarrow> snap_reach allowed w w'"
| Others: "snap_reach allowed w (s, sn) \<Longrightarrow> snap_reach allowed w (s', sn)"
| Stop: "snap_reach allowed w (s, sn) \<Longrightarrow> snap_reach allowed w (s, stop_running sn)"

section \<open>Steps\<close>

lemma goto_simps [simp]: "length (procs (goto i ph sn)) = length (procs sn)" "snap_dir (goto i ph sn) = snap_dir sn"
  "k < length (procs sn) \<Longrightarrow> procs (goto i ph sn) ! k = (if k = i then (procs sn ! k)\<lparr>phase := ph\<rparr> else procs sn ! k)"
  by (simp_all add: goto_def nth_list_update)

lemma fork_child_simps [simp]: "length (procs (fork_child i s sn)) = Suc (length (procs sn))" "snap_dir (fork_child i s sn) = snap_dir sn"
  "k < length (procs sn) \<Longrightarrow> procs (fork_child i s sn) ! k =
     (if k = i then (procs sn ! k)\<lparr>phase := Awaiting (length (procs sn))\<rparr> else procs sn ! k)"
  "procs (fork_child i s sn) ! length (procs sn) =
     \<lparr>image = Some (visible_store s (procs sn ! i)), phase = Clearing, keep_running = keep_running (procs sn ! i)\<rparr>"
  by (simp_all add: fork_child_def Let_def nth_append goto_def nth_list_update)

lemma stop_running_simps [simp]: "length (procs (stop_running sn)) = length (procs sn)" "snap_dir (stop_running sn) = snap_dir sn"
  "k < length (procs sn) \<Longrightarrow> procs (stop_running sn) ! k = (if k = 0 then (procs sn ! k)\<lparr>keep_running := False\<rparr> else procs sn ! k)"
  by (auto simp: stop_running_def nth_list_update)

lemma procs_not_Nil [simp]: "procs (goto i ph sn) = [] \<longleftrightarrow> procs sn = []" "procs (fork_child i s sn) \<noteq> []"
    "procs (stop_running sn) = [] \<longleftrightarrow> procs sn = []"
  by (simp_all add: goto_def fork_child_def stop_running_def Let_def)

lemma snap_run_append: "snap_run (es @ es') s sn = (case snap_run es s sn of None \<Rightarrow> None | Some (s', sn') \<Rightarrow> snap_run es' s' sn')"
  by (induction es s sn rule: snap_run.induct) (auto split: option.split)

text \<open>The ways a step can go, with what it needs.\<close>

lemma snap_stepE:
  assumes "snap_step i e s sn = Some (s', sn')"
  obtains
    (Fork) "i < length (procs sn)" "phase (procs sn ! i) = Asleep" "e = Fork" "keep_running (procs sn ! i)" "s' = s" "sn' = fork_child i s sn"
  | (Fork_Fails) "i < length (procs sn)" "phase (procs sn ! i) = Asleep" "e = Fork_Fails" "keep_running (procs sn ! i)" "s' = s" "sn' = goto i Truncating sn"
  | (Leave) "i < length (procs sn)" "phase (procs sn ! i) = Asleep" "e = Leave" "\<not> keep_running (procs sn ! i)" "s' = s" "sn' = goto i Gone sn"
  | (Clear) "i < length (procs sn)" "phase (procs sn ! i) = Clearing" "e = Clear" "s' = s" "sn' = (goto i (Writing 0) sn)\<lparr>snap_dir := Map.empty\<rparr>"
  | (Clear_Throws) removed where "i < length (procs sn)" "phase (procs sn ! i) = Clearing" "e = Clear_Throws removed" "s' = s"
      "sn' = (goto i Asleep sn)\<lparr>snap_dir := snap_dir sn |` (- set removed)\<rparr>"
  | (Write) n where "i < length (procs sn)" "phase (procs sn ! i) = Writing n" "e = Write" "n < shardCount (visible_store s (procs sn ! i))" "s' = s"
      "sn' = (goto i (Writing (Suc n)) sn)\<lparr>snap_dir := write_shard (visible_store s (procs sn ! i)) n (snap_dir sn)\<rparr>"
  | (Write_Throws) n where "i < length (procs sn)" "phase (procs sn ! i) = Writing n" "e = Throws" "s' = s" "sn' = goto i Asleep sn"
  | (Exit) n where "i < length (procs sn)" "phase (procs sn ! i) = Writing n" "e = Exit" "n \<ge> shardCount (visible_store s (procs sn ! i))" "s' = s"
      "sn' = goto i Gone sn"
  | (Reap) j where "i < length (procs sn)" "phase (procs sn ! i) = Awaiting j" "e = Reap" "phase (procs sn ! j) = Gone" "s' = s" "sn' = goto i Truncating sn"
  | (Wait_Fails) j where "i < length (procs sn)" "phase (procs sn ! i) = Awaiting j" "e = Wait_Fails" "s' = s" "sn' = goto i Truncating sn"
  | (Truncate) "i < length (procs sn)" "phase (procs sn ! i) = Truncating" "e = Truncate" "s' = snapshot_truncate s" "sn' = goto i Asleep sn"
  | (Truncate_Throws) "i < length (procs sn)" "phase (procs sn ! i) = Truncating" "e = Throws" "s' = s" "sn' = goto i Asleep sn"
  using assms by (auto simp: snap_step_def Let_def split: if_splits snap_phase.splits snap_event.splits)

lemma snap_run_snoc:
  "snap_run (es @ [(i, e)]) s sn = Some w' \<Longrightarrow> \<exists>s1 sn1. snap_run es s sn = Some (s1, sn1) \<and> snap_step i e s1 sn1 = Some w'"
  by (auto simp: snap_run_append split: option.splits)

lemma snap_run_reach:
  "snap_run es s sn = Some w' \<Longrightarrow> snap_reach allowed w (s, sn) \<Longrightarrow> \<forall>e\<in>snd ` set es. allowed e \<Longrightarrow> snap_reach allowed w w'"
proof (induction es s sn rule: snap_run.induct)
  case (2 i e es s sn)
  then obtain s1 sn1 where "snap_step i e s sn = Some (s1, sn1)" "snap_run es s1 sn1 = Some w'" by (auto split: option.splits)
  note step = this
  have "snap_reach allowed w (s1, sn1)" using step(1) 2(3,4) by (intro snap_reach.Own [OF 2(3) _ step(1)]) simp
  then show ?case using 2(1) [OF step(1) refl step(2)] 2(4) by simp
qed simp

section \<open>Rounds without a failure\<close>

definition smooth :: "snap_event \<Rightarrow> bool" where
  "smooth e \<longleftrightarrow> e \<in> {Fork, Leave, Clear, Write, Exit, Reap, Truncate}"

definition written :: "RespValue KVStore \<Rightarrow> nat \<Rightarrow> directory" where
  "written kv n = foldl (\<lambda>d i. write_shard kv i d) Map.empty [0..<n]"

lemma written_Suc [simp]: "written kv 0 = Map.empty" "written kv (Suc n) = write_shard kv n (written kv n)"
  by (simp_all add: written_def)

lemma written_all: "kv_writetofileFork (\<lambda>_. True) kv = Inr (written kv (shardCount kv))"
  by (simp add: kv_writetofileFork_def write_shards_def ht_writetofile_def foldE_pure written_def write_shard_def)

text \<open>How far the child is that process 0 waits for.\<close>

definition child_progress :: "Snapshotter \<Rightarrow> directory \<Rightarrow> bool" where
  "child_progress c dir \<longleftrightarrow> (\<exists>kv. image c = Some kv \<and> (case phase c of
     Clearing \<Rightarrow> True
   | Writing n \<Rightarrow> n \<le> shardCount kv \<and> dir = written kv n
   | Gone \<Rightarrow> dir = written kv (shardCount kv)
   | _ \<Rightarrow> False))"

definition one_child :: "Snapshots \<Rightarrow> bool" where
  "one_child sn \<longleftrightarrow> procs sn \<noteq> [] \<and> image (procs sn ! 0) = None \<and>
     (\<forall>k. 0 < k \<and> k < length (procs sn) \<and> phase (procs sn ! 0) \<noteq> Awaiting k \<longrightarrow> phase (procs sn ! k) = Gone) \<and>
     (case phase (procs sn ! 0) of
        Awaiting j \<Rightarrow> 0 < j \<and> Suc j = length (procs sn) \<and> child_progress (procs sn ! j) (snap_dir sn)
      | Truncating \<Rightarrow> (\<exists>j. Suc j = length (procs sn) \<and> 0 < j \<and> phase (procs sn ! j) = Gone \<and> child_progress (procs sn ! j) (snap_dir sn))
      | ph \<Rightarrow> ph \<in> {Asleep, Gone})"

lemma one_child_mover:
  assumes "one_child sn" "i < length (procs sn)" "phase (procs sn ! i) \<noteq> Gone"
  shows "i = 0 \<or> phase (procs sn ! 0) = Awaiting i \<and> 0 < i \<and> Suc i = length (procs sn) \<and> child_progress (procs sn ! i) (snap_dir sn)"
  using assms by (fastforce simp: one_child_def split: snap_phase.splits)

lemma one_child_step:
  assumes "one_child sn" "snap_step i e s sn = Some (s', sn')" "smooth e"
  shows "one_child sn'"
  using assms(2)
proof (cases rule: snap_stepE)
  case Fork
  then show ?thesis using assms(1) one_child_mover [OF assms(1), of i]
    by (auto simp: one_child_def child_progress_def less_Suc_eq)
qed (use assms(1,3) one_child_mover [OF assms(1), of i] in
    \<open>auto simp: one_child_def child_progress_def smooth_def visible_store_def split: snap_phase.splits\<close>)

lemma one_child_stop: "one_child sn \<Longrightarrow> one_child (stop_running sn)"
  by (auto simp: one_child_def split: snap_phase.splits)

lemma smooth_reach: "snap_reach smooth w w' \<Longrightarrow> one_child (snd w) \<Longrightarrow> one_child (snd w')"
  by (induction rule: snap_reach.induct) (auto intro: one_child_step one_child_stop)

lemma one_child_new: "one_child (new_Snapshots dir)"
  by (auto simp: one_child_def new_Snapshots_def)

lemma restart_empty_log:
  assumes "clean_store kv" "kv_writetofileFork (\<lambda>_. True) kv = Inr dir"
  shows "\<exists>t. new_Server True dir [] st uuid addr p logs = Inr t \<and> kv_map (kvstore t) = kv_map kv"
proof -
  obtain s where s: "new_Server True dir [] st uuid addr p logs = recover s" "aof_file (aof s) = []" "kv_map (kvstore s) = kv_map kv"
    using new_Server_eq [OF assms] by blast
  moreover have "recover s = Inr s" using recover_eq [of s new_RespParser] s(2) by simp
  ultimately show ?thesis by auto
qed

section \<open>After a failure\<close>

text \<open>A child that has thrown is in the loop for ever: its copy of \<open>running\<close> stays true.\<close>

definition stuck :: "nat \<Rightarrow> Snapshots \<Rightarrow> bool" where
  "stuck j sn \<longleftrightarrow> 0 < j \<and> j < length (procs sn) \<and> phase (procs sn ! 0) = Awaiting j \<and> keep_running (procs sn ! j) \<and>
     (phase (procs sn ! j) \<in> {Asleep, Truncating} \<or> (\<exists>k. phase (procs sn ! j) = Awaiting k))"

lemma stuck_step:
  assumes "stuck j sn" "snap_step i e s sn = Some (s', sn')" "e \<noteq> Wait_Fails"
  shows "stuck j sn'"
proof -
  have "0 < length (procs sn)" using assms(1) by (auto simp: stuck_def)
  have "i \<noteq> 0"
  proof
    assume "i = 0"
    with assms(2,1,3) show False by (cases rule: snap_stepE) (auto simp: stuck_def)
  qed
  from assms(2) show ?thesis
    by (cases rule: snap_stepE) (use assms(1,3) \<open>i \<noteq> 0\<close> \<open>0 < length (procs sn)\<close> in \<open>auto simp: stuck_def less_Suc_eq\<close>)
qed

lemma stuck_reach: "snap_reach (\<lambda>e. e \<noteq> Wait_Fails) w w' \<Longrightarrow> stuck j (snd w) \<Longrightarrow> stuck j (snd w')"
proof (induction rule: snap_reach.induct)
  case (Stop s sn)
  then have "0 < length (procs sn)" by (auto simp: stuck_def)
  with Stop show ?case by (auto simp: stuck_def)
qed (auto intro: stuck_step)

text \<open>A round of process \<open>i\<close> that goes well.\<close>

definition snap_round :: "nat \<Rightarrow> nat \<Rightarrow> nat \<Rightarrow> (nat \<times> snap_event) list" where
  "snap_round i k n = [(i, Fork), (k, Clear)] @ replicate n (k, Write) @ [(k, Exit), (i, Reap), (i, Truncate)]"

lemma run_writes:
  assumes "k < length (procs sn)" "image (procs sn ! k) = Some kv" "phase (procs sn ! k) = Writing m" "snap_dir sn = written kv m"
    and "m + n = shardCount kv"
  shows "\<exists>sn'. snap_run (replicate n (k, Write)) s sn = Some (s, sn') \<and> snap_dir sn' = written kv (shardCount kv) \<and>
    length (procs sn') = length (procs sn) \<and> image (procs sn' ! k) = Some kv \<and> phase (procs sn' ! k) = Writing (shardCount kv) \<and>
    (\<forall>l. l \<noteq> k \<and> l < length (procs sn) \<longrightarrow> procs sn' ! l = procs sn ! l)"
  using assms
proof (induction n arbitrary: sn m)
  case (Suc n)
  let ?sn = "(goto k (Writing (Suc m)) sn)\<lparr>snap_dir := write_shard kv m (snap_dir sn)\<rparr>"
  have "snap_step k Write s sn = Some (s, ?sn)" using Suc.prems by (simp add: snap_step_def visible_store_def)
  moreover have "\<exists>sn'. snap_run (replicate n (k, Write)) s ?sn = Some (s, sn') \<and> snap_dir sn' = written kv (shardCount kv) \<and>
    length (procs sn') = length (procs ?sn) \<and> image (procs sn' ! k) = Some kv \<and> phase (procs sn' ! k) = Writing (shardCount kv) \<and>
    (\<forall>l. l \<noteq> k \<and> l < length (procs ?sn) \<longrightarrow> procs sn' ! l = procs ?sn ! l)"
    by (rule Suc.IH [where m = "Suc m"]) (use Suc.prems in simp_all)
  ultimately show ?case by auto
qed simp

lemma run_round:
  assumes "i < length (procs sn)" "phase (procs sn ! i) = Asleep" "keep_running (procs sn ! i)" "kv = visible_store s (procs sn ! i)"
  shows "\<exists>sn'. snap_run (snap_round i (length (procs sn)) (shardCount kv)) s sn = Some (snapshot_truncate s, sn') \<and>
    snap_dir sn' = written kv (shardCount kv)"
proof -
  let ?k = "length (procs sn)"
  let ?sn = "(goto ?k (Writing 0) (fork_child i s sn))\<lparr>snap_dir := Map.empty\<rparr>"
  have start: "snap_run [(i, Fork), (?k, Clear)] s sn = Some (s, ?sn)" using assms by (simp add: snap_step_def)
  obtain sn1 where sn1: "snap_run (replicate (shardCount kv) (?k, Write)) s ?sn = Some (s, sn1)" "snap_dir sn1 = written kv (shardCount kv)"
      "length (procs sn1) = Suc ?k" "image (procs sn1 ! ?k) = Some kv" "phase (procs sn1 ! ?k) = Writing (shardCount kv)"
      "procs sn1 ! i = procs ?sn ! i"
    using run_writes [of ?k ?sn kv 0 "shardCount kv" s] assms(1,4) by auto
  have "phase (procs sn1 ! i) = Awaiting ?k" using sn1(6) assms(1) by simp
  then have "snap_run [(?k, Exit), (i, Reap), (i, Truncate)] s sn1 =
      Some (snapshot_truncate s, goto i Asleep (goto i Truncating (goto ?k Gone sn1)))"
    using sn1(3-5) assms(1) by (simp add: snap_step_def visible_store_def)
  then show ?thesis unfolding snap_round_def snap_run_append start using sn1(1,2) by simp
qed

section \<open>Properties\<close>

text \<open>C13. The log is cut only behind a complete snapshot: as long as fork, the file operations and \<open>waitpid\<close>
  succeed, whatever the other threads do and whenever the server is told to stop, every process but the
  thread of the server and its last child has left, and when a process cuts the log the directory holds
  every shard of the store that the last child got at the fork; a restart restores exactly that store.\<close>

theorem log_cut_behind_snapshot:
  assumes "snap_reach smooth (s0, new_Snapshots dir0) (s, sn)" "snap_step i Truncate s sn = Some (s', sn')"
  shows "i = 0 \<and> (\<forall>k. 0 < k \<and> k < length (procs sn') \<longrightarrow> phase (procs sn' ! k) = Gone) \<and>
    (\<exists>kv. image (last (procs sn')) = Some kv \<and> kv_writetofileFork (\<lambda>_. True) kv = Inr (snap_dir sn') \<and>
      (clean_store kv \<longrightarrow> (\<exists>t. new_Server True (snap_dir sn') (aof_file (aof s')) st uuid addr p logs = Inr t \<and> kv_map (kvstore t) = kv_map kv)))"
proof -
  have ok: "one_child sn" using smooth_reach [OF assms(1)] one_child_new by simp
  have tr: "i < length (procs sn)" "phase (procs sn ! i) = Truncating" "s' = snapshot_truncate s" "sn' = goto i Asleep sn"
    using assms(2) by (cases rule: snap_stepE; simp)+
  then have i: "i = 0" using one_child_mover [OF ok tr(1)] by (auto simp: child_progress_def)
  then obtain j kv where j: "Suc j = length (procs sn)" "0 < j" "image (procs sn ! j) = Some kv" "snap_dir sn = written kv (shardCount kv)"
    using ok tr(2) by (auto simp: one_child_def child_progress_def)
  have "procs sn \<noteq> []" using j(1) by auto
  then have "last (procs sn') = procs sn' ! j" using j(1) tr(4) by (simp add: last_conv_nth flip: j(1))
  then have "last (procs sn') = procs sn ! j" using j(1,2) tr(4) i by simp
  moreover have "phase (procs sn' ! k) = Gone" if "0 < k" "k < length (procs sn')" for k
    using that ok tr(2,4) i by (auto simp: one_child_def)
  moreover have "aof_file (aof s') = []" "snap_dir sn' = snap_dir sn" using tr(3,4) by (simp_all add: snapshot_truncate_def)
  ultimately show ?thesis using i j(3,4) restart_empty_log [OF _ written_all] by (auto simp: written_all)
qed

theorem log_cut_behind_snapshot_witness:
  "\<exists>sn kv. snap_run (snap_round 0 1 SHARD_COUNT) lone_server (new_Snapshots Map.empty) = Some (snapshot_truncate lone_server, sn) \<and>
     image (last (procs sn)) = Some kv \<and> kv_writetofileFork (\<lambda>_. True) kv = Inr (snap_dir sn)"
proof -
  let ?sn0 = "new_Snapshots Map.empty" and ?es = "[(0, Fork), (1, Clear)] @ replicate SHARD_COUNT (1, Write) @ [(1, Exit), (0, Reap)]"
  obtain sn' where run: "snap_run (snap_round 0 1 SHARD_COUNT) lone_server ?sn0 = Some (snapshot_truncate lone_server, sn')"
    using run_round [of 0 ?sn0 "kvstore lone_server" lone_server] lone_server_clean
    by (auto simp: new_Snapshots_def visible_store_def clean_store_def simp del: lone_server_fields)
  moreover have "snap_round 0 1 SHARD_COUNT = ?es @ [(0, Truncate)]" by (simp add: snap_round_def)
  ultimately obtain s sn where w: "snap_run ?es lone_server ?sn0 = Some (s, sn)" "snap_step 0 Truncate s sn = Some (snapshot_truncate lone_server, sn')"
    using snap_run_snoc [of ?es 0 Truncate lone_server ?sn0] by metis
  have "snap_reach smooth (lone_server, ?sn0) (s, sn)"
    by (rule snap_run_reach [OF w(1) snap_reach.Start]) (auto simp: smooth_def)
  then show ?thesis using log_cut_behind_snapshot [OF _ w(2)] run by blast
qed

text \<open>A child that fails blocks the shutdown: once an exception in a child of the server has been caught in the
  child, the thread of the server waits for that child for ever, whatever all threads and processes do,
  and the destructor of the server never returns.\<close>

theorem failed_snapshot_blocks_shutdown:
  assumes "phase (procs sn ! 0) = Awaiting j" "0 < j" "keep_running (procs sn ! j)"
    and "snap_step j e s sn = Some (s1, sn1)" "e = Throws \<or> (\<exists>removed. e = Clear_Throws removed)"
    and "snap_reach (\<lambda>e. e \<noteq> Wait_Fails) (s1, sn1) (s2, sn2)"
  shows "phase (procs sn2 ! 0) = Awaiting j \<and> \<not> thread_joined sn2"
proof -
  have "0 < length (procs sn)" using assms(4) by (auto simp: snap_step_def split: if_splits)
  with assms(4) have "stuck j sn1" by (cases rule: snap_stepE) (use assms(1,2,3,5) in \<open>auto simp: stuck_def\<close>)
  then have "stuck j sn2" using stuck_reach [OF assms(6)] by simp
  then show ?thesis by (simp add: stuck_def thread_joined_def)
qed

theorem failed_snapshot_blocks_shutdown_witness:
  "\<exists>sn. snap_run [(0, Fork), (1, Clear_Throws [])] lone_server (new_Snapshots Map.empty) = Some (lone_server, sn) \<and>
     phase (procs (stop_running sn) ! 0) = Awaiting 1 \<and> \<not> thread_joined (stop_running sn)"
proof -
  let ?sn = "fork_child 0 lone_server (new_Snapshots Map.empty)"
  obtain sn where sn: "snap_step 1 (Clear_Throws []) lone_server ?sn = Some (lone_server, sn)"
    by (simp add: snap_step_def fork_child_def goto_def new_Snapshots_def)
  have "snap_run [(0, Fork), (1, Clear_Throws [])] lone_server (new_Snapshots Map.empty) = Some (lone_server, sn)"
    using sn by (simp add: snap_step_def [of 0] new_Snapshots_def)
  moreover have "phase (procs (stop_running sn) ! 0) = Awaiting 1 \<and> \<not> thread_joined (stop_running sn)"
    by (rule failed_snapshot_blocks_shutdown [OF _ _ _ sn _ snap_reach.Stop [OF snap_reach.Start]])
      (simp_all add: fork_child_def goto_def new_Snapshots_def Let_def)
  ultimately show ?thesis by blast
qed

text \<open>A child that fails destroys later writes: if the child of the first round throws while it writes, then
  whatever state the server reaches afterwards, the child can run a round of its own that cuts the log of
  the server and leaves a snapshot of the store as it was at the first fork, which is what a restart finds.\<close>

theorem failed_snapshot_erases_log:
  assumes "clean_store (kvstore s)"
  shows "\<exists>sn. snap_run [(0, Fork), (1, Clear), (1, Throws)] s (new_Snapshots dir) = Some (s, sn) \<and>
    (\<exists>sn'. snap_run (snap_round 1 2 SHARD_COUNT) s1 sn = Some (snapshot_truncate s1, sn') \<and>
      (\<exists>t. new_Server True (snap_dir sn') (aof_file (aof (snapshot_truncate s1))) st uuid addr p logs = Inr t \<and>
        kv_map (kvstore t) = kv_map (kvstore s)))"
proof -
  have n: "shardCount (kvstore s) = SHARD_COUNT" using assms by (simp add: clean_store_def)
  obtain sn where sn: "snap_run [(0, Fork), (1, Clear), (1, Throws)] s (new_Snapshots dir) = Some (s, sn)"
      "length (procs sn) = 2" "procs sn ! 1 = \<lparr>image = Some (kvstore s), phase = Asleep, keep_running = True\<rparr>"
    using n by (simp add: snap_step_def new_Snapshots_def fork_child_def goto_def visible_store_def SHARD_COUNT_def)
  have "\<exists>sn'. snap_run (snap_round 1 (length (procs sn)) (shardCount (kvstore s))) s1 sn = Some (snapshot_truncate s1, sn') \<and>
      snap_dir sn' = written (kvstore s) (shardCount (kvstore s))"
    by (rule run_round) (use sn(2,3) in \<open>simp_all add: visible_store_def\<close>)
  then obtain sn' where sn': "snap_run (snap_round 1 2 SHARD_COUNT) s1 sn = Some (snapshot_truncate s1, sn')"
      "snap_dir sn' = written (kvstore s) (shardCount (kvstore s))"
    unfolding sn(2) n by blast
  obtain t where "new_Server True (snap_dir sn') (aof_file (aof (snapshot_truncate s1))) st uuid addr p logs = Inr t"
      "kv_map (kvstore t) = kv_map (kvstore s)"
    using restart_empty_log [OF assms written_all, of st uuid addr p logs] sn'(2) by (auto simp: snapshot_truncate_def)
  then show ?thesis using sn(1) sn'(1) by blast
qed

theorem failed_snapshot_erases_log_witness:
  "\<exists>sn sn' s1 t. serve (\<lambda>_. 0) lone_server [(0, 0, 9, set_request (''k'', SimpleString ''v''))] = Inr s1 \<and>
     kv_map (kvstore s1) ''k'' = Some (SimpleString ''v'') \<and>
     snap_run [(0, Fork), (1, Clear), (1, Throws)] lone_server (new_Snapshots Map.empty) = Some (lone_server, sn) \<and>
     snap_run (snap_round 1 2 SHARD_COUNT) s1 sn = Some (snapshot_truncate s1, sn') \<and>
     new_Server True (snap_dir sn') (aof_file (aof (snapshot_truncate s1))) 0 3 ''10.0.0.1'' 7800 Map.empty = Inr t \<and>
     kv_map (kvstore t) ''k'' = None"
proof -
  obtain s1 where "serve (\<lambda>_. 0) lone_server [(0, 0, 9, set_request (''k'', SimpleString ''v''))] = Inr s1"
      "kv_map (kvstore s1) ''k'' = Some (SimpleString ''v'')"
    using lone_server_set [of "SimpleString ''v''" "''v''" "\<lambda>_. 0" "''k''"] by (auto simp: value_string_def)
  moreover have "kv_map (kvstore lone_server) ''k'' = None" by (simp add: new_KVStore_empty SHARD_COUNT_def)
  moreover obtain sn sn' t where "snap_run [(0, Fork), (1, Clear), (1, Throws)] lone_server (new_Snapshots Map.empty) = Some (lone_server, sn)"
     "snap_run (snap_round 1 2 SHARD_COUNT) s1 sn = Some (snapshot_truncate s1, sn')"
     "new_Server True (snap_dir sn') (aof_file (aof (snapshot_truncate s1))) 0 3 ''10.0.0.1'' 7800 Map.empty = Inr t"
     "kv_map (kvstore t) = kv_map (kvstore lone_server)"
    using failed_snapshot_erases_log [OF lone_server_clean, of Map.empty s1 0 3 "''10.0.0.1''" 7800 Map.empty] by blast
  ultimately show ?thesis by (intro exI [of _ sn] exI [of _ sn'] exI [of _ s1] exI [of _ t] conjI) simp_all
qed

text \<open>The old snapshot is gone before the new one exists: a crash after the directory has been cleared, with the
  log cut by the round before, leaves nothing of the store.\<close>

theorem crash_in_snapshot_loses_store:
  "\<exists>sn. snap_run [(0, Fork), (1, Clear)] s (new_Snapshots dir) = Some (s, sn) \<and>
    (\<exists>t. new_Server True (snap_dir sn) [] st uuid addr p logs = Inr t \<and> kv_map (kvstore t) = Map.empty)"
proof -
  have "read_shard Map.empty = (\<lambda>kv i. Inr kv)" by (intro ext) (simp add: read_shard_def)
  moreover have "foldl (\<lambda>kv i. kv) kv xs = kv" for kv :: "RespValue KVStore" and xs :: "nat list" by (induction xs) simp_all
  ultimately have "kv_readfromfile Map.empty kv = Inr kv" for kv by (simp add: kv_readfromfile_def foldE_pure)
  moreover let ?s = "idle_Server \<lparr>aof_file = [], aof_buffer = [], last_fsync = st\<rparr> uuid addr p logs"
  have "recover ?s = Inr ?s" using recover_eq [of ?s new_RespParser] by (simp add: idle_Server_def)
  moreover have "kv_map (kvstore ?s) = Map.empty" by (simp add: idle_Server_def new_KVStore_empty SHARD_COUNT_def)
  ultimately show ?thesis
    by (simp add: snap_step_def new_Snapshots_def fork_child_def goto_def new_Server_def new_AOF_def)
qed

end
