(* ===== verification/Server_Threads.thy ===== *)
theory Server_Threads
  imports Server_Invariant Concurrent_Handlers Snapshot_Thread
begin

text \<open>
  All threads of a server together: the main loop, the workers of the pool, each section of a task being a
  step of its own, the heartbeat thread and the processes of the snapshot thread.  An exception that ends
  a task is kept in the future of the task, which nobody reads: the worker goes on and what the task did
  before stays.  A round of the main loop and a heartbeat round are single steps.

  A worker finds its Raft node again by the identity of the group in every section.  The table of groups
  is replaced by the main loop without a lock; what C++ does when a worker still holds a pointer into the
  old table is undefined and not described.
\<close>

section \<open>Threads\<close>

record Threads =
  main :: Loop
  progs :: "nat \<Rightarrow> unit prog"
  snaps :: Snapshots

definition task_prog :: "(nat \<Rightarrow> nat) \<Rightarrow> int \<Rightarrow> u64 \<Rightarrow> task \<Rightarrow> unit prog" where
  "task_prog rand st now t = (case t of
     Handle_Command sock v \<Rightarrow> handleCommand_sections rand st now sock v
   | Send_Data uuid \<Rightarrow> sendData_sections uuid)"

text \<open>A round of the heartbeat thread with the callbacks set by the constructor of the server: messages and one
  order to rebuild the groups per dead node enter the queue.\<close>

definition beat :: "u64 \<Rightarrow> Server \<Rightarrow> Server" where
  "beat now s = (case heartbeat_round True now (cluster s) of (c, msgs, dead) \<Rightarrow>
     fold (\<lambda>_. enqueue_msg ''REBUILD_RAFTS'' (-2)) dead (fold (\<lambda>(text, fd). enqueue_msg text fd) msgs (s\<lparr>cluster := c\<rparr>)))"

definition on_srv :: "Threads \<Rightarrow> Server \<Rightarrow> Threads" where
  "on_srv n s = n\<lparr>main := (main n)\<lparr>srv := s\<rparr>\<rparr>"

definition on_pool :: "Threads \<Rightarrow> task Pool \<Rightarrow> Threads" where
  "on_pool n p = n\<lparr>main := (main n)\<lparr>pool := p\<rparr>\<rparr>"

inductive thread_step :: "Threads \<Rightarrow> Threads \<Rightarrow> bool" where
  Poll: "epoll_step io (main n) = Inr l \<Longrightarrow> thread_step n (n\<lparr>main := l\<rparr>)"
| Pick: "i < length (workers (pool (main n))) \<Longrightarrow> workers (pool (main n)) ! i = Waiting \<Longrightarrow> tasks (pool (main n)) = t # ts \<Longrightarrow>
    thread_step n ((on_pool n (worker_take i (pool (main n))))\<lparr>progs := (progs n)(i := task_prog rand st now t)\<rparr>)"
| Section: "i < length (workers (pool (main n))) \<Longrightarrow> workers (pool (main n)) ! i = Busy t \<Longrightarrow> progs n i = Sec u k \<Longrightarrow>
    thread_step n ((on_srv n (u (srv (main n))))\<lparr>progs := (progs n)(i := k (srv (main n)))\<rparr>)"
| Return: "i < length (workers (pool (main n))) \<Longrightarrow> workers (pool (main n)) ! i = Busy t \<Longrightarrow> progs n i = Ret () \<Longrightarrow>
    thread_step n (on_pool n (worker_finish i (pool (main n))))"
| Swallow: "i < length (workers (pool (main n))) \<Longrightarrow> workers (pool (main n)) ! i = Busy t \<Longrightarrow> progs n i = Raise e \<Longrightarrow> caught e \<Longrightarrow>
    thread_step n (on_pool n (worker_finish i (pool (main n))))"
| Beat: "thread_step n (on_srv n (beat now (srv (main n))))"
| Snap: "snap_step i e (srv (main n)) (snaps n) = Some (s, sn) \<Longrightarrow> thread_step n ((on_srv n s)\<lparr>snaps := sn\<rparr>)"
| Stop: "thread_step n (n\<lparr>snaps := stop_running (snaps n)\<rparr>)"

definition new_Threads :: "Loop \<Rightarrow> directory \<Rightarrow> Threads" where
  "new_Threads l dir = \<lparr>main = l, progs = (\<lambda>_. Ret ()), snaps = new_Snapshots dir\<rparr>"

section \<open>Sections keep the server sound\<close>

primrec prog_ok :: "'a prog \<Rightarrow> bool" where
  "prog_ok (Ret x) \<longleftrightarrow> True"
| "prog_ok (Raise e) \<longleftrightarrow> True"
| "prog_ok (Sec u k) \<longleftrightarrow> (\<forall>s. server_ok s \<longrightarrow> server_ok (u s) \<and> prog_ok (k s))"

lemma prog_ok_bindP [intro]: "prog_ok p \<Longrightarrow> (\<And>x. prog_ok (f x)) \<Longrightarrow> prog_ok (bindP p f)"
  by (induction p) auto

lemma prog_ok_attempt: "(\<And>s s' x. f s = Inr (s', x) \<Longrightarrow> server_ok s \<Longrightarrow> server_ok s') \<Longrightarrow> prog_ok (attempt f)"
  by (auto simp: attempt_def split: sum.splits)

lemma prog_ok_change: "(\<And>s. server_ok s \<Longrightarrow> server_ok (u s)) \<Longrightarrow> prog_ok (change u)"
  by (simp add: change_def)

lemma prog_ok_reads [simp]: "prog_ok (look f)" "prog_ok (lookE g)" "prog_ok (liftE r)"
  by (auto simp: look_def lookE_def liftE_def bindE_def attempt_def split: sum.split)

lemma prog_ok_eachP: "(\<And>x. x \<in> set xs \<Longrightarrow> prog_ok (f x)) \<Longrightarrow> prog_ok (eachP f xs)"
  by (induction xs) auto

lemma prog_ok_if [intro]: "(c \<Longrightarrow> prog_ok p) \<Longrightarrow> (\<not> c \<Longrightarrow> prog_ok q) \<Longrightarrow> prog_ok (if c then p else q)"
  by simp

lemma prog_ok_queue [simp]: "prog_ok (queue_section m fd)"
  by (simp add: queue_section_def prog_ok_change)

lemma prog_ok_cluster: "(\<And>c. cluster_ok c \<Longrightarrow> cluster_ok (f c)) \<Longrightarrow> prog_ok (on_cluster f)"
  by (simp add: on_cluster_def prog_ok_change server_ok_update server_ok_parts)

lemma with_group_ok: "with_group gid f x s = (s', y) \<Longrightarrow> server_ok s \<Longrightarrow> server_ok s'"
  by (auto simp: with_group_def server_ok_update split: option.splits prod.splits)

lemma with_group_fst_ok: "server_ok s \<Longrightarrow> server_ok (fst (with_group gid f x s))"
  by (cases "with_group gid f x s") (simp add: with_group_ok)

lemma prog_ok_propose [simp]: "prog_ok (propose_for_sections key cmd)"
proof -
  have "prog_ok (propose_sections gid cmd)" for gid
    unfolding propose_sections_def
    by (auto simp: with_group_fst_ok intro!: prog_ok_bindP prog_ok_change prog_ok_attempt elim!: bindE_InrE
        dest: run_raft_ok with_group_ok split: option.split)
  then show ?thesis by (auto simp: propose_for_sections_def split: option.split)
qed

lemma prog_ok_moved [simp]: "prog_ok (moved_sections key)"
  by (auto simp: moved_sections_def Let_def intro!: prog_ok_bindP)

lemma prog_ok_broadcast [simp]: "prog_ok (broadcast_sections request)"
  by (auto simp: broadcast_sections_def intro!: prog_ok_bindP prog_ok_eachP)

lemma send_entry_ok: "send_entry u fd s x = Inr s' \<Longrightarrow> server_ok s \<Longrightarrow> server_ok s'"
  by (cases x) (auto simp: send_entry_def elim!: bindE_InrE split: if_splits)

lemma prog_ok_sendData [simp]: "prog_ok (sendData_sections u)"
proof -
  have "server_ok s'" if "foldE (send_entry u fd) s xs = Inr s'" "server_ok s" for fd s s' xs
    using foldE_invariant [where P = server_ok, OF that] send_entry_ok by blast
  then show ?thesis
    by (auto simp: sendData_sections_def intro!: prog_ok_bindP prog_ok_eachP prog_ok_attempt prog_ok_change elim!: bindE_InrE)
qed

lemmas store_keeps = kv_set_ok [OF server_ok_parts(1), THEN conjunct1] kv_get_ok [OF server_ok_parts(1), THEN conjunct1]
  kv_del_ok [OF server_ok_parts(1), THEN conjunct1]

lemma prog_ok_store [simp]: "prog_ok (log_section st es)" "prog_ok (set_section key v)"
  by (auto simp: log_section_def set_section_def intro!: prog_ok_attempt server_ok_update elim!: bindE_InrE intro: store_keeps)

lemma prog_ok_data [simp]:
  "prog_ok (SET_sections st request)" "prog_ok (GET_sections request)" "prog_ok (DEL_sections st request)" "prog_ok (EXIST_sections request)"
  by (auto simp: SET_sections_def GET_sections_def DEL_sections_def EXIST_sections_def getValue_eq
      intro!: prog_ok_bindP prog_ok_attempt server_ok_update elim!: bindE_InrE split: RespValue.split)
    (blast intro: store_keeps)+

lemma prog_ok_node [simp]: "prog_ok (NODEIN_sections now request)" "prog_ok (NODEOUT_sections now request)"
  by (auto simp: NODEIN_sections_def NODEOUT_sections_def Let_def cluster_ops_ok addGossip_ok
      intro!: prog_ok_bindP prog_ok_cluster split: RespValue.split)

lemma onSyncDone_ok: "server_ok s \<Longrightarrow> server_ok (onSyncDone s)"
  by (simp add: onSyncDone_def server_ok_def Let_def)

lemma prog_ok_other [simp]:
  "prog_ok (handleRaft_sections rand now request fd)" "prog_ok (HEARTBEAT_sections now fd)" "prog_ok (SYNCDONE_sections request)"
  "prog_ok (HELLO_sections request fd)"
  by (auto simp: handleRaft_sections_def HEARTBEAT_sections_def SYNCDONE_sections_def HELLO_sections_def Let_def cluster_ops_ok
      onSyncDone_ok intro!: prog_ok_bindP prog_ok_cluster prog_ok_attempt prog_ok_change
      elim!: bindE_InrE split: RespValue.split)
    (blast intro: run_raft_ok)+

lemma prog_ok_handle: "prog_ok (handle_sections rand st now request fd)"
proof (cases "\<exists>c es. request = Array (Some (SimpleString c # es))")
  case False
  then show ?thesis by (auto simp: handle_sections_def split: RespValue.split option.split list.split)
next
  case True
  then obtain c es where req: "request = Array (Some (SimpleString c # es))" by blast
  show ?thesis unfolding req handle_sections_def RespValue.case option.case list.case
    by (intro prog_ok_if prog_ok_bindP) simp_all
qed

lemma prog_ok_task: "prog_ok (task_prog rand st now t)"
  by (auto simp: task_prog_def handleCommand_sections_def intro!: prog_ok_bindP prog_ok_handle split: task.split)

section \<open>Invariant\<close>

definition threads_ok :: "Threads \<Rightarrow> bool" where
  "threads_ok n \<longleftrightarrow> loop_ok (main n) \<and> (\<forall>i. prog_ok (progs n i))"

lemma beat_ok: "server_ok s \<Longrightarrow> server_ok (beat now s)"
proof -
  assume s: "server_ok s"
  obtain c msgs dead where b: "heartbeat_round True now (cluster s) = (c, msgs, dead)" by (metis prod_cases3)
  then have "cluster_ok c" using server_ok_parts(2) [OF s] cluster_ops_ok(8) [of "cluster s" True now]
    by (auto simp: heartbeat_round_def checkTimeouts_eq remove_nodes_ok case_prod_unfold Let_def split: if_splits)
  then have "server_ok (s\<lparr>cluster := c\<rparr>)" using s server_ok_update(1) by blast
  moreover have "server_ok (fold (\<lambda>(text, fd). enqueue_msg text fd) ms t) \<longleftrightarrow> server_ok t" for ms t
    by (induction ms arbitrary: t) (simp_all add: case_prod_unfold)
  moreover have "server_ok (fold (\<lambda>_. enqueue_msg m fd) ds t) \<longleftrightarrow> server_ok t" for m fd t and ds :: "u64 list"
    by (induction ds arbitrary: t) simp_all
  ultimately show ?thesis by (simp add: beat_def b)
qed

lemma on_srv_ok: "threads_ok n \<Longrightarrow> server_ok s \<Longrightarrow> threads_ok (on_srv n s)"
  by (simp add: threads_ok_def on_srv_def loop_ok_srv)

lemma on_pool_ok: "threads_ok n \<Longrightarrow> pool_ok p \<Longrightarrow> accepted p = accepted (pool (main n)) \<Longrightarrow> threads_ok (on_pool n p)"
  by (simp add: threads_ok_def on_pool_def loop_ok_def)

lemma thread_parts: "threads_ok n \<Longrightarrow> server_ok (srv (main n))" "threads_ok n \<Longrightarrow> pool_ok (pool (main n))"
  by (simp_all add: threads_ok_def loop_ok_def)

lemma threads_ok_progs: "threads_ok n \<Longrightarrow> prog_ok p \<Longrightarrow> threads_ok (n\<lparr>progs := (progs n)(i := p)\<rparr>)"
  and threads_ok_snaps [simp]: "threads_ok (n\<lparr>snaps := sn\<rparr>) \<longleftrightarrow> threads_ok n"
  by (simp_all add: threads_ok_def)

lemma on_progs [simp]: "progs (on_srv n s) = progs n" "progs (on_pool n p) = progs n"
  by (simp_all add: on_srv_def on_pool_def)

lemma snap_step_server: "snap_step i e s sn = Some (s', sn') \<Longrightarrow> s' = s \<or> s' = snapshot_truncate s"
  by (erule snap_stepE) simp_all

lemma thread_step_ok: "thread_step n n' \<Longrightarrow> threads_ok n \<Longrightarrow> threads_ok n'"
proof (induction rule: thread_step.induct)
  case (Poll io n l)
  then show ?case using epoll_step_ok by (auto simp: threads_ok_def)
next
  case (Pick i n t ts rand st now)
  have "threads_ok (on_pool n (worker_take i (pool (main n))))"
    using Pick by (intro on_pool_ok worker_take_ok) (simp_all add: thread_parts)
  then show ?case using threads_ok_progs [OF _ prog_ok_task, of "on_pool n (worker_take i (pool (main n)))" i rand st now t] by simp
next
  case (Section i n t u k)
  have "prog_ok (progs n i)" using Section(4) by (simp add: threads_ok_def)
  then have "server_ok (u (srv (main n)))" "prog_ok (k (srv (main n)))" using Section(3,4) thread_parts(1) by auto
  then show ?case using threads_ok_progs [OF on_srv_ok [OF Section(4)], of "u (srv (main n))" "k (srv (main n))" i] by simp
next
  case (Return i n t)
  then show ?case by (intro on_pool_ok worker_finish_ok [of _ i t]) (simp_all add: thread_parts)
next
  case (Swallow i n t e)
  then show ?case by (intro on_pool_ok worker_finish_ok [of _ i t]) (simp_all add: thread_parts)
next
  case (Beat n now)
  then show ?case by (intro on_srv_ok beat_ok) (simp_all add: thread_parts)
next
  case (Snap i e n s sn)
  then have "server_ok s" using snap_step_server [OF Snap(1)] thread_parts(1) server_ok_update(3) by (auto simp: snapshot_truncate_def)
  then show ?case using on_srv_ok [OF Snap(2)] by simp
qed simp

lemma threads_reach_ok: "thread_step\<^sup>*\<^sup>* n n' \<Longrightarrow> threads_ok n \<Longrightarrow> threads_ok n'"
  by (induction rule: rtranclp_induct) (auto intro: thread_step_ok)

lemma new_Threads_ok: "loop_ok l \<Longrightarrow> threads_ok (new_Threads l dir)"
  by (simp add: threads_ok_def new_Threads_def)

section \<open>Properties\<close>



text \<open>A write that fails is logged: when the probe loop of the store throws, the handler has already proposed and
  logged the request; the client gets no answer, and a restart replays the request.\<close>

theorem failed_write_is_logged:
  assumes "\<not> syncing s" "isMasterFor (cluster s) key = Inr True" "getGroupForKey key s = Inr None" "value_string v = Inr x"
    and "kv_set (kvstore s) key v = Inl e"
  shows "\<exists>s'. run_alone (handleCommand_sections rand st now sock (set_request (key, v))) s = (s', Inl e) \<and>
    kvstore s' = kvstore s \<and> out_queue s' = out_queue s \<and> log_text (aof s') = log_text (aof s) @ encode (set_request (key, v))"
proof -
  have run: "run_alone (bindP p f) t = (case run_alone p t of (t', Inl e) \<Rightarrow> (t', Inl e) | (t', Inr y) \<Rightarrow> run_alone (f y) t')"
    for p :: "string prog" and f :: "string \<Rightarrow> unit prog" and t
    by (induction p arbitrary: t) simp_all
  show ?thesis using assms
    by (simp add: handleCommand_sections_def run handle_sections_def set_request_def SET_sections_def request_elements_def liftE_def
        lookE_def attempt_def look_def propose_for_sections_def log_section_def set_section_def aof_append_def encode_three numeral_2_eq_2
        del: encode_Array)
qed

end
