(* ===== verification/Concurrent_Log.thy ===== *)
theory Concurrent_Log
  imports Concurrent_Handlers
begin

text \<open>
  The append-only file under concurrent requests.  A \<open>SET\<close> is logged in one critical section and stored in
  a later one, so the log is an order of the writes of its own.  It restores every key whose concurrent
  writes agree; two workers that write one key can leave a log that restores another value than the
  one in memory.
\<close>

section \<open>Phases of a request\<close>

text \<open>The rest of a request that writes nothing any more.\<close>

inductive inert :: "Cluster \<Rightarrow> string prog \<Rightarrow> bool" for c where
  Ended: "inert c (Ret a)"
| Thrown: "inert c (Raise e)"
| Quiet: "(\<And>s. settled_state c s \<Longrightarrow> settled_state c (u s) \<and> log_text (aof (u s)) = log_text (aof s) \<and>
     kv_map (kvstore (u s)) = kv_map (kvstore s) \<and> inert c (k s)) \<Longrightarrow> inert c (Sec u k)"

text \<open>The rest of a \<open>SET\<close> that was logged and is not yet stored.\<close>

inductive to_store :: "Cluster \<Rightarrow> string \<times> RespValue \<Rightarrow> string prog \<Rightarrow> bool" for c e where
  Lost: "to_store c e (Raise x)"
| Store: "(\<And>s. settled_state c s \<Longrightarrow> settled_state c (u s) \<and> log_text (aof (u s)) = log_text (aof s) \<and>
     (kv_map (kvstore (u s)) = kv_map (kvstore s) \<and> to_store c e (k s) \<or>
      kv_map (kvstore (u s)) = (kv_map (kvstore s))(fst e \<mapsto> snd e) \<and> inert c (k s))) \<Longrightarrow> to_store c e (Sec u k)"

text \<open>A request that is not logged yet, or never is.\<close>

inductive to_log :: "Cluster \<Rightarrow> data_request \<Rightarrow> string prog \<Rightarrow> bool" for c r where
  Never: "inert c p \<Longrightarrow> to_log c r p"
| Log: "(\<And>s. settled_state c s \<Longrightarrow> settled_state c (u s) \<and> kv_map (kvstore (u s)) = kv_map (kvstore s) \<and>
     (log_text (aof (u s)) = log_text (aof s) \<and> to_log c r (k s) \<or>
      (\<exists>e. r = Set (fst e) (snd e) \<and> log_text (aof (u s)) = log_text (aof s) @ encode (set_request e) \<and> to_store c e (k s)))) \<Longrightarrow>
    to_log c r (Sec u k)"

inductive_cases inertE: "inert c (Sec u k)"
inductive_cases to_storeE: "to_store c e (Ret a)" "to_store c e (Sec u k)"

lemma to_log_next:
  assumes "to_log c r (Sec u k)" "settled_state c s"
  shows "settled_state c (u s) \<and> kv_map (kvstore (u s)) = kv_map (kvstore s) \<and>
     (log_text (aof (u s)) = log_text (aof s) \<and> to_log c r (k s) \<or>
      (\<exists>e. r = Set (fst e) (snd e) \<and> log_text (aof (u s)) = log_text (aof s) @ encode (set_request e) \<and> to_store c e (k s)))"
  using assms(1)
proof cases
  case Never
  then show ?thesis using assms(2) by (auto elim!: inertE intro: to_log.Never)
next
  case Log
  then show ?thesis using assms(2) by blast
qed

lemma to_log_silent: "silent p \<Longrightarrow> (\<And>x. to_log c r (f x)) \<Longrightarrow> to_log c r (bindP p f)"
proof (induction p)
  case (Sec u k)
  then show ?case by (auto simp: settled_state_def intro!: to_log.Log)
qed (simp_all add: to_log.Never inert.Thrown)

lemma inert_read:
  assumes "\<And>s s' x. settled_state c s \<Longrightarrow> g s = Inr (s', x) \<Longrightarrow> settled_state c s' \<and> aof s' = aof s \<and> kv_map (kvstore s') = kv_map (kvstore s)"
  shows "inert c (bindP (attempt g) (\<lambda>x. Ret (f x)))"
  unfolding attempt_def bindP.simps
proof (rule inert.Quiet, goal_cases)
  case (1 s)
  then show ?case using assms [OF 1] by (cases "g s") (auto intro: inert.intros)
qed

lemma read_keeps:
  "settled_state c s \<Longrightarrow> kv_get (kvstore s) key = Inr (kv, r) \<Longrightarrow> settled_state c (s\<lparr>kvstore := kv\<rparr>) \<and> kv_map kv = kv_map (kvstore s)"
  using kv_get_ok by (fastforce simp: settled_state_def)

lemma inert_moved: "inert c (moved_sections key)"
  by (auto simp: moved_sections_def lookE_def attempt_def look_def bindE_def Let_def intro!: inert.intros split: sum.splits)

lemma to_log_GET: "to_log c (Get key) (GET_sections (request_of (Get key)))"
proof -
  have "inert c (bindP (attempt (\<lambda>s. bindE (getValue (kvstore s) key) (\<lambda>(kv, result). Inr (s\<lparr>kvstore := kv\<rparr>, result))))
      (\<lambda>result. Ret (if result \<noteq> [] then result else encode (BulkString None))))"
    by (rule inert_read) (auto simp: getValue_eq elim!: bindE_InrE dest: read_keeps)
  then show ?thesis by (simp add: GET_sections_def request_elements_def liftE_def to_log.Never)
qed

lemma to_log_EXIST: "to_log c (Exist key) (EXIST_sections (request_of (Exist key)))"
proof -
  have "inert c (bindP (attempt (\<lambda>s. bindE (kv_get (kvstore s) key) (\<lambda>(kv, r). Inr (s\<lparr>kvstore := kv\<rparr>, r))))
      (\<lambda>r. Ret (encode (Integer (of_bool (r \<noteq> None))))))"
    by (rule inert_read) (auto elim!: bindE_InrE dest: read_keeps)
  then show ?thesis by (simp add: EXIST_sections_def request_elements_def liftE_def to_log.Never)
qed

lemma to_store_set: "to_store c (key, v) (bindP (set_section key v) (\<lambda>_. Ret a))"
  unfolding set_section_def attempt_def bindP.simps
proof (rule to_store.Store, goal_cases)
  case (1 s)
  show ?case
  proof (cases "kv_set (kvstore s) key v")
    case (Inr r)
    then obtain kv ev where "kv_set (kvstore s) key v = Inr (kv, ev)" by (cases r) auto
    with kv_set_ok 1 show ?thesis by (fastforce simp: settled_state_def intro: inert.Ended)
  qed (use 1 in \<open>simp add: to_store.Lost\<close>)
qed

lemma to_log_SET: "to_log c (Set key v) (SET_sections st (request_of (Set key v)))"
proof -
  let ?es = "[SimpleString ''SET'', SimpleString key, v]"
  have "to_log c (Set key v) (bindP (log_section st (map Some ?es)) (\<lambda>_. bindP (set_section key v) (\<lambda>_. Ret a)))" for a
    unfolding log_section_def attempt_def bindP.simps aof_append_def encode_slots_all
  proof (rule to_log.Log, goal_cases)
    case (1 s)
    then show ?case using to_store_set [of c key v a]
      by (auto simp: settled_state_def set_request_def simp del: encode_Array intro!: exI [of _ "(key, v)"])
  qed
  then show ?thesis
    by (auto simp: SET_sections_def request_elements_def liftE_def [of "Inr _"] numeral_2_eq_2
        intro!: to_log_silent [OF silent_look(2)] to_log_silent [OF silent_look(3)] to_log_silent [OF silent_propose] to_log.Never [OF inert_moved])
qed

lemma to_log_data_request: "to_log c r (handle_sections rand st now (request_of r) fd)"
proof -
  have s: "bindP (look syncing) f = Sec id (\<lambda>s. f (syncing s))" for f :: "bool \<Rightarrow> string prog" by (simp add: look_def)
  show ?thesis
    by (cases r) (auto simp: handle_sections_def s settled_state_def simp del: encode_Array
        intro!: to_log.Log to_log_GET [simplified] to_log_EXIST [simplified] to_log_SET [simplified])
qed

section \<open>The order of the log and the order of the store\<close>

type_synonym writes = "(nat \<times> string \<times> RespValue) list"

text \<open>\<open>logs\<close> are the writes in the order of the log, \<open>stores\<close> in the order of the store, each with its request.\<close>

definition write_orders :: "Cluster \<Rightarrow> (string \<rightharpoonup> RespValue) \<Rightarrow> string \<Rightarrow> Workers \<Rightarrow> writes \<Rightarrow> writes \<Rightarrow> bool" where
  "write_orders c m0 l0 w logs stores \<longleftrightarrow> settled_state c (shared w) \<and> length (remaining w) = length (requests w) \<and>
     log_text (aof (shared w)) = l0 @ concat (map encode (map set_request (map snd logs))) \<and>
     kv_map (kvstore (shared w)) = apply_sets (map snd stores) m0 \<and>
     set stores \<subseteq> set logs \<and>
     (\<forall>i e. (i, e) \<in> set logs \<longrightarrow> i < length (requests w) \<and> requests w ! i = Set (fst e) (snd e)) \<and>
     (\<forall>i < length (requests w). (\<forall>e. (i, e) \<notin> set logs) \<longrightarrow> to_log c (requests w ! i) (remaining w ! i)) \<and>
     (\<forall>i e. (i, e) \<in> set logs \<longrightarrow> (i, e) \<notin> set stores \<longrightarrow> to_store c e (remaining w ! i)) \<and>
     (\<forall>i e. (i, e) \<in> set stores \<longrightarrow> inert c (remaining w ! i))"

lemma write_orders_start:
  "kv_ok (kvstore s) \<Longrightarrow> \<not> syncing s \<Longrightarrow> write_orders (cluster s) (kv_map (kvstore s)) (log_text (aof s)) (no_requests s) [] []"
  by (simp add: write_orders_def no_requests_def settled_state_def)

lemma write_ordersD:
  assumes "write_orders c m0 l0 w logs stores"
  shows "settled_state c (shared w)" "length (remaining w) = length (requests w)"
    "log_text (aof (shared w)) = l0 @ concat (map encode (map set_request (map snd logs)))"
    "kv_map (kvstore (shared w)) = apply_sets (map snd stores) m0" "set stores \<subseteq> set logs"
    "\<And>i e. (i, e) \<in> set logs \<Longrightarrow> i < length (requests w)" "\<And>i e. (i, e) \<in> set logs \<Longrightarrow> requests w ! i = Set (fst e) (snd e)"
    "\<And>i. i < length (requests w) \<Longrightarrow> (\<And>e. (i, e) \<notin> set logs) \<Longrightarrow> to_log c (requests w ! i) (remaining w ! i)"
    "\<And>i e. (i, e) \<in> set logs \<Longrightarrow> (i, e) \<notin> set stores \<Longrightarrow> to_store c e (remaining w ! i)"
    "\<And>i e. (i, e) \<in> set stores \<Longrightarrow> inert c (remaining w ! i)"
  using assms unfolding write_orders_def by (auto simp del: split_paired_All split_paired_Ex)

lemma write_ordersI:
  assumes "settled_state c (shared w)" "length (remaining w) = length (requests w)"
    "log_text (aof (shared w)) = l0 @ concat (map encode (map set_request (map snd logs)))"
    "kv_map (kvstore (shared w)) = apply_sets (map snd stores) m0" "\<And>i e. (i, e) \<in> set stores \<Longrightarrow> (i, e) \<in> set logs"
    "\<And>i e. (i, e) \<in> set logs \<Longrightarrow> i < length (requests w)" "\<And>i e. (i, e) \<in> set logs \<Longrightarrow> requests w ! i = Set (fst e) (snd e)"
    "\<And>i. i < length (requests w) \<Longrightarrow> (\<And>e. (i, e) \<notin> set logs) \<Longrightarrow> to_log c (requests w ! i) (remaining w ! i)"
    "\<And>i e. (i, e) \<in> set logs \<Longrightarrow> (i, e) \<notin> set stores \<Longrightarrow> to_store c e (remaining w ! i)"
    "\<And>i e. (i, e) \<in> set stores \<Longrightarrow> inert c (remaining w ! i)"
  shows "write_orders c m0 l0 w logs stores"
  unfolding write_orders_def using assms by (auto simp del: split_paired_All split_paired_Ex)

lemma write_orders_arrive:
  assumes "write_orders c m0 l0 w logs stores"
  shows "write_orders c m0 l0 (w\<lparr>requests := requests w @ [r], remaining := remaining w @ [handle_sections rand st now (request_of r) fd]\<rparr>) logs stores"
proof -
  note D = write_ordersD [OF assms]
  show ?thesis
  proof (rule write_ordersI, goal_cases)
    case (8 i)
    then show ?case using D(2,8) to_log_data_request by (auto simp: nth_append less_Suc_eq)
  qed (use D(1-7,9-10) in \<open>auto simp: nth_append less_SucI dest: subsetD [OF D(5)]\<close>)
qed

text \<open>What one section changes: the entries of the request \<open>i\<close> in the two orders and its program.\<close>

lemma write_orders_update:
  assumes "write_orders c m0 l0 w logs stores" "settled_state c s'" "i < length (requests w)"
    and "log_text (aof s') = l0 @ concat (map encode (map set_request (map snd logs')))"
    and "kv_map (kvstore s') = apply_sets (map snd stores') m0"
    and "\<And>j e. j \<noteq> i \<Longrightarrow> (j, e) \<in> set logs' \<longleftrightarrow> (j, e) \<in> set logs" "\<And>j e. j \<noteq> i \<Longrightarrow> (j, e) \<in> set stores' \<longleftrightarrow> (j, e) \<in> set stores"
    and "\<And>e. (i, e) \<in> set logs' \<Longrightarrow> requests w ! i = Set (fst e) (snd e)" "\<And>e. (i, e) \<in> set stores' \<Longrightarrow> (i, e) \<in> set logs'"
    and "(\<And>e. (i, e) \<notin> set logs') \<Longrightarrow> to_log c (requests w ! i) p"
    and "\<And>e. (i, e) \<in> set logs' \<Longrightarrow> (i, e) \<notin> set stores' \<Longrightarrow> to_store c e p" "\<And>e. (i, e) \<in> set stores' \<Longrightarrow> inert c p"
  shows "write_orders c m0 l0 (w\<lparr>shared := s', remaining := (remaining w)[i := p]\<rparr>) logs' stores'"
proof -
  note D = write_ordersD [OF assms(1)]
  show ?thesis
  proof (rule write_ordersI, goal_cases)
    case (5 j e)
    then show ?case using assms(6,7,9) D(5) by (cases "j = i") auto
  next
    case (6 j e)
    then show ?case using assms(3,6) D(6) by (cases "j = i") auto
  next
    case (7 j e)
    then show ?case using assms(6,8) D(7) by (cases "j = i") auto
  next
    case (8 j)
    then show ?case using assms(6,10) D(2,8) by (cases "j = i") auto
  next
    case (9 j e)
    then show ?case using assms(3,6,7,11) D(2,9) by (cases "j = i") auto
  next
    case (10 j e)
    then show ?case using assms(3,7,12) D(2,10) by (cases "j = i") auto
  qed (use assms(2,4,5) D(2) in simp_all)
qed

lemma write_orders_advance:
  assumes "write_orders c m0 l0 w logs stores" "i < length (remaining w)" "remaining w ! i = Sec u k"
  shows "\<exists>logs' stores'. write_orders c m0 l0 (w\<lparr>shared := u (shared w), remaining := (remaining w)[i := k (shared w)]\<rparr>) logs' stores'"
proof -
  let ?s = "shared w" and ?w = "w\<lparr>shared := u (shared w), remaining := (remaining w)[i := k (shared w)]\<rparr>"
  note D = write_ordersD [OF assms(1)]
  have n: "i < length (requests w)" using assms(2) D(2) by simp
  note upd = write_orders_update [OF assms(1) _ n]
  show ?thesis
  proof (cases "\<exists>e. (i, e) \<in> set logs")
    case False
    then have new: "(i, e) \<notin> set logs" "(i, e) \<notin> set stores" for e using D(5) by blast+
    have "to_log c (requests w ! i) (Sec u k)" using D(8) [OF n] new assms(3) by simp
    then consider "settled_state c (u ?s)" "log_text (aof (u ?s)) = log_text (aof ?s)" "kv_map (kvstore (u ?s)) = kv_map (kvstore ?s)" "to_log c (requests w ! i) (k ?s)"
      | e where "settled_state c (u ?s)" "kv_map (kvstore (u ?s)) = kv_map (kvstore ?s)" "requests w ! i = Set (fst e) (snd e)"
          "log_text (aof (u ?s)) = log_text (aof ?s) @ encode (set_request e)" "to_store c e (k ?s)"
      using to_log_next [OF _ D(1)] by blast
    then show ?thesis
    proof cases
      case 1
      then have "write_orders c m0 l0 ?w logs stores" by (intro upd) (use D(3,4) new in auto)
      then show ?thesis by blast
    next
      case 2
      then have "write_orders c m0 l0 ?w (logs @ [(i, e)]) stores" by (intro upd) (use D(3,4) new in \<open>(cases e, auto)+\<close>)
      then show ?thesis by blast
    qed
  next
    case True
    then obtain e where e: "(i, e) \<in> set logs" by blast
    then have only: "e' = e" if "(i, e') \<in> set logs" for e' using D(7) [OF that] D(7) [OF e] by (auto intro: prod_eqI)
    show ?thesis
    proof (cases "(i, e) \<in> set stores")
      case True
      then have "inert c (Sec u k)" using D(10) assms(3) by metis
      then have "settled_state c (u ?s) \<and> log_text (aof (u ?s)) = log_text (aof ?s) \<and> kv_map (kvstore (u ?s)) = kv_map (kvstore ?s) \<and> inert c (k ?s)"
        using D(1) by (elim inertE) blast
      then have "write_orders c m0 l0 ?w logs stores"
      proof (intro upd)
        show "to_log c (requests w ! i) (k ?s)" if "\<And>e. (i, e) \<notin> set logs" using that e by blast
        show "to_store c e' (k ?s)" if "(i, e') \<in> set logs" "(i, e') \<notin> set stores" for e' using only [OF that(1)] that(2) True by blast
      qed (use D(3-5,7) in auto)
      then show ?thesis by blast
    next
      case False
      then have "to_store c e (Sec u k)" using D(9) e assms(3) by metis
      then consider "settled_state c (u ?s)" "log_text (aof (u ?s)) = log_text (aof ?s)" "kv_map (kvstore (u ?s)) = kv_map (kvstore ?s)" "to_store c e (k ?s)"
        | "settled_state c (u ?s)" "log_text (aof (u ?s)) = log_text (aof ?s)" "kv_map (kvstore (u ?s)) = (kv_map (kvstore ?s))(fst e \<mapsto> snd e)" "inert c (k ?s)"
        using D(1) by (elim to_storeE) blast
      then show ?thesis
      proof cases
        case 1
        then have "write_orders c m0 l0 ?w logs stores"
        proof (intro upd)
          show "to_log c (requests w ! i) (k ?s)" if "\<And>e. (i, e) \<notin> set logs" using that e by blast
          show "to_store c e' (k ?s)" if "(i, e') \<in> set logs" for e' using only [OF that] 1 by blast
          show "inert c (k ?s)" if "(i, e') \<in> set stores" for e' using only that False D(5) by blast
        qed (use D(3-5,7) in auto)
        then show ?thesis by blast
      next
        case 2
        then have "write_orders c m0 l0 ?w logs (stores @ [(i, e)])"
        proof (intro upd)
          show "to_log c (requests w ! i) (k ?s)" if "\<And>e. (i, e) \<notin> set logs" using that e by blast
          show "to_store c e' (k ?s)" if "(i, e') \<in> set logs" "(i, e') \<notin> set (stores @ [(i, e)])" for e' using only [OF that(1)] that(2) by simp
        qed (use D(3-5,7) e in \<open>auto simp: apply_sets_def case_prod_unfold\<close>)
        then show ?thesis by blast
      qed
    qed
  qed
qed

lemma write_orders_run:
  assumes "work\<^sup>*\<^sup>* w w'" "write_orders c m0 l0 w logs stores"
  shows "\<exists>logs' stores'. write_orders c m0 l0 w' logs' stores'"
  using assms
proof (induction rule: rtranclp_induct)
  case (step w1 w2)
  then obtain l1 s1 where o: "write_orders c m0 l0 w1 l1 s1" by blast
  from step(2) show ?case
  proof cases
    case (Arrive r rand st now fd)
    then show ?thesis using write_orders_arrive [OF o] by blast
  next
    case (Advance i u k)
    then show ?thesis using write_orders_advance [OF o] by blast
  qed
qed blast

text \<open>When every request was answered, everything that was logged was stored.\<close>

lemma all_answered:
  assumes "write_orders c m0 l0 w logs stores" "\<forall>p\<in>set (remaining w). \<exists>a. p = Ret a"
  shows "set stores = set logs"
proof -
  note D = write_ordersD [OF assms(1)]
  have "(i, e) \<in> set stores" if "(i, e) \<in> set logs" for i e
  proof (rule ccontr)
    assume "(i, e) \<notin> set stores"
    then have "to_store c e (remaining w ! i)" using D(9) that by blast
    moreover have "remaining w ! i \<in> set (remaining w)" using D(2) D(6) [OF that] by simp
    then obtain a where "remaining w ! i = Ret a" using assms(2) by blast
    ultimately show False by (auto elim: to_storeE)
  qed
  then show ?thesis using D(5) by auto
qed

lemma apply_sets_map_of: "apply_sets kvs m = m ++ map_of (rev kvs)"
  by (induction kvs arbitrary: m) (auto simp: map_add_def split: option.splits)

lemma apply_sets_agree:
  assumes "set xs = set ys" "\<And>v v'. (key, v) \<in> set xs \<Longrightarrow> (key, v') \<in> set xs \<Longrightarrow> v = v'"
  shows "apply_sets xs m key = apply_sets ys m key"
proof -
  have "map_of (rev xs) key = Some v \<longleftrightarrow> map_of (rev ys) key = Some v" for v
    using assms by (metis map_of_SomeD map_of_eq_None_iff not_None_eq set_rev imageI fst_conv)
  then have "map_of (rev xs) key = map_of (rev ys) key" by (metis option.exhaust)
  then show ?thesis by (simp add: apply_sets_map_of map_add_def)
qed

section \<open>Properties\<close>

text \<open>C10. Concurrent writes are restored key by key: a snapshot of the store is written and the log is empty; then
  any number of data requests run at the same time, in any interleaving, until all are answered.  A
  restart from the snapshot and the log restores the value in memory of every key for which the \<open>SET\<close>
  requests agreed (in particular of every key written once or not at all); the only other outcome is the
  exception of a full probe loop.\<close>

theorem concurrent_writes_restored:
  assumes "clean_store (kvstore s)" "\<not> syncing s" "kv_writetofileFork (\<lambda>_. True) (kvstore s) = Inr dir" "log_text (aof s) = []"
    and "work\<^sup>*\<^sup>* (no_requests s) w" "\<forall>p\<in>set (remaining w). \<exists>a. p = Ret a" "\<forall>r\<in>set (requests w). resp_ok (request_of r)"
    and "\<And>v v'. Set key v \<in> set (requests w) \<Longrightarrow> Set key v' \<in> set (requests w) \<Longrightarrow> v = v'"
  shows "new_Server True dir (log_text (aof (shared w))) st uuid addr p fs = Inl no_slot \<or>
    (\<exists>s'. new_Server True dir (log_text (aof (shared w))) st uuid addr p fs = Inr s' \<and>
       kv_map (kvstore s') key = kv_map (kvstore (shared w)) key)"
proof -
  have "kv_ok (kvstore s)" using assms(1) by (simp add: clean_store_def)
  then obtain logs stores where o: "write_orders (cluster s) (kv_map (kvstore s)) [] w logs stores"
    using write_orders_run [OF assms(5) write_orders_start] assms(2,4) by auto
  note D = write_ordersD [OF o]
  have logged: "Set (fst e) (snd e) \<in> set (requests w)" if "(i, e) \<in> set logs" for i e using D(6,7) [OF that] by (metis nth_mem)
  have "list_all resp_ok (map set_request (map snd logs))"
    using logged assms(7) by (fastforce simp: list_all_iff set_request_def)
  then have restart: "new_Server True dir (log_text (aof (shared w))) st uuid addr p fs = Inl no_slot \<or>
      (\<exists>s'. new_Server True dir (log_text (aof (shared w))) st uuid addr p fs = Inr s' \<and>
        kv_map (kvstore s') = apply_sets (map snd logs) (kv_map (kvstore s)))"
    using D(3) by (intro restart_replays [OF assms(1,3), where t = "[]"]) simp_all
  have "apply_sets (map snd logs) (kv_map (kvstore s)) key = apply_sets (map snd stores) (kv_map (kvstore s)) key"
  proof (rule apply_sets_agree)
    show "set (map snd logs) = set (map snd stores)" using all_answered [OF o assms(6)] by simp
    show "v = v'" if "(key, v) \<in> set (map snd logs)" "(key, v') \<in> set (map snd logs)" for v v'
      using that logged assms(8) by fastforce
  qed
  then show ?thesis using restart D(4) by auto
qed

theorem concurrent_writes_restored_witness:
  "\<exists>(w :: Workers) dir. requests w = [Set ''k'' (SimpleString ''a''), Set ''k'' (SimpleString ''a'')] \<and>
     kv_writetofileFork (\<lambda>_. True) (kvstore lone_server) = Inr dir \<and>
     (new_Server True dir (log_text (aof (shared w))) 0 8 ''10.0.0.1'' 7800 Map.empty = Inl no_slot \<or>
      (\<exists>s'. new_Server True dir (log_text (aof (shared w))) 0 8 ''10.0.0.1'' 7800 Map.empty = Inr s' \<and>
        kv_map (kvstore s') ''k'' = Some (SimpleString ''a'')))"
proof -
  obtain w where w: "work\<^sup>*\<^sup>* (no_requests lone_server) w" "requests w = [Set ''k'' (SimpleString ''a''), Set ''k'' (SimpleString ''a'')]"
      "remaining w = [Ret (encode (SimpleString ''OK'')), Ret (encode (SimpleString ''OK''))]" "kv_map (kvstore (shared w)) = [''k'' \<mapsto> SimpleString ''a'']"
    using lone_crossed_writes by blast
  obtain dir where dir: "kv_writetofileFork (\<lambda>_. True) (kvstore lone_server) = Inr dir"
    using write_shards_all by (metis kv_writetofileFork_def)
  have "\<forall>r\<in>set (requests w). resp_ok (request_of r)" by (simp add: w(2) line_ok_def vector_max_size_def)
  then have "new_Server True dir (log_text (aof (shared w))) 0 8 ''10.0.0.1'' 7800 Map.empty = Inl no_slot \<or>
      (\<exists>s'. new_Server True dir (log_text (aof (shared w))) 0 8 ''10.0.0.1'' 7800 Map.empty = Inr s' \<and>
        kv_map (kvstore s') ''k'' = kv_map (kvstore (shared w)) ''k'')"
    by (intro concurrent_writes_restored [OF lone_server_clean _ dir _ w(1)]) (auto simp: log_text_def w(2,3))
  then show ?thesis using w(2,4) dir by (intro exI [of _ w] exI [of _ dir]) simp
qed



end
