(* ===== verification/Lock_Order.thy ===== *)
theory Lock_Order
  imports KV_Prelude
begin

text \<open>
  Threads and mutexes.  A program is the sequence of its lock operations; a thread has the locks it holds and
  what is left of its program.  A \<open>std::mutex\<close> is taken exclusively, a \<open>std::shared_mutex\<close> exclusively or shared.
  A thread that asks for a lock it already holds waits for itself.

  The locale \<open>ranked_programs\<close> is the discipline of a lock order: threads that run programs which take locks in
  increasing rank never stop one another.  A set of threads in which each waits for a lock that another one
  of the set holds is stopped for ever.
\<close>

section \<open>Threads\<close>

datatype 'l lock_op = Shared 'l | Exclusive 'l | Release 'l

record 'l Thread =
  held :: "('l \<times> bool) list"
  todo :: "'l lock_op list"

definition idle :: "'l Thread" where
  "idle = \<lparr>held = [], todo = []\<rparr>"

definition starting :: "'l lock_op list \<Rightarrow> 'l Thread" where
  "starting p = \<lparr>held = [], todo = p\<rparr>"

fun perform :: "'l lock_op \<Rightarrow> ('l \<times> bool) list \<Rightarrow> ('l \<times> bool) list" where
  "perform (Shared l) h = (l, False) # h"
| "perform (Exclusive l) h = (l, True) # h"
| "perform (Release l) h = filter (\<lambda>(m, _). m \<noteq> l) h"

text \<open>What the lock operation of thread \<open>i\<close> has to wait for.\<close>

fun conflicts :: "nat \<Rightarrow> 'l lock_op \<Rightarrow> nat \<Rightarrow> 'l Thread \<Rightarrow> bool" where
  "conflicts i (Shared l) j t \<longleftrightarrow> (l, True) \<in> set (held t) \<or> i = j \<and> (l, False) \<in> set (held t)"
| "conflicts i (Exclusive l) j t \<longleftrightarrow> l \<in> fst ` set (held t)"
| "conflicts i (Release l) j t \<longleftrightarrow> False"

definition lock_step :: "nat \<Rightarrow> 'l Thread list \<Rightarrow> 'l Thread list option" where
  "lock_step i ts =
     (if i \<ge> length ts then None
      else case todo (ts ! i) of
          [] \<Rightarrow> None
        | op # ops \<Rightarrow>
            if list_ex (\<lambda>j. conflicts i op j (ts ! j)) [0..<length ts] then None
            else Some (ts[i := \<lparr>held = perform op (held (ts ! i)), todo = ops\<rparr>]))"

fun lock_run :: "nat list \<Rightarrow> 'l Thread list \<Rightarrow> 'l Thread list option" where
  "lock_run [] ts = Some ts"
| "lock_run (i # is) ts = (case lock_step i ts of None \<Rightarrow> None | Some ts' \<Rightarrow> lock_run is ts')"

text \<open>Threads that have finished may begin another program.\<close>

inductive lock_reach :: "'l lock_op list set \<Rightarrow> 'l Thread list \<Rightarrow> 'l Thread list \<Rightarrow> bool" for P ts where
  Start: "lock_reach P ts ts"
| Step: "lock_reach P ts us \<Longrightarrow> lock_step i us = Some us' \<Longrightarrow> lock_reach P ts us'"
| Begin: "lock_reach P ts us \<Longrightarrow> i < length us \<Longrightarrow> todo (us ! i) = [] \<Longrightarrow> p \<in> P \<Longrightarrow> lock_reach P ts (us[i := (us ! i)\<lparr>todo := p\<rparr>])"

lemma lock_stepE:
  assumes "lock_step i ts = Some ts'"
  obtains op ops where "i < length ts" "todo (ts ! i) = op # ops" "\<forall>j < length ts. \<not> conflicts i op j (ts ! j)"
    "ts' = ts[i := \<lparr>held = perform op (held (ts ! i)), todo = ops\<rparr>]"
  using assms by (auto simp: lock_step_def list_ex_iff split: if_splits list.splits)

lemma lock_stepI:
  assumes "i < length ts" "todo (ts ! i) = op # ops" "\<forall>j < length ts. \<not> conflicts i op j (ts ! j)"
  shows "lock_step i ts = Some (ts[i := \<lparr>held = perform op (held (ts ! i)), todo = ops\<rparr>])"
  using assms by (auto simp: lock_step_def list_ex_iff)

section \<open>Stopped threads\<close>

definition stopped :: "nat set \<Rightarrow> 'l Thread list \<Rightarrow> bool" where
  "stopped S ts \<longleftrightarrow> (\<forall>i\<in>S. i < length ts \<and> (\<exists>op ops. todo (ts ! i) = op # ops \<and> (\<exists>j\<in>S. conflicts i op j (ts ! j))))"

lemma stopped_reach: "lock_reach P ts us \<Longrightarrow> stopped S ts \<Longrightarrow> stopped S us \<and> (\<forall>i\<in>S. us ! i = ts ! i)"
proof (induction rule: lock_reach.induct)
  case (Step us i us')
  from Step(2) obtain op ops where s: "i < length us" "todo (us ! i) = op # ops" "\<forall>j < length us. \<not> conflicts i op j (us ! j)"
      "us' = us[i := \<lparr>held = perform op (held (us ! i)), todo = ops\<rparr>]"
    by (rule lock_stepE)
  have "i \<notin> S"
  proof
    assume "i \<in> S"
    then obtain j where "j \<in> S" "conflicts i op j (us ! j)" using Step(3,4) s(2) by (auto simp: stopped_def)
    then show False using s(3) Step(3,4) by (auto simp: stopped_def)
  qed
  then have "us' ! j = us ! j" if "j \<in> S" for j using that s(4) by (metis nth_list_update_neq)
  then show ?case using Step(3,4) s(4) by (auto simp: stopped_def)
next
  case (Begin us i p)
  have "i \<notin> S" using Begin(3,5,6) by (auto simp: stopped_def)
  then have "us[i := (us ! i)\<lparr>todo := p\<rparr>] ! j = us ! j" if "j \<in> S" for j using that by (metis nth_list_update_neq)
  then show ?case using Begin(5,6) by (auto simp: stopped_def)
qed simp

section \<open>Lock order\<close>

text \<open>Locks are taken in increasing rank and given back before the end.\<close>

fun in_order :: "('l \<Rightarrow> nat) \<Rightarrow> ('l \<times> bool) list \<Rightarrow> 'l lock_op list \<Rightarrow> bool" where
  "in_order rank h [] \<longleftrightarrow> h = []"
| "in_order rank h (Release l # ops) \<longleftrightarrow> in_order rank (perform (Release l) h) ops"
| "in_order rank h (op # ops) \<longleftrightarrow> (\<forall>m\<in>fst ` set h. rank m < (case op of Shared l \<Rightarrow> rank l | Exclusive l \<Rightarrow> rank l)) \<and>
     in_order rank (perform op h) ops"

text \<open>A segment of a program that takes locks of rank at least \<open>r\<close> only, and gives back what it takes.\<close>

definition segment :: "('l \<Rightarrow> nat) \<Rightarrow> nat \<Rightarrow> 'l lock_op list \<Rightarrow> bool" where
  "segment rank r p \<longleftrightarrow> (\<forall>h q. (\<forall>m\<in>fst ` set h. rank m < r) \<longrightarrow> in_order rank h q \<longrightarrow> in_order rank h (p @ q))"

lemma segment_Nil [simp, intro]: "segment rank r []"
  by (simp add: segment_def)

lemma segment_append [intro]: "segment rank r p \<Longrightarrow> segment rank r q \<Longrightarrow> segment rank r (p @ q)"
  by (simp add: segment_def)

lemma segment_concat [intro]: "(\<And>p. p \<in> set ps \<Longrightarrow> segment rank r p) \<Longrightarrow> segment rank r (concat ps)"
  by (induction ps) auto

lemma segment_if [intro]: "(c \<Longrightarrow> segment rank r p) \<Longrightarrow> (\<not> c \<Longrightarrow> segment rank r q) \<Longrightarrow> segment rank r (if c then p else q)"
  by simp

lemma drop_held: "\<forall>m\<in>fst ` set h. rank m < rank l \<Longrightarrow> filter (\<lambda>(m, _). m \<noteq> l) h = h"
  for rank :: "'l \<Rightarrow> nat"
  by (induction h) auto

lemma segment_lock:
  assumes "segment rank (Suc (rank l)) p" "r \<le> rank l"
  shows "segment rank r (Exclusive l # p @ [Release l])" "segment rank r (Shared l # p @ [Release l])"
proof -
  have "in_order rank h (Exclusive l # p @ Release l # q)" "in_order rank h (Shared l # p @ Release l # q)"
    if h: "\<forall>m\<in>fst ` set h. rank m < r" and q: "in_order rank h q" for h q
  proof -
    have less: "\<forall>m\<in>fst ` set h. rank m < rank l" using h assms(2) by fastforce
    then have "\<forall>m\<in>fst ` set ((l, b) # h). rank m < Suc (rank l)" for b by auto
    moreover have "in_order rank ((l, b) # h) (Release l # q)" for b using q drop_held [OF less] by simp
    ultimately have "in_order rank ((l, b) # h) (p @ Release l # q)" for b
      using assms(1) [unfolded segment_def, rule_format, of "(l, b) # h" "Release l # q"] by metis
    with less show "in_order rank h (Exclusive l # p @ Release l # q)" "in_order rank h (Shared l # p @ Release l # q)" by simp_all
  qed
  then show "segment rank r (Exclusive l # p @ [Release l])" "segment rank r (Shared l # p @ [Release l])"
    by (auto simp: segment_def)
qed

lemma in_order_step: "in_order rank h (op # ops) \<Longrightarrow> in_order rank (perform op h) ops"
  by (cases op) auto

locale ranked_programs =
  fixes rank :: "'l \<Rightarrow> nat" and programs :: "'l lock_op list set"
  assumes ranked: "p \<in> programs \<Longrightarrow> segment rank 0 p"
begin

definition disciplined :: "'l Thread list \<Rightarrow> bool" where
  "disciplined ts \<longleftrightarrow> (\<forall>i < length ts. in_order rank (held (ts ! i)) (todo (ts ! i)))"

lemma disciplined_reach: "lock_reach programs ts us \<Longrightarrow> disciplined ts \<Longrightarrow> disciplined us"
proof (induction rule: lock_reach.induct)
  case (Step us i us')
  from Step(2) obtain op ops where s: "i < length us" "todo (us ! i) = op # ops" "us' = us[i := \<lparr>held = perform op (held (us ! i)), todo = ops\<rparr>]"
    by (rule lock_stepE)
  then have "in_order rank (held (us ! i)) (op # ops)" using Step(3,4) by (metis disciplined_def)
  then have "in_order rank (perform op (held (us ! i))) ops" by (rule in_order_step)
  then show ?case using Step(3,4) s(1,3) by (simp add: disciplined_def nth_list_update)
next
  case (Begin us i p)
  then have "held (us ! i) = []" by (metis disciplined_def in_order.simps(1))
  moreover have "in_order rank [] p" using ranked [OF Begin(4)] unfolding segment_def by (metis append_Nil2 in_order.simps(1) empty_iff image_empty list.set(1))
  ultimately show ?case using Begin by (simp add: disciplined_def nth_list_update)
qed simp

definition wanted :: "'l Thread \<Rightarrow> nat" where
  "wanted t = (case todo t of Shared l # _ \<Rightarrow> rank l | Exclusive l # _ \<Rightarrow> rank l | _ \<Rightarrow> 0)"

text \<open>A thread that waits, waits for a thread that is not finished and wants a lock of higher rank.\<close>

lemma waits_for_higher:
  assumes "disciplined ts" "i < length ts" "todo (ts ! i) \<noteq> []" "lock_step i ts = None"
  shows "\<exists>j < length ts. todo (ts ! j) \<noteq> [] \<and> (\<exists>op ops. todo (ts ! j) = op # ops \<and> ((\<exists>l. op = Release l) \<or> wanted (ts ! i) < wanted (ts ! j)))"
proof -
  obtain op ops where op: "todo (ts ! i) = op # ops" using assms(3) by (cases "todo (ts ! i)") auto
  then obtain j where j: "j < length ts" "conflicts i op j (ts ! j)" using assms(2,4) by (auto simp: lock_step_def list_ex_iff split: if_splits)
  obtain l where l: "l \<in> fst ` set (held (ts ! j))" "op = Shared l \<or> op = Exclusive l"
    using j(2) by (cases op) force+
  then have w: "wanted (ts ! i) = rank l" using op by (auto simp: wanted_def)
  have ord: "in_order rank (held (ts ! j)) (todo (ts ! j))" using assms(1) j(1) by (simp add: disciplined_def)
  then obtain op' ops' where op': "todo (ts ! j) = op' # ops'" using l(1) by (cases "todo (ts ! j)") auto
  have "(\<exists>l. op' = Release l) \<or> rank l < wanted (ts ! j)" using ord l(1) op' by (cases op') (auto simp: wanted_def)
  then show ?thesis using j(1) op' w by auto
qed

lemma somebody_moves:
  assumes "disciplined ts" "k < length ts" "todo (ts ! k) \<noteq> []"
  shows "\<exists>i ts'. lock_step i ts = Some ts'"
proof (rule ccontr)
  assume none: "\<not> ?thesis"
  let ?A = "{i. i < length ts \<and> todo (ts ! i) \<noteq> []}"
  have A: "finite ?A" "?A \<noteq> {}" using assms(2,3) by auto
  then have "Max ((\<lambda>i. wanted (ts ! i)) ` ?A) \<in> (\<lambda>i. wanted (ts ! i)) ` ?A" by (intro Max_in) auto
  then obtain i where i: "i \<in> ?A" "wanted (ts ! i) = Max ((\<lambda>i. wanted (ts ! i)) ` ?A)" by auto
  obtain j op ops where j: "j < length ts" "todo (ts ! j) = op # ops" "(\<exists>l. op = Release l) \<or> wanted (ts ! i) < wanted (ts ! j)"
    using waits_for_higher [OF assms(1), of i] i(1) none by fastforce
  then have "wanted (ts ! j) \<le> wanted (ts ! i)" using A(1) unfolding i(2) by (intro Max_ge) auto
  then obtain l where "op = Release l" using j(3) by auto
  then show False using lock_stepI [OF j(1,2)] none by auto
qed

text \<open>No reachable state of threads that follow the order is a deadlock.\<close>

lemma no_deadlock:
  assumes "lock_reach programs (replicate n idle) ts" "k < length ts" "todo (ts ! k) \<noteq> []"
  shows "\<exists>i ts'. lock_step i ts = Some ts'"
proof -
  have "disciplined (replicate n idle)" by (simp add: disciplined_def idle_def)
  then show ?thesis using somebody_moves disciplined_reach assms by blast
qed

end

end
