(* ===== verification/Server_Locks.thy ===== *)
theory Server_Locks
  imports Lock_Order Server_Loop
begin

text \<open>
  Which mutexes the threads of a server take, in which order.  Every function of \<open>util/Cluster.cpp\<close>,
  \<open>raft/RaftNode.cpp\<close>, \<open>kvstore/KVStore.cpp\<close>, \<open>server/Handler.cpp\<close> and \<open>server/Server.cpp\<close> that takes a lock has its
  sequence of lock operations; what the sequence depends on (the members of the tables, the role of a Raft
  node, the owner of a key) is an argument.  Between two lock operations of a thread other threads may move.

  The workers and the heartbeat thread follow one order: a shard before a Raft node, a Raft node before its
  file and before the connections, the connections before everything else.  The main loop takes the
  mutex of the message queue first and the others under it.
\<close>

section \<open>Locks\<close>

datatype lock = Shard_Lock nat | Mtx u64 | Disk_Mtx u64 | Connections_Lock | Fd_To_Uuid_Lock | Topo_Lock | Node_Hash_Lock
  | Heartbeat_Time_Lock | Gossip_Cache_Lock | Queue_Mutex | Raft_Queue_Mutex | Aof_Mut | Pool_Mutex

definition excl :: "lock \<Rightarrow> lock lock_op list" where
  "excl l = [Exclusive l, Release l]"

definition read :: "lock \<Rightarrow> lock lock_op list" where
  "read l = [Shared l, Release l]"

section \<open>The cluster\<close>

definition queryNode_locks :: "lock lock_op list" where
  "queryNode_locks = read Node_Hash_Lock"

definition delConnection_locks :: "u64 \<Rightarrow> Cluster \<Rightarrow> lock lock_op list" where
  "delConnection_locks uuid c = read Connections_Lock @ (if getConnection uuid c \<noteq> -1 then excl Fd_To_Uuid_Lock else []) @ excl Connections_Lock"

definition delTopoNode_locks :: "u64 \<Rightarrow> Cluster \<Rightarrow> lock lock_op list" where
  "delTopoNode_locks uuid c = delConnection_locks uuid c @ excl Topo_Lock @ excl Heartbeat_Time_Lock"

definition addConnection_locks :: "lock lock_op list" where
  "addConnection_locks = excl Connections_Lock @ excl Fd_To_Uuid_Lock"

definition updateHeartbeat_locks :: "int \<Rightarrow> Cluster \<Rightarrow> lock lock_op list" where
  "updateHeartbeat_locks fd c = read Fd_To_Uuid_Lock @ (if map_of (fd_to_uuid c) fd = None then [] else excl Heartbeat_Time_Lock)"

text \<open>The callbacks of the cluster put a message into the queue.\<close>

definition sendHeartbeats_locks :: "Cluster \<Rightarrow> lock lock_op list" where
  "sendHeartbeats_locks c = Shared Connections_Lock #
     concat (map (\<lambda>(uuid, fd). if fd = -1 then [] else excl Heartbeat_Time_Lock @ excl Queue_Mutex) (connections c)) @ [Release Connections_Lock]"

definition checkTimeouts_locks :: "u64 \<Rightarrow> Cluster \<Rightarrow> lock lock_op list" where
  "checkTimeouts_locks now c = read Heartbeat_Time_Lock @
     concat (map (\<lambda>uuid. excl Node_Hash_Lock @ delTopoNode_locks uuid c @ excl Queue_Mutex) (timed_out now c))"

definition heartbeat_locks :: "u64 \<Rightarrow> Cluster \<Rightarrow> lock lock_op list" where
  "heartbeat_locks now c = sendHeartbeats_locks c @ checkTimeouts_locks now c"

section \<open>Raft nodes\<close>

definition raft_send_locks :: "Cluster \<Rightarrow> u64 \<Rightarrow> lock lock_op list" where
  "raft_send_locks c target = read Connections_Lock @ (if getConnection target c = -1 then [] else excl Queue_Mutex)"

text \<open>\<open>step\<close>: \<open>appended\<close> entries go to the buffer of the file, messages to \<open>targets\<close> are sent.\<close>

definition step_locks :: "u64 \<Rightarrow> nat \<Rightarrow> u64 list \<Rightarrow> Cluster \<Rightarrow> lock lock_op list" where
  "step_locks gid appended targets c = Exclusive (Mtx gid) #
     (concat (replicate appended (excl (Disk_Mtx gid))) @ concat (map (raft_send_locks c) targets)) @ [Release (Mtx gid)]"

definition tick_locks :: "u64 \<Rightarrow> u64 list \<Rightarrow> Cluster \<Rightarrow> lock lock_op list" where
  "tick_locks gid targets c = excl (Disk_Mtx gid) @ Exclusive (Mtx gid) # concat (map (raft_send_locks c) targets) @ [Release (Mtx gid)]"

definition propose_locks :: "u64 \<Rightarrow> bool \<Rightarrow> u64 list \<Rightarrow> Cluster \<Rightarrow> lock lock_op list" where
  "propose_locks gid leader targets c = excl (Mtx gid) @
     (if leader then excl (Disk_Mtx gid) @ Exclusive (Mtx gid) # concat (map (raft_send_locks c) targets) @ [Release (Mtx gid)] else [])"

section \<open>Handlers\<close>

text \<open>\<open>SET\<close> and \<open>DEL\<close>: the owner of the key, the group with what its proposal does, the shard.\<close>

definition write_locks :: "bool \<Rightarrow> (u64 \<times> bool \<times> u64 list) option \<Rightarrow> nat \<Rightarrow> Cluster \<Rightarrow> lock lock_op list" where
  "write_locks master grp i c = queryNode_locks @
     (if \<not> master then queryNode_locks @ read Topo_Lock
      else queryNode_locks @ (case grp of None \<Rightarrow> [] | Some (gid, leader, targets) \<Rightarrow> propose_locks gid leader targets c) @
        excl Aof_Mut @ excl (Shard_Lock i))"

definition sendDataToNode_locks :: "bool list list \<Rightarrow> lock lock_op list" where
  "sendDataToNode_locks owned = read Connections_Lock @
     concat (map (\<lambda>(i, os). Shared (Shard_Lock i) #
         concat (map (\<lambda>own. queryNode_locks @ (if own then excl Queue_Mutex else [])) os) @ [Release (Shard_Lock i)])
       (zip [0..<length owned] owned)) @ excl Queue_Mutex"

definition broadcast_locks :: "Cluster \<Rightarrow> lock lock_op list" where
  "broadcast_locks c = read Connections_Lock @ concat (map (\<lambda>_. excl Queue_Mutex) (connections c))"

definition NODEIN_locks :: "bool \<Rightarrow> bool \<Rightarrow> bool list list \<Rightarrow> Cluster \<Rightarrow> lock lock_op list" where
  "NODEIN_locks known connected owned c = read Gossip_Cache_Lock @ (if known then []
     else excl Gossip_Cache_Lock @ broadcast_locks c @ read Connections_Lock @
       (if connected then excl Node_Hash_Lock @ excl Topo_Lock @ sendDataToNode_locks owned
        else excl Queue_Mutex @ excl Node_Hash_Lock @ excl Topo_Lock) @ excl Queue_Mutex)"

definition NODEOUT_locks :: "bool \<Rightarrow> u64 \<Rightarrow> Cluster \<Rightarrow> lock lock_op list" where
  "NODEOUT_locks known uuid c = read Gossip_Cache_Lock @ (if known then []
     else excl Gossip_Cache_Lock @ broadcast_locks c @ excl Node_Hash_Lock @ delTopoNode_locks uuid c @ delConnection_locks uuid c)"

definition handleRaft_locks :: "int \<Rightarrow> u64 \<Rightarrow> nat \<Rightarrow> u64 list \<Rightarrow> Cluster \<Rightarrow> lock lock_op list" where
  "handleRaft_locks fd gid appended targets c = updateHeartbeat_locks fd c @ read Fd_To_Uuid_Lock @ step_locks gid appended targets c"

text \<open>What a worker or the heartbeat thread may run: a handler with the queueing of its answer, the sending
  of data to a node, taking a task from the pool, a heartbeat round.\<close>

definition handler_locks :: "lock lock_op list set" where
  "handler_locks = {write_locks master grp i c | master grp i c. True} \<union> {excl (Shard_Lock i) | i. True} \<union>
     {NODEIN_locks known connected owned c | known connected owned c. True} \<union> {NODEOUT_locks known uuid c | known uuid c. True} \<union>
     {handleRaft_locks fd gid appended targets c | fd gid appended targets c. True} \<union> {updateHeartbeat_locks fd c | fd c. True} \<union>
     {addConnection_locks, read Topo_Lock, []}"

definition background_locks :: "lock lock_op list set" where
  "background_locks = (\<lambda>p. p @ excl Queue_Mutex) ` handler_locks \<union> handler_locks \<union> {sendDataToNode_locks owned | owned. True} \<union>
     {excl Pool_Mutex} \<union> {heartbeat_locks now c | now c. True}"

section \<open>The main loop\<close>

text \<open>What the queue holds: an order to connect, an order to rebuild the groups of so many nodes, a message.\<close>

datatype queued = Connect_To | Rebuild nat | Plain_Message

definition drain_locks :: "queued \<Rightarrow> lock lock_op list" where
  "drain_locks m = (case m of
     Connect_To \<Rightarrow> addConnection_locks @ excl Pool_Mutex
   | Rebuild n \<Rightarrow> read Topo_Lock @ concat (replicate n (excl Node_Hash_Lock))
   | Plain_Message \<Rightarrow> [])"

text \<open>One Raft group: the targets of its messages, and the shards of the entries to apply, if there are any.\<close>

definition raft_round_locks :: "Cluster \<Rightarrow> u64 \<times> u64 list \<times> nat list option \<Rightarrow> lock lock_op list" where
  "raft_round_locks c = (\<lambda>(gid, targets, pending). tick_locks gid targets c @
     (case pending of None \<Rightarrow> [] | Some is \<Rightarrow> excl (Mtx gid) @ concat (map (\<lambda>i. excl (Shard_Lock i)) is)))"

definition raft_queue_locks :: "Cluster \<Rightarrow> (u64 \<times> nat \<times> u64 list) list \<Rightarrow> lock lock_op list" where
  "raft_queue_locks c msgs = Exclusive Raft_Queue_Mutex #
     concat (map (\<lambda>(gid, appended, targets). Release Raft_Queue_Mutex # step_locks gid appended targets c @ [Exclusive Raft_Queue_Mutex]) msgs) @
     [Release Raft_Queue_Mutex]"

text \<open>A round of the loop: the requests read, what the two queues hold, the open connections to nodes, the groups.\<close>

record poll_round =
  requests_read :: nat
  drained :: "queued list"
  raft_queued :: "(u64 \<times> nat \<times> u64 list) list"
  alive_fds :: "int list"
  group_rounds :: "(u64 \<times> u64 list \<times> nat list option) list"

definition epoll_step_locks :: "poll_round \<Rightarrow> u64 \<Rightarrow> Cluster \<Rightarrow> lock lock_op list" where
  "epoll_step_locks r now c = concat (replicate (requests_read r) (excl Pool_Mutex)) @
     Exclusive Queue_Mutex #
     (concat (map drain_locks (drained r)) @ raft_queue_locks c (raft_queued r) @
      read Connections_Lock @ concat (map (\<lambda>fd. updateHeartbeat_locks fd c) (alive_fds r)) @
      checkTimeouts_locks now c @ concat (map (raft_round_locks c) (group_rounds r))) @ [Release Queue_Mutex]"

definition quiet_round :: poll_round where
  "quiet_round = \<lparr>requests_read = 0, drained = [], raft_queued = [], alive_fds = [5], group_rounds = []\<rparr>"

section \<open>The order of the workers\<close>

fun lock_rank :: "lock \<Rightarrow> nat" where
  "lock_rank (Shard_Lock i) = 0"
| "lock_rank (Mtx gid) = 0"
| "lock_rank Connections_Lock = 1"
| "lock_rank l = 2"

lemma segment_excl [simp]: "r \<le> lock_rank l \<Longrightarrow> segment lock_rank r (excl l)"
  using segment_lock(1) [of lock_rank l "[]" r] by (simp add: excl_def)

lemma segment_read [simp]: "r \<le> lock_rank l \<Longrightarrow> segment lock_rank r (read l)"
  using segment_lock(2) [of lock_rank l "[]" r] by (simp add: read_def)

lemmas cluster_lock_defs = queryNode_locks_def delConnection_locks_def delTopoNode_locks_def addConnection_locks_def updateHeartbeat_locks_def

lemma segment_cluster:
  "r \<le> 1 \<Longrightarrow> segment lock_rank r (delTopoNode_locks uuid c)" "r \<le> 1 \<Longrightarrow> segment lock_rank r (delConnection_locks uuid c)"
  "r \<le> 1 \<Longrightarrow> segment lock_rank r addConnection_locks" "r \<le> 2 \<Longrightarrow> segment lock_rank r (updateHeartbeat_locks fd c)"
  "r \<le> 2 \<Longrightarrow> segment lock_rank r queryNode_locks"
  by (auto simp: cluster_lock_defs intro!: segment_append segment_if)

lemma segment_heartbeat: "segment lock_rank 0 (heartbeat_locks now c)"
proof -
  have "segment lock_rank 2 (concat (map (\<lambda>(uuid, fd). if fd = -1 then [] else excl Heartbeat_Time_Lock @ excl Queue_Mutex) (connections c)))"
    by (auto intro!: segment_concat segment_append)
  then have "segment lock_rank 0 (sendHeartbeats_locks c)"
    unfolding sendHeartbeats_locks_def by (intro segment_lock) (simp_all add: numeral_2_eq_2)
  moreover have "segment lock_rank 0 (checkTimeouts_locks now c)"
    unfolding checkTimeouts_locks_def by (auto intro!: segment_append segment_concat segment_cluster)
  ultimately show ?thesis by (auto simp: heartbeat_locks_def)
qed

lemma segment_sends: "r \<le> 1 \<Longrightarrow> segment lock_rank r (concat (map (raft_send_locks c) targets))"
  by (auto simp: raft_send_locks_def intro!: segment_concat segment_append)

lemma segment_raft: "segment lock_rank 0 (step_locks gid appended targets c)" "segment lock_rank 0 (propose_locks gid leader targets c)"
proof -
  have "segment lock_rank (Suc (lock_rank (Mtx gid))) (concat (replicate appended (excl (Disk_Mtx gid))) @ concat (map (raft_send_locks c) targets))"
    by (auto intro!: segment_append segment_concat segment_sends)
  then show "segment lock_rank 0 (step_locks gid appended targets c)" unfolding step_locks_def by (intro segment_lock) simp_all
  have "segment lock_rank 0 (Exclusive (Mtx gid) # concat (map (raft_send_locks c) targets) @ [Release (Mtx gid)])"
    by (intro segment_lock segment_sends) simp_all
  then show "segment lock_rank 0 (propose_locks gid leader targets c)" unfolding propose_locks_def by (auto intro!: segment_append)
qed

lemma segment_sendData: "segment lock_rank 0 (sendDataToNode_locks owned)"
proof -
  have "segment lock_rank 0 (Shared (Shard_Lock i) # concat (map (\<lambda>own. queryNode_locks @ (if own then excl Queue_Mutex else [])) os) @ [Release (Shard_Lock i)])" for i os
    by (intro segment_lock) (auto intro!: segment_append segment_concat segment_cluster)
  then show ?thesis unfolding sendDataToNode_locks_def by (auto intro!: segment_append segment_concat)
qed

lemma segment_handlers: "p \<in> handler_locks \<Longrightarrow> segment lock_rank 0 p"
  by (auto simp: handler_locks_def write_locks_def NODEIN_locks_def NODEOUT_locks_def handleRaft_locks_def broadcast_locks_def
      intro!: segment_append segment_concat segment_cluster segment_raft segment_sendData split: option.split)

interpretation background: ranked_programs lock_rank background_locks
  by unfold_locales (auto simp: background_locks_def segment_handlers segment_sendData segment_heartbeat intro!: segment_append)

section \<open>The main loop against the order\<close>

text \<open>Two threads that can bring each other to a stop for ever, whatever other threads run.\<close>

definition deadlocks :: "lock lock_op list \<Rightarrow> lock lock_op list \<Rightarrow> bool" where
  "deadlocks p q \<longleftrightarrow> (\<exists>sched ts. lock_run sched [starting p, starting q] = Some ts \<and> todo (ts ! 0) \<noteq> [] \<and> todo (ts ! 1) \<noteq> [] \<and>
     (\<forall>P others us. lock_reach P (ts @ others) us \<longrightarrow> us ! 0 = ts ! 0 \<and> us ! 1 = ts ! 1))"

lemma deadlocksI:
  assumes "lock_run sched [starting p, starting q] = Some [\<lparr>held = h, todo = op # ops\<rparr>, \<lparr>held = h', todo = op' # ops'\<rparr>]"
    and "conflicts 0 op 1 \<lparr>held = h', todo = op' # ops'\<rparr>" "conflicts 1 op' 0 \<lparr>held = h, todo = op # ops\<rparr>"
  shows "deadlocks p q"
proof -
  let ?ts = "[\<lparr>held = h, todo = op # ops\<rparr>, \<lparr>held = h', todo = op' # ops'\<rparr>]"
  have "us ! 0 = ?ts ! 0 \<and> us ! 1 = ?ts ! 1" if "lock_reach P (?ts @ others) us" for P others us
  proof -
    have "stopped {0, 1} (?ts @ others)" using assms(2,3) by (auto simp: stopped_def)
    then show ?thesis using stopped_reach [OF that] by simp
  qed
  then show ?thesis using assms(1) unfolding deadlocks_def by (intro exI [of _ sched] exI [of _ ?ts]) auto
qed

definition pair_cluster :: Cluster where
  "pair_cluster = (new_Cluster 7)\<lparr>connections := [(8, 5)], fd_to_uuid := [(5, 8)]\<rparr>"

lemmas lock_eval = quiet_round_def raft_queue_locks_def lock_step_def starting_def excl_def read_def pair_cluster_def new_Cluster_def getConnection_def timed_out_def

lemma connect_deadlocks: "deadlocks (epoll_step_locks (quiet_round\<lparr>drained := [Connect_To]\<rparr>) now pair_cluster) (heartbeat_locks now' pair_cluster)"
  by (rule deadlocksI [where sched = "[1, 1, 1, 0]"],
      simp add: lock_eval epoll_step_locks_def heartbeat_locks_def sendHeartbeats_locks_def drain_locks_def addConnection_locks_def numeral_2_eq_2, simp, simp)

lemma raft_message_deadlocks:
  "deadlocks (epoll_step_locks (quiet_round\<lparr>group_rounds := [(gid, [], None)]\<rparr>) now pair_cluster) (handleRaft_locks 5 gid 0 [8] pair_cluster)"
  by (rule deadlocksI [where sched = "replicate 9 1 @ replicate 13 0"],
      simp add: lock_eval epoll_step_locks_def handleRaft_locks_def step_locks_def raft_send_locks_def updateHeartbeat_locks_def
      checkTimeouts_locks_def raft_round_locks_def tick_locks_def eval_nat_numeral, simp, simp)

lemma migration_deadlocks:
  "deadlocks (epoll_step_locks (quiet_round\<lparr>group_rounds := [(gid, [], Some [0])]\<rparr>) now pair_cluster) (sendDataToNode_locks [[True]])"
  by (rule deadlocksI [where sched = "replicate 5 1 @ replicate 17 0"],
      simp add: lock_eval epoll_step_locks_def sendDataToNode_locks_def queryNode_locks_def updateHeartbeat_locks_def
      checkTimeouts_locks_def raft_round_locks_def tick_locks_def eval_nat_numeral, simp, simp)

section \<open>Properties\<close>

text \<open>C18. Workers never stop one another: any number of workers and heartbeat threads that run handlers, send data
  and take tasks, in any interleaving and for all contents of the tables, never reach a state in which a
  thread has something left to do and no thread can move.\<close>

theorem workers_never_deadlock:
  assumes "lock_reach background_locks (replicate n idle) ts" "k < length ts" "todo (ts ! k) \<noteq> []"
  shows "\<exists>i ts'. lock_step i ts = Some ts'"
  using assms by (rule background.no_deadlock)

theorem workers_never_deadlock_witness:
  "\<exists>i ts'. lock_step i [starting (heartbeat_locks 0 pair_cluster), idle] = Some ts'"
proof -
  have "lock_reach background_locks (replicate 2 idle) ((replicate 2 idle)[0 := (replicate 2 idle ! 0)\<lparr>todo := heartbeat_locks 0 pair_cluster\<rparr>])"
    by (rule lock_reach.Begin [OF lock_reach.Start]) (auto simp: background_locks_def idle_def)
  then show ?thesis using workers_never_deadlock [of 2 "[starting (heartbeat_locks 0 pair_cluster), idle]" 0]
    by (simp add: numeral_2_eq_2 idle_def starting_def heartbeat_locks_def sendHeartbeats_locks_def)
qed

text \<open>C38. The main loop breaks the order: it takes the mutex of the message queue first and keeps it, so it can stop
  for ever together with a heartbeat round while it connects to a node, with a worker that answers a Raft
  message while it ticks the group, and with a worker that sends data to a node while it applies an entry.\<close>

theorem main_loop_breaks_lock_order:
  "deadlocks (epoll_step_locks (quiet_round\<lparr>drained := [Connect_To]\<rparr>) now pair_cluster) (heartbeat_locks now' pair_cluster) \<and>
   deadlocks (epoll_step_locks (quiet_round\<lparr>group_rounds := [(gid, [], None)]\<rparr>) now pair_cluster) (handleRaft_locks 5 gid 0 [8] pair_cluster) \<and>
   deadlocks (epoll_step_locks (quiet_round\<lparr>group_rounds := [(gid, [], Some [0])]\<rparr>) now pair_cluster) (sendDataToNode_locks [[True]])"
  using connect_deadlocks raft_message_deadlocks migration_deadlocks by blast

end
