(* ===== verification/Socket_Fds.thy ===== *)
theory Socket_Fds
  imports Loop_Properties
begin

text \<open>
  The class \<open>Socket\<close> of \<open>util/Socket.cpp\<close> with its construction, move and destruction, and the descriptors a
  server opens and closes.  The kernel knows which descriptors are open; it answers a request for a new
  one with a number that is not open.  Socket objects are named by numbers; an object that is destroyed
  has no value any more.  Closing a descriptor that is not open, or using an object that does not
  exist, has no result (\<open>None\<close>).
\<close>

section \<open>Socket objects\<close>

record Socket =
  sock_fd :: int
  sock_parser :: RespParser

record Descriptors =
  open_fds :: "int set"
  objects :: "nat \<rightharpoonup> Socket"

text \<open>What the kernel answers to \<open>accept\<close>; an error other than the two named has a text.\<close>

datatype accept_answer = Client int | Accept_EINTR | Accept_EAGAIN | Accept_Error string

text \<open>\<open>Socket::accept\<close>: the loop ends with a descriptor, with -1 when nobody is waiting, or with an exception.
  \<open>None\<close>: the kernel has not answered yet.\<close>

fun accept_loop :: "accept_answer list \<Rightarrow> int res option" where
  "accept_loop [] = None"
| "accept_loop (Client fd # as) = Some (Inr fd)"
| "accept_loop (Accept_EINTR # as) = accept_loop as"
| "accept_loop (Accept_EAGAIN # as) = Some (Inr (-1))"
| "accept_loop (Accept_Error e # as) = Some (Inl (Runtime_Error (''Accept error: '' @ e)))"

definition close_fd :: "int \<Rightarrow> Descriptors \<Rightarrow> Descriptors option" where
  "close_fd fd w = (if fd \<in> open_fds w then Some (w\<lparr>open_fds := open_fds w - {fd}\<rparr>) else None)"

definition open_fd :: "int \<Rightarrow> Descriptors \<Rightarrow> Descriptors" where
  "open_fd fd w = w\<lparr>open_fds := insert fd (open_fds w)\<rparr>"

text \<open>The constructor with a domain, a type and a protocol: \<open>r\<close> is what \<open>socket\<close> returns.\<close>

definition new_Socket :: "nat \<Rightarrow> string + int \<Rightarrow> Descriptors \<Rightarrow> Descriptors \<times> unit res" where
  "new_Socket ob r w = (case r of
     Inl e \<Rightarrow> (w, Inl (Runtime_Error (''Socket error: '' @ e)))
   | Inr fd \<Rightarrow> ((open_fd fd w)\<lparr>objects := (objects w)(ob \<mapsto> \<lparr>sock_fd = fd, sock_parser = new_RespParser\<rparr>)\<rparr>, Inr ()))"

text \<open>The private constructor from a descriptor.\<close>

definition Socket_of_fd :: "nat \<Rightarrow> int \<Rightarrow> Descriptors \<Rightarrow> Descriptors" where
  "Socket_of_fd ob fd w = w\<lparr>objects := (objects w)(ob \<mapsto> \<lparr>sock_fd = fd, sock_parser = new_RespParser\<rparr>)\<rparr>"

definition delete_Socket :: "nat \<Rightarrow> Descriptors \<Rightarrow> Descriptors option" where
  "delete_Socket ob w = (case objects w ob of
     None \<Rightarrow> None
   | Some s \<Rightarrow> (let w' = w\<lparr>objects := (objects w)(ob := None)\<rparr> in if sock_fd s \<noteq> -1 then close_fd (sock_fd s) w' else Some w'))"

text \<open>Moving leaves \<open>other\<close> without a descriptor and with a parser \<open>left\<close> in some valid state.\<close>

definition move_Socket :: "nat \<Rightarrow> nat \<Rightarrow> RespParser \<Rightarrow> Descriptors \<Rightarrow> Descriptors option" where
  "move_Socket ob other left w = (case objects w other of
     None \<Rightarrow> None
   | Some s \<Rightarrow> Some (w\<lparr>objects := (objects w)(other \<mapsto> \<lparr>sock_fd = -1, sock_parser = left\<rparr>, ob \<mapsto> s)\<rparr>))"

definition assign_Socket :: "nat \<Rightarrow> nat \<Rightarrow> RespParser \<Rightarrow> Descriptors \<Rightarrow> Descriptors option" where
  "assign_Socket ob other left w = (case (objects w ob, objects w other) of
     (Some s, Some t) \<Rightarrow>
       if ob = other then Some w
       else (case (if sock_fd s \<noteq> -1 then close_fd (sock_fd s) w else Some w) of
           None \<Rightarrow> None
         | Some w' \<Rightarrow> Some (w'\<lparr>objects := (objects w')(other \<mapsto> \<lparr>sock_fd = -1, sock_parser = left\<rparr>, ob \<mapsto> t)\<rparr>))
   | _ \<Rightarrow> None)"

text \<open>\<open>bind\<close>, \<open>connect\<close> and \<open>listen\<close> change no descriptor; their arguments are the answers of the system calls: whether
  \<open>inet_pton\<close> reads the address, whether \<open>getaddrinfo\<close> finds one, and an error text.\<close>

definition socket_bind :: "bool \<Rightarrow> string option \<Rightarrow> string \<Rightarrow> unit res" where
  "socket_bind valid_ip err addr =
     (if \<not> valid_ip then Inl (Runtime_Error (''Invalid IP address: '' @ addr))
      else case err of None \<Rightarrow> Inr () | Some e \<Rightarrow> Inl (Runtime_Error (''Bind error: '' @ e)))"

definition socket_connect :: "string + bool \<Rightarrow> string option \<Rightarrow> unit res" where
  "socket_connect found err = (case found of
     Inl e \<Rightarrow> Inl (Runtime_Error (''Gethost error: '' @ e))
   | Inr False \<Rightarrow> Inl (Runtime_Error ''Gethost error: no address found'')
   | Inr True \<Rightarrow> (case err of None \<Rightarrow> Inr () | Some e \<Rightarrow> Inl (Runtime_Error (''Connect error!!!: '' @ e))))"

definition socket_listen :: "string option \<Rightarrow> unit res" where
  "socket_listen err = (case err of None \<Rightarrow> Inr () | Some e \<Rightarrow> Inl (Runtime_Error (''Listen error: '' @ e)))"

text \<open>\<open>Socket::accept\<close> on object \<open>ob\<close> with the result in object \<open>new\<close>.\<close>

definition accept_Socket :: "nat \<Rightarrow> accept_answer list \<Rightarrow> Descriptors \<Rightarrow> (Descriptors \<times> unit res) option" where
  "accept_Socket new answers w = (case accept_loop answers of
     None \<Rightarrow> None
   | Some (Inl e) \<Rightarrow> Some (w, Inl e)
   | Some (Inr fd) \<Rightarrow> Some (Socket_of_fd new fd (if fd = -1 then w else open_fd fd w), Inr ()))"

section \<open>Ownership\<close>

text \<open>The kernel hands out descriptors that are not open; a new object has a fresh name.\<close>

definition fresh_fd :: "int \<Rightarrow> Descriptors \<Rightarrow> bool" where
  "fresh_fd fd w \<longleftrightarrow> fd \<ge> 0 \<and> fd \<notin> open_fds w"

inductive fd_step :: "Descriptors \<Rightarrow> Descriptors \<Rightarrow> bool" where
  Construct: "objects w ob = None \<Longrightarrow> (\<forall>fd. r = Inr fd \<longrightarrow> fresh_fd fd w) \<Longrightarrow> new_Socket ob r w = (w', x) \<Longrightarrow> fd_step w w'"
| Destroy: "delete_Socket ob w = Some w' \<Longrightarrow> fd_step w w'"
| Move: "objects w ob = None \<Longrightarrow> move_Socket ob other left w = Some w' \<Longrightarrow> fd_step w w'"
| Assign: "assign_Socket ob other left w = Some w' \<Longrightarrow> fd_step w w'"
| Accept: "objects w ob = None \<Longrightarrow> (\<forall>fd. Client fd \<in> set answers \<longrightarrow> fresh_fd fd w) \<Longrightarrow> accept_Socket ob answers w = Some (w', x) \<Longrightarrow> fd_step w w'"

definition no_descriptors :: Descriptors where
  "no_descriptors = \<lparr>open_fds = {}, objects = Map.empty\<rparr>"

text \<open>Every open descriptor has exactly one owner.\<close>

definition holdings :: "Descriptors \<Rightarrow> (nat \<times> int) set" where
  "holdings w = {(ob, fd). fd \<noteq> -1 \<and> (\<exists>s. objects w ob = Some s \<and> sock_fd s = fd)}"

definition owned :: "Descriptors \<Rightarrow> bool" where
  "owned w \<longleftrightarrow> snd ` holdings w = open_fds w \<and> inj_on snd (holdings w)"

lemma accept_loop_client: "accept_loop as = Some (Inr fd) \<Longrightarrow> fd = -1 \<or> Client fd \<in> set as"
  by (induction as rule: accept_loop.induct) auto

lemma holdings_simps:
  "objects w ob = None \<Longrightarrow> holdings (w\<lparr>objects := (objects w)(ob \<mapsto> s)\<rparr>) = (if sock_fd s = -1 then holdings w else insert (ob, sock_fd s) (holdings w))"
  "objects w ob = Some s \<Longrightarrow> holdings (w\<lparr>objects := (objects w)(ob := None)\<rparr>) = holdings w - {(ob, sock_fd s)}"
  "objects w other = Some s \<Longrightarrow> ob \<noteq> other \<Longrightarrow> (\<And>t. objects w ob = Some t \<Longrightarrow> sock_fd t = -1) \<Longrightarrow>
     holdings (w\<lparr>objects := (objects w)(other \<mapsto> \<lparr>sock_fd = -1, sock_parser = left\<rparr>, ob \<mapsto> s)\<rparr>) =
       (if sock_fd s = -1 then holdings w else insert (ob, sock_fd s) (holdings w - {(other, sock_fd s)}))"
  by (auto simp: holdings_def split: if_splits)

lemma holdings_open [simp]: "holdings (w\<lparr>open_fds := F\<rparr>) = holdings w"
  by (simp add: holdings_def)

lemma owned_holder: "owned w \<Longrightarrow> (ob, fd) \<in> holdings w \<Longrightarrow> fd \<in> open_fds w \<and> fd \<notin> snd ` (holdings w - {(ob, fd)})"
  by (force simp: owned_def inj_on_def)

lemma owned_less: "owned w \<Longrightarrow> (ob, fd) \<in> holdings w \<Longrightarrow> snd ` (holdings w - {(ob, fd)}) = open_fds w - {fd} \<and> inj_on snd (holdings w - {(ob, fd)})"
  using inj_on_image_set_diff [of snd "holdings w" "holdings w" "{(ob, fd)}"] by (auto simp: owned_def inj_on_diff)

lemma owned_new:
  assumes "owned w" "objects w ob = None" "sock_fd s \<noteq> -1 \<longrightarrow> fresh_fd (sock_fd s) w"
  shows "owned ((if sock_fd s = -1 then w else open_fd (sock_fd s) w)\<lparr>objects := (objects w)(ob \<mapsto> s)\<rparr>)"
proof -
  have "holdings ((open_fd fd w)\<lparr>objects := (objects w)(ob \<mapsto> s)\<rparr>) = holdings (w\<lparr>objects := (objects w)(ob \<mapsto> s)\<rparr>)" for fd
    by (simp add: holdings_def open_fd_def)
  then show ?thesis using assms holdings_simps(1) [OF assms(2), of s]
    by (auto simp: owned_def fresh_fd_def open_fd_def)
qed

lemma owned_delete:
  assumes "owned w" "objects w ob = Some s"
  shows "\<exists>w'. delete_Socket ob w = Some w' \<and> owned w'"
proof (cases "sock_fd s = -1")
  case True
  then have "holdings w - {(ob, sock_fd s)} = holdings w" by (auto simp: holdings_def)
  then show ?thesis using assms True holdings_simps(2) [OF assms(2)] by (simp add: delete_Socket_def owned_def)
next
  case False
  then have "(ob, sock_fd s) \<in> holdings w" using assms(2) by (simp add: holdings_def)
  then show ?thesis using False assms owned_holder [OF assms(1)] owned_less [OF assms(1)] holdings_simps(2) [OF assms(2)]
    by (simp add: delete_Socket_def close_fd_def owned_def)
qed

lemma owned_take:
  assumes "owned w" "objects w other = Some s" "ob \<noteq> other" "\<And>t. objects w ob = Some t \<Longrightarrow> sock_fd t = -1"
  shows "owned (w\<lparr>objects := (objects w)(other \<mapsto> \<lparr>sock_fd = -1, sock_parser = left\<rparr>, ob \<mapsto> s)\<rparr>)"
proof (cases "sock_fd s = -1")
  case True
  then show ?thesis using assms(1) holdings_simps(3) [OF assms(2-4)] by (simp add: owned_def)
next
  case False
  then have h: "(other, sock_fd s) \<in> holdings w" using assms(2) by (simp add: holdings_def)
  show ?thesis using False assms(1) owned_holder [OF assms(1) h] owned_less [OF assms(1) h] holdings_simps(3) [OF assms(2-4)]
    by (auto simp: owned_def)
qed

lemma owned_assign:
  assumes "owned w" "objects w ob = Some s" "objects w other = Some t"
  shows "\<exists>w'. assign_Socket ob other left w = Some w' \<and> owned w'"
proof (cases "ob = other")
  case True
  then show ?thesis using assms by (auto simp: assign_Socket_def)
next
  case False
  obtain w1 where w1: "delete_Socket ob w = Some w1" "owned w1" using owned_delete [OF assms(1,2)] by blast
  then have fields: "objects w1 = (objects w)(ob := None)"
    "open_fds w1 = (if sock_fd s \<noteq> -1 then open_fds w - {sock_fd s} else open_fds w)" "sock_fd s \<noteq> -1 \<Longrightarrow> sock_fd s \<in> open_fds w"
    using assms(2) by (auto simp: delete_Socket_def close_fd_def Let_def split: if_splits)
  have "owned (w1\<lparr>objects := (objects w1)(other \<mapsto> \<lparr>sock_fd = -1, sock_parser = left\<rparr>, ob \<mapsto> t)\<rparr>)"
    by (rule owned_take [OF w1(2)]) (use assms(3) fields(1) False in auto)
  moreover have "(objects w)(ob := None, other \<mapsto> a, ob \<mapsto> t) = (objects w)(other \<mapsto> a, ob \<mapsto> t)" for a using False by auto
  ultimately have "owned (w\<lparr>open_fds := open_fds w1, objects := (objects w)(other \<mapsto> \<lparr>sock_fd = -1, sock_parser = left\<rparr>, ob \<mapsto> t)\<rparr>)"
    using fields(1) by (simp add: owned_def holdings_def)
  then show ?thesis using assms False fields(2,3) by (auto simp: assign_Socket_def close_fd_def)
qed

lemma fd_step_owned: "fd_step w w' \<Longrightarrow> owned w \<Longrightarrow> owned w'"
proof (induction rule: fd_step.induct)
  case (Construct w ob r w' x)
  show ?case
  proof (cases r)
    case (Inr fd)
    then have "fresh_fd fd w" "fd \<noteq> -1" using Construct(2) by (auto simp: fresh_fd_def)
    then show ?thesis using owned_new [OF Construct(4,1), of "\<lparr>sock_fd = fd, sock_parser = new_RespParser\<rparr>"] Construct(3) Inr
      by (auto simp: new_Socket_def)
  qed (use Construct in \<open>auto simp: new_Socket_def\<close>)
next
  case (Destroy ob w w')
  then show ?case using owned_delete [of w ob] by (cases "objects w ob") (auto simp: delete_Socket_def)
next
  case (Move w ob other left w')
  then show ?case using owned_take [of w other _ ob left] by (fastforce simp: move_Socket_def split: option.splits)
next
  case (Assign ob other left w w')
  then obtain s t where "objects w ob = Some s" "objects w other = Some t" by (auto simp: assign_Socket_def split: option.splits)
  then show ?case using owned_assign [OF Assign(2), of ob s other t left] Assign(1) by auto
next
  case (Accept w ob answers w' x)
  then show ?case using owned_new [of w ob "\<lparr>sock_fd = fd, sock_parser = new_RespParser\<rparr>" for fd] accept_loop_client [of answers]
    by (fastforce simp: accept_Socket_def Socket_of_fd_def open_fd_def split: option.splits sum.splits if_splits)
qed

lemma owned_reach: "fd_step\<^sup>*\<^sup>* w w' \<Longrightarrow> owned w \<Longrightarrow> owned w'"
  by (induction rule: rtranclp_induct) (auto intro: fd_step_owned)

lemma owned_none: "owned no_descriptors"
  by (simp add: owned_def no_descriptors_def holdings_def)

section \<open>The descriptors of a server\<close>

definition check_call :: "string \<Rightarrow> string option \<Rightarrow> unit res" where
  "check_call text err = (case err of None \<Rightarrow> Inr () | Some e \<Rightarrow> Inl (Runtime_Error (text @ e)))"

text \<open>\<open>fcntl(fd, F_SETFL, 0)\<close>, whose result 0 is taken for the flags, and \<open>fcntl(fd, F_SETFL, flags | O_NONBLOCK)\<close>; then
  the descriptor is added to epoll.\<close>

record register_io =
  getfl_err :: "string option"
  setfl_err :: "string option"
  ctl_err :: "string option"

definition register_fd :: "register_io \<Rightarrow> unit res" where
  "register_fd io = bindE (check_call ''fcntl(F_GETFL) error: '' (getfl_err io)) (\<lambda>_.
     bindE (check_call ''fcntl(F_SETFL) error: '' (setfl_err io)) (\<lambda>_.
     check_call ''Epoll add error: '' (ctl_err io)))"

text \<open>\<open>Server::accept\<close>: \<open>tmp\<close> is the local socket, \<open>elem\<close> the element of \<open>connections\<close>.  For a descriptor without an element
  \<open>connections[fd]\<close> constructs a socket of its own, for which the kernel opens a descriptor (\<open>elem_r\<close>), and the
  assignment closes it again.  An exception destroys the local socket.\<close>

definition server_accept :: "nat \<Rightarrow> nat \<Rightarrow> accept_answer list \<Rightarrow> register_io \<Rightarrow> string + int \<Rightarrow> Descriptors \<Rightarrow> (Descriptors \<times> bool res) option" where
  "server_accept tmp elem answers io elem_r w = (case accept_Socket tmp answers w of
     None \<Rightarrow> None
   | Some (w, Inl e) \<Rightarrow> Some (w, Inl e)
   | Some (w, Inr _) \<Rightarrow>
       let leave = (\<lambda>r w. map_option (\<lambda>w. (w, r)) (delete_Socket tmp w)) in
       if sock_fd (the (objects w tmp)) = -1 then leave (Inr False) w
       else (case register_fd io of
           Inl e \<Rightarrow> leave (Inl e) w
         | Inr _ \<Rightarrow> (case (if objects w elem = None then new_Socket elem elem_r w else (w, Inr ())) of
               (w, Inl e) \<Rightarrow> leave (Inl e) w
             | (w, Inr _) \<Rightarrow> Option.bind (assign_Socket elem tmp new_RespParser w) (leave (Inr True)))))"

text \<open>The constructor of \<open>Server\<close> from the listening socket to the two descriptors without an owner, and what follows
  in it (\<open>restored\<close>: reading the snapshot and the log).  An exception destroys the listening socket, which is
  a member, but runs no destructor of the server.\<close>

record setup_io =
  sock_r :: "string + int"
  bind_err :: "string option"
  listen_err :: "string option"
  epoll_r :: "string + int"
  listen_io :: register_io
  event_r :: "string + int"
  event_ctl_err :: "string option"
  restored :: "unit res"

definition fd_call :: "string \<Rightarrow> string + int \<Rightarrow> int set \<Rightarrow> int set \<times> int res" where
  "fd_call text r F = (case r of Inl e \<Rightarrow> (F, Inl (Runtime_Error (text @ e))) | Inr fd \<Rightarrow> (insert fd F, Inr fd))"

definition server_setup :: "setup_io \<Rightarrow> int set \<Rightarrow> int set \<times> (int \<times> int \<times> int) res" where
  "server_setup io F = (case fd_call ''Socket error: '' (sock_r io) F of
     (F, Inl e) \<Rightarrow> (F, Inl e)
   | (F, Inr server_fd) \<Rightarrow>
       let unwind = (\<lambda>e F. (F - {server_fd}, Inl e)) in
       (case bindE (socket_bind True (bind_err io) ''0.0.0.0'') (\<lambda>_. socket_listen (listen_err io)) of
          Inl e \<Rightarrow> unwind e F
        | Inr _ \<Rightarrow> (case fd_call ''Epoll create error: '' (epoll_r io) F of
            (F, Inl e) \<Rightarrow> unwind e F
          | (F, Inr epoll_fd) \<Rightarrow> (case register_fd (listen_io io) of
              Inl e \<Rightarrow> unwind e F
            | Inr _ \<Rightarrow> (case fd_call ''Eventfd error: '' (event_r io) F of
                (F, Inl e) \<Rightarrow> unwind e F
              | (F, Inr eventfd_fd) \<Rightarrow>
                  (case bindE (check_call ''Epoll add eventfd error: '' (event_ctl_err io)) (\<lambda>_. restored io) of
                     Inl e \<Rightarrow> unwind e F
                   | Inr _ \<Rightarrow> (F, Inr (server_fd, epoll_fd, eventfd_fd))))))))"

text \<open>\<open>~Server\<close> and then the destructors of the members in the reverse order of their declaration: the Raft groups and
  the cluster go before the pool is joined, whose workers use them and write to \<open>eventfd_fd\<close>.\<close>

datatype teardown = Close_Epoll | Close_Eventfd | Join_Snapshot | Destroy_Groups | Destroy_Cluster | Join_Pool | Close_Listener | Close_Connections

definition teardown_order :: "teardown list" where
  "teardown_order = [Close_Epoll, Close_Eventfd, Join_Snapshot, Destroy_Groups, Destroy_Cluster, Join_Pool, Close_Listener, Close_Connections]"

definition teardown_step :: "int \<times> int \<times> int \<Rightarrow> int set \<Rightarrow> teardown \<Rightarrow> int set \<Rightarrow> int set" where
  "teardown_step fds conns d F = (case fds of (server_fd, epoll_fd, eventfd_fd) \<Rightarrow> (case d of
     Close_Epoll \<Rightarrow> F - {epoll_fd}
   | Close_Eventfd \<Rightarrow> F - {eventfd_fd}
   | Close_Listener \<Rightarrow> F - {server_fd}
   | Close_Connections \<Rightarrow> F - conns
   | _ \<Rightarrow> F))"

text \<open>\<open>wakeEpoll\<close> of a worker that is still running before step \<open>k\<close> of the destruction: is its descriptor open?\<close>

definition wake_hits_open_fd :: "int \<times> int \<times> int \<Rightarrow> int set \<Rightarrow> int set \<Rightarrow> nat \<Rightarrow> bool" where
  "wake_hits_open_fd fds conns F k \<longleftrightarrow> snd (snd fds) \<in> fold (teardown_step fds conns) (take k teardown_order) F"

section \<open>Properties\<close>

text \<open>C19. Descriptors have exactly one owner: whatever sequence of constructions, moves, assignments, accepts and
  destructions a program runs on socket objects, also when system calls fail, no destructor or assignment
  ever closes a descriptor that is not open, every open descriptor belongs to exactly one object, and
  when all objects are gone no descriptor is open.\<close>

theorem descriptors_have_one_owner:
  assumes "fd_step\<^sup>*\<^sup>* no_descriptors w"
  shows "(\<forall>ob s. objects w ob = Some s \<longrightarrow> delete_Socket ob w \<noteq> None) \<and>
    (\<forall>ob other s t left. objects w ob = Some s \<and> objects w other = Some t \<longrightarrow> assign_Socket ob other left w \<noteq> None) \<and>
    (\<forall>fd\<in>open_fds w. \<exists>!ob. \<exists>s. objects w ob = Some s \<and> sock_fd s = fd) \<and>
    (objects w = Map.empty \<longrightarrow> open_fds w = {})"
proof -
  have ok: "owned w" using owned_reach [OF assms owned_none] .
  have "\<exists>!ob. \<exists>s. objects w ob = Some s \<and> sock_fd s = fd" if "fd \<in> open_fds w" for fd
  proof -
    have "fd \<in> snd ` holdings w" using ok that by (simp add: owned_def)
    then obtain ob where ob: "(ob, fd) \<in> holdings w" by force
    moreover have "b = ob" if "objects w b = Some s" "sock_fd s = fd" for b s
    proof -
      have "(b, fd) \<in> holdings w" using that ob by (auto simp: holdings_def)
      then show ?thesis using ok ob inj_onD [of snd "holdings w" "(b, fd)" "(ob, fd)"] by (simp add: owned_def)
    qed
    ultimately show ?thesis by (auto simp: holdings_def)
  qed
  moreover have "open_fds w = {}" if "objects w = Map.empty" using ok that by (simp add: owned_def holdings_def)
  moreover have "delete_Socket ob w \<noteq> None" if "objects w ob = Some s" for ob s using owned_delete [OF ok that] by auto
  moreover have "assign_Socket ob other left w \<noteq> None" if "objects w ob = Some s" "objects w other = Some t" for ob other s t left
    using owned_assign [OF ok that, of left] by auto
  ultimately show ?thesis by blast
qed

theorem descriptors_have_one_owner_witness:
  "\<exists>w. fd_step\<^sup>*\<^sup>* no_descriptors w \<and> open_fds w = {5} \<and> delete_Socket 1 w \<noteq> None"
proof -
  let ?w = "no_descriptors\<lparr>open_fds := {5}, objects := [1 \<mapsto> \<lparr>sock_fd = 5, sock_parser = new_RespParser\<rparr>]\<rparr>"
  have "fd_step no_descriptors ?w"
    by (rule fd_step.Construct [of _ 1 "Inr 5"]) (simp_all add: new_Socket_def open_fd_def no_descriptors_def fresh_fd_def)
  then have "fd_step\<^sup>*\<^sup>* no_descriptors ?w" by simp
  moreover from this have "delete_Socket 1 ?w \<noteq> None" using descriptors_have_one_owner by fastforce
  ultimately show ?thesis by (intro exI [of _ ?w]) simp
qed

text \<open>C30. Accepting a connection is exception safe: on every path of \<open>Server::accept\<close> the descriptors keep their owners;
  it adds exactly the descriptor of the new connection, filed under its number, or, when nobody is waiting or
  a call fails, nothing.  It fails also if a second descriptor, for the empty socket that \<open>connections[fd]\<close>
  constructs, is not to be had.\<close>

theorem server_accept_exception_safe:
  assumes "owned w" "objects w tmp = None" "objects w elem = None" "tmp \<noteq> elem" "accept_loop answers = Some a"
    and "\<forall>fd. a = Inr fd \<and> fd \<noteq> -1 \<longrightarrow> fresh_fd fd w" "\<forall>fd'. elem_r = Inr fd' \<longrightarrow> fresh_fd fd' w \<and> a \<noteq> Inr fd'"
  shows "\<exists>w' r. server_accept tmp elem answers io elem_r w = Some (w', r) \<and> owned w' \<and>
    (case r of
       Inl e \<Rightarrow> w' = w
     | Inr False \<Rightarrow> w' = w \<and> a = Inr (-1)
     | Inr True \<Rightarrow> \<exists>fd. a = Inr fd \<and> w' = w\<lparr>open_fds := insert fd (open_fds w), objects := (objects w)(elem \<mapsto> \<lparr>sock_fd = fd, sock_parser = new_RespParser\<rparr>)\<rparr>) \<and>
    (\<forall>fd e. a = Inr fd \<and> fd \<noteq> -1 \<and> register_fd io = Inr () \<and> elem_r = Inl e \<longrightarrow> r = Inl (Runtime_Error (''Socket error: '' @ e)))"
proof (cases a)
  case (Inl e)
  then show ?thesis using assms(1,5) by (simp add: server_accept_def accept_Socket_def)
next
  case (Inr fd)
  have same: "(objects w)(tmp := None) = objects w" "w\<lparr>objects := objects w\<rparr> = w" using assms(2) by auto
  show ?thesis
  proof (cases "fd = -1")
    case True
    then show ?thesis using assms(1,2,5) Inr same
      by (simp add: server_accept_def accept_Socket_def Socket_of_fd_def delete_Socket_def)
  next
    case False
    have fd: "fd \<notin> open_fds w" "fd \<ge> 0" using assms(6) Inr False by (auto simp: fresh_fd_def)
    then have gone: "w\<lparr>open_fds := insert fd (open_fds w) - {fd}, objects := (objects w)(tmp := None)\<rparr> = w" using same by simp
    let ?s = "\<lparr>sock_fd = fd, sock_parser = new_RespParser\<rparr>"
    have new: "owned (w\<lparr>open_fds := insert fd (open_fds w), objects := (objects w)(elem \<mapsto> ?s)\<rparr>)"
      using owned_new [OF assms(1,3), of ?s] assms(6) Inr False by (simp add: open_fd_def)
    show ?thesis
    proof (cases "register_fd io")
      case (Inl e)
      then show ?thesis using assms(1,2,5) \<open>a = Inr fd\<close> False gone fd
        by (simp add: server_accept_def accept_Socket_def Socket_of_fd_def delete_Socket_def open_fd_def close_fd_def)
    next
      case reg: (Inr u)
      show ?thesis
      proof (cases elem_r)
        case (Inl e)
        then show ?thesis using assms(1-5) \<open>a = Inr fd\<close> False gone fd reg
          by (simp add: server_accept_def accept_Socket_def Socket_of_fd_def delete_Socket_def open_fd_def close_fd_def new_Socket_def)
      next
        case (Inr fd')
        then have fd': "fd' \<noteq> fd" "fd' \<notin> open_fds w" "fd' \<noteq> -1" using assms(7) \<open>a = Inr fd\<close> by (auto simp: fresh_fd_def)
        then have sets: "insert fd' (insert fd (open_fds w)) - {fd'} = insert fd (open_fds w)" by auto
        have objs: "(objects w)(elem \<mapsto> ?s, tmp := None) = (objects w)(elem \<mapsto> ?s)" using assms(2,4) by auto
        show ?thesis using Inr assms(2-5) \<open>a = Inr fd\<close> False fd reg fd' new
          by (simp add: server_accept_def accept_Socket_def Socket_of_fd_def delete_Socket_def open_fd_def close_fd_def new_Socket_def
              assign_Socket_def sets objs)
      qed
    qed
  qed
qed

theorem server_accept_exception_safe_witness:
  "\<exists>w'. server_accept 0 1 [Accept_EINTR, Client 5] \<lparr>getfl_err = None, setfl_err = None, ctl_err = None\<rparr> (Inl ''Too many open files'') no_descriptors =
     Some (w', Inl (Runtime_Error ''Socket error: Too many open files'')) \<and> w' = no_descriptors"
proof -
  let ?io = "\<lparr>getfl_err = None, setfl_err = None, ctl_err = None\<rparr>" and ?e = "''Too many open files''"
  have "register_fd ?io = Inr ()" by (simp add: register_fd_def check_call_def)
  moreover obtain w' r where "server_accept 0 1 [Accept_EINTR, Client 5] ?io (Inl ?e) no_descriptors = Some (w', r)"
      "case r of Inl e \<Rightarrow> w' = no_descriptors | Inr False \<Rightarrow> w' = no_descriptors \<and> (Inr 5 :: int res) = Inr (-1)
       | Inr True \<Rightarrow> \<exists>fd. (Inr 5 :: int res) = Inr fd \<and> w' = no_descriptors\<lparr>open_fds := insert fd (open_fds no_descriptors),
           objects := (objects no_descriptors)(1 \<mapsto> \<lparr>sock_fd = fd, sock_parser = new_RespParser\<rparr>)\<rparr>"
      "\<forall>fd e. (Inr 5 :: int res) = Inr fd \<and> fd \<noteq> -1 \<and> register_fd ?io = Inr () \<and> (Inl ?e :: string + int) = Inl e \<longrightarrow>
         r = Inl (Runtime_Error (''Socket error: '' @ e))"
    using server_accept_exception_safe [OF owned_none, of 0 1 "[Accept_EINTR, Client 5]" "Inr 5" "Inl ?e" ?io]
    by (auto simp: no_descriptors_def fresh_fd_def)
  ultimately show ?thesis by auto
qed

text \<open>What the constructor of the server leaves open: three descriptors if it succeeds; if it fails, the listening socket
  is closed but \<open>epoll_fd\<close> and \<open>eventfd_fd\<close>, if they were created, stay open.\<close>

theorem setup_descriptors:
  assumes "server_setup io F = (F', r)" "\<forall>fd. sock_r io = Inr fd \<longrightarrow> fd \<notin> F"
    and "\<forall>fd. sock_r io = Inr fd \<longrightarrow> epoll_r io \<noteq> Inr fd \<and> event_r io \<noteq> Inr fd"
  shows "case r of Inr (server_fd, epoll_fd, eventfd_fd) \<Rightarrow> F' = insert eventfd_fd (insert epoll_fd (insert server_fd F))
    | Inl e \<Rightarrow> F \<subseteq> F' \<and> F' - F \<subseteq> {fd. epoll_r io = Inr fd \<or> event_r io = Inr fd} \<and>
        (\<forall>fd server_fd. sock_r io = Inr server_fd \<and> bind_err io = None \<and> listen_err io = None \<and> epoll_r io = Inr fd \<longrightarrow> fd \<in> F')"
  using assms unfolding server_setup_def fd_call_def
  by (auto simp: Let_def socket_bind_def socket_listen_def split: sum.splits option.splits)

text \<open>A worker that is still running while the server is destroyed uses what is gone: when the pool is joined, the
  descriptor through which workers wake the main loop has been closed and may have been given to another
  file, and the groups and the cluster have been destroyed.\<close>

theorem pool_outlives_its_server:
  assumes "server_fd \<noteq> eventfd_fd" "epoll_fd \<noteq> eventfd_fd" "eventfd_fd \<in> F" "k < length teardown_order" "teardown_order ! k = Join_Pool"
  shows "wake_hits_open_fd (server_fd, epoll_fd, eventfd_fd) conns F 1 \<and> \<not> wake_hits_open_fd (server_fd, epoll_fd, eventfd_fd) conns F k \<and>
    {Destroy_Groups, Destroy_Cluster} \<subseteq> set (take k teardown_order)"
proof -
  have "k = 5" using assms(4,5) by (auto simp: teardown_order_def less_Suc_eq nth_Cons split: nat.splits)
  then show ?thesis using assms(1-3) by (simp add: wake_hits_open_fd_def teardown_order_def teardown_step_def)
qed

text \<open>An answer can reach the wrong client: the answer to a request waits in the queue under the number of its
  descriptor; if the client disconnects and the kernel gives the number to the next connection, the main
  loop sends the answer to the new client.\<close>

theorem answer_reaches_new_client:
  assumes "map_of (socks l) fd = Some p" "sorted_map (socks l)" "fd \<ge> 0" "out_queue (srv l) = [(text, fd)]"
    and "server_send (send_ios io 0) text = Inr (text, False)"
  shows "\<exists>l1 l2. foldE on_event l [Readable fd ([], Recv_Eof), Listening [fd]] = Inr l1 \<and> map_of (socks l1) fd = Some new_RespParser \<and>
    drain_queue io l1 = Inr l2 \<and> wire l2 = wire l @ [(fd, text)]"
proof -
  let ?l = "l\<lparr>socks := map_insert fd new_RespParser (map_erase fd (socks l))\<rparr>"
  have "foldE on_event l [Readable fd ([], Recv_Eof), Listening [fd]] = Inr ?l"
    using assms(1) by (simp add: on_event_def on_readable_def server_recv_def accept_socks_def)
  moreover have "map_of (socks ?l) fd = Some new_RespParser" by simp
  moreover have "\<exists>l2. drain_queue io ?l = Inr l2 \<and> wire l2 = wire l @ [(fd, text)]"
    using assms(3-5) by (simp add: drain_queue_def send_message_def send_to_def)
  ultimately show ?thesis by blast
qed

theorem answer_reaches_new_client_witness:
  "\<exists>l1 l2. foldE on_event (lone_loop\<lparr>socks := [(9, new_RespParser)], srv := (srv lone_loop)\<lparr>out_queue := [(''+OK'', 9)]\<rparr>\<rparr>)
       [Readable 9 ([], Recv_Eof), Listening [9]] = Inr l1 \<and>
     drain_queue \<lparr>polled = Polled [], send_ios = (\<lambda>_. ([Wrote 3], Send_Blocked)), connect_ios = (\<lambda>_. \<lparr>conn_fd = Inr 5, hello_io = ([], Send_Blocked), hello_reply = []\<rparr>), randoms = (\<lambda>_. 0), clock = 0\<rparr> l1 = Inr l2 \<and>
     wire l2 = [(9, ''+OK'')]"
proof -
  let ?l = "lone_loop\<lparr>socks := [(9, new_RespParser)], srv := (srv lone_loop)\<lparr>out_queue := [(''+OK'', 9)]\<rparr>\<rparr>"
  let ?io = "\<lparr>polled = Polled [], send_ios = (\<lambda>_. ([Wrote 3], Send_Blocked)), connect_ios = (\<lambda>_. \<lparr>conn_fd = Inr 5, hello_io = ([], Send_Blocked), hello_reply = []\<rparr>), randoms = (\<lambda>_. 0), clock = 0\<rparr>"
  have "map_of (socks ?l) 9 = Some new_RespParser" "sorted_map (socks ?l)" "out_queue (srv ?l) = [(''+OK'', 9)]"
    "server_send (send_ios ?io 0) ''+OK'' = Inr (''+OK'', False)" "wire ?l = []"
    by (simp_all add: sorted_map_def server_send_def eval_nat_numeral lone_loop_def)
  then show ?thesis using answer_reaches_new_client [of ?l 9 new_RespParser "''+OK''" ?io] by (metis append_Nil zero_le_numeral)
qed

end
