(* ===== verification/Data_Migration.thy ===== *)
theory Data_Migration
  imports Cluster_Join
begin

text \<open>
  Two servers: what one of them sends when a node joins or leaves, as bytes, and what the other one does with
  it.  The receiver reads the bytes with its parser and handles the requests one after the other, in their
  order.
\<close>

section \<open>The receiver\<close>

definition receive :: "(nat \<Rightarrow> nat) \<Rightarrow> int \<Rightarrow> u64 \<Rightarrow> int \<Rightarrow> string \<Rightarrow> Server \<Rightarrow> Server res" where
  "receive rand st now sock text b = bindE (append new_RespParser text) (\<lambda>p.
     foldE (\<lambda>b v. handleCommand rand st now sock v b) b (message_queue p))"

lemma receive_stream:
  assumes "list_all resp_ok vs"
  shows "receive rand st now sock (concat (map encode vs)) b = foldE (\<lambda>b v. handleCommand rand st now sock v b) b vs"
  using resp.run_stream [OF between_messages_new assms] by (auto simp: receive_def new_RespParser_def)

text \<open>A node that is loading refuses every \<open>SET\<close>.\<close>

lemma loading_refuses:
  assumes "syncing b"
  shows "\<exists>b'. foldE (\<lambda>b v. handleCommand rand st now sock v b) b (map set_request kvs) = Inr b' \<and>
    kvstore b' = kvstore b \<and> syncing b' \<and> pending_sync_nodes b' = pending_sync_nodes b"
  using assms
proof (induction kvs arbitrary: b)
  case (Cons e kvs)
  let ?b = "enqueue_msg (encode (Error ''LOADING server is syncing, please retry'')) sock b"
  have "handleCommand rand st now sock (set_request e) b = Inr ?b"
    using Cons.prems by (cases e) (simp add: handleCommand_def handle_def set_request_def)
  moreover have "syncing ?b" "kvstore ?b = kvstore b" "pending_sync_nodes ?b = pending_sync_nodes b"
    using Cons.prems by (simp_all add: enqueue_msg_def)
  ultimately show ?case using Cons.IH [of ?b] by auto
qed simp

text \<open>A node that owns the keys and has no group for them stores every \<open>SET\<close>, unless a table is exhausted.\<close>

lemma owner_stores:
  assumes "kv_ok (kvstore b)" "\<not> syncing b" "masterToGroup b = []" "cluster b = c"
    and "\<forall>(key, v)\<in>set kvs. isMasterFor c key = Inr True \<and> (\<exists>x. value_string v = Inr x)"
  shows "foldE (\<lambda>b v. handleCommand rand st now sock v b) b (map set_request kvs) = Inl no_slot \<or>
    (\<exists>b'. foldE (\<lambda>b v. handleCommand rand st now sock v b) b (map set_request kvs) = Inr b' \<and>
       kv_map (kvstore b') = apply_sets kvs (kv_map (kvstore b)))"
  using assms
proof (induction kvs arbitrary: b)
  case (Cons e kvs)
  obtain key v where e: "e = (key, v)" by (cases e)
  obtain x where x: "isMasterFor (cluster b) key = Inr True" "value_string v = Inr x" using Cons.prems(4,5) e by auto
  have p: "propose_for key cmd b = Inr b" for cmd
    using x(1) Cons.prems(3) by (auto simp: propose_for_def getGroupForKey_def isMasterFor_def bindE_Inr_iff)
  show ?case
  proof (cases "kv_set (kvstore b) key v")
    case (Inl err)
    then have "handleCommand rand st now sock (set_request e) b = Inl no_slot"
      using kv_set_fails [OF Cons.prems(1) Inl] x p Cons.prems(2)
      by (simp add: handleCommand_def handle_def set_request_def e SET_def request_elements_def aof_append_def encode_slots_def)
    then show ?thesis by simp
  next
    case (Inr r)
    then obtain kv ev where kv: "kv_set (kvstore b) key v = Inr (kv, ev)" by (cases r) auto
    let ?b = "enqueue_msg (encode (SimpleString ''OK'')) sock (b\<lparr>aof := aof_append_text st (encode (set_request e)) (aof b), kvstore := kv\<rparr>)"
    have "handleCommand rand st now sock (set_request e) b = Inr ?b"
      using SET_stores [OF x p kv, of st "SimpleString ''SET''"] Cons.prems(2)
      by (simp add: handleCommand_def handle_def set_request_def e del: encode_Array encode_SimpleString)
    moreover have "kv_ok kv" "kv_map kv = (kv_map (kvstore b))(key \<mapsto> v)" using kv_set_ok [OF Cons.prems(1) kv] by auto
    ultimately show ?thesis using Cons.IH [of ?b] Cons.prems e by (simp add: enqueue_msg_def del: fun_upd_apply)
  qed
qed simp

text \<open>A node that owns none of the keys answers every \<open>SET\<close> with a redirection.\<close>

lemma stranger_redirects:
  assumes "kv_ok (kvstore b)" "\<not> syncing b" "cluster b = c"
    and "\<forall>(key, v)\<in>set kvs. \<exists>owner. queryNode c key = Inr owner \<and> owner \<noteq> UUID (self_node c)"
  shows "\<exists>b'. foldE (\<lambda>b v. handleCommand rand st now sock v b) b (map set_request kvs) = Inr b' \<and> kvstore b' = kvstore b"
  using assms
proof (induction kvs arbitrary: b)
  case (Cons e kvs)
  obtain key v where e: "e = (key, v)" by (cases e)
  then obtain owner where o: "queryNode (cluster b) key = Inr owner" "owner \<noteq> UUID (self_node (cluster b))" using Cons.prems(3,4) by auto
  then obtain t where "handleCommand rand st now sock (set_request e) b = Inr (enqueue_msg t sock b)"
    using Cons.prems(2)
    by (simp add: handleCommand_def handle_def set_request_def e SET_def request_elements_def isMasterFor_def moved_reply_def Let_def)
  then show ?case using Cons.IH [of "enqueue_msg t sock b"] Cons.prems by (auto simp: enqueue_msg_def)
qed simp

section \<open>The sender\<close>

definition owned_by :: "Cluster \<Rightarrow> u64 \<Rightarrow> string \<times> RespValue \<Rightarrow> bool" where
  "owned_by c u = (\<lambda>(key, v). queryNode c key = Inr u)"

definition syncdone_request :: "Cluster \<Rightarrow> RespValue" where
  "syncdone_request c = Array (Some [SimpleString ''SYNCDONE'', SimpleString (to_string (unat (UUID (self_node c))))])"

lemma ring_answers: "sorted_map (node_hash c) \<Longrightarrow> node_hash c \<noteq> [] \<Longrightarrow> \<exists>u. queryNode c key = Inr u"
  using ring_query_hd [of "node_hash c"] by (auto simp: queryNode_def)

lemma send_entries_eq:
  assumes "sorted_map (node_hash (cluster a))" "node_hash (cluster a) \<noteq> []"
  shows "foldE (send_entry u fd) a kvs =
    Inr (a\<lparr>out_queue := out_queue a @ map (\<lambda>e. (encode (set_request e), fd)) (filter (owned_by (cluster a) u) kvs)\<rparr>)"
  using assms
proof (induction kvs arbitrary: a)
  case (Cons e kvs)
  obtain key v where e: "e = (key, v)" by (cases e)
  obtain owner where o: "queryNode (cluster a) key = Inr owner" using ring_answers [OF Cons.prems] by blast
  have "send_entry u fd a e = Inr (if owner = u then enqueue_msg (encode (set_request e)) fd a else a)"
    unfolding e send_entry_def prod.case o bindE_simps handover_set_text by simp
  then show ?case using Cons.IH [of a] Cons.IH [of "enqueue_msg (encode (set_request e)) fd a"] Cons.prems o
    by (simp add: owned_by_def e enqueue_msg_def)
qed simp

lemma sendDataToNode_eq:
  assumes "sorted_map (node_hash (cluster a))" "node_hash (cluster a) \<noteq> []" "getConnection u (cluster a) = fd" "fd \<noteq> -1"
  shows "sendDataToNode u a = Inr (a\<lparr>out_queue := out_queue a @
    map (\<lambda>e. (encode (set_request e), fd)) (filter (owned_by (cluster a) u) (kv_entries (kvstore a))) @ [(encode (syncdone_request (cluster a)), fd)]\<rparr>)"
proof -
  have "''*2'' @ crlf @ ''+SYNCDONE'' @ crlf @ ''+'' @ to_string (unat (UUID (self_node c))) @ crlf = encode (syncdone_request c)" for c
    by (simp add: syncdone_request_def to_string.simps [of 2] numeral_2_eq_2 [symmetric])
  then show ?thesis using send_entries_eq [OF assms(1,2), of u fd] assms(3,4)
    by (simp add: sendDataToNode_def Let_def enqueue_msg_def del: encode_Array)
qed

lemma syncdone_ok: "resp_ok (syncdone_request c)"
  by (simp add: syncdone_request_def line_ok_def vector_max_size_def)

lemma syncdone_handled:
  assumes "syncing b" "pending_sync_nodes b = 1"
  shows "handleCommand rand st now sock (syncdone_request c) b = Inr (b\<lparr>pending_sync_nodes := 0, syncing := False\<rparr>)"
  using assms by (simp add: handleCommand_def handle_def syncdone_request_def SYNCDONE_def request_elements_def onSyncDone_def Let_def)

text \<open>What a leaving node sends, exactly.\<close>

definition new_owner :: "Cluster \<Rightarrow> string \<Rightarrow> u64" where
  "new_owner c key = projr (queryNode c key)"

definition handed_over :: "Cluster \<Rightarrow> string \<times> RespValue \<Rightarrow> bool" where
  "handed_over c = (\<lambda>(key, v). new_owner c key \<noteq> UUID (self_node c) \<and> getConnection (new_owner c key) c \<noteq> -1)"

lemma handover_eq:
  assumes "sorted_map (node_hash c)" "node_hash c \<noteq> []"
  shows "foldE (handover c) outs kvs =
    Inr (outs @ map (\<lambda>e. (getConnection (new_owner c (fst e)) c, encode (set_request e))) (filter (handed_over c) kvs))"
proof (induction kvs arbitrary: outs)
  case (Cons e kvs)
  obtain key v where e: "e = (key, v)" by (cases e)
  obtain owner where o: "queryNode c key = Inr owner" using ring_answers [OF assms] by blast
  have "handover c outs e = Inr (if handed_over c e then outs @ [(getConnection (new_owner c key) c, encode (set_request e))] else outs)"
    unfolding e handover_def prod.case o bindE_simps handover_set_text by (simp add: handed_over_def new_owner_def o Let_def)
  then show ?case using Cons.IH by (simp add: e)
qed simp

definition nodeout_request :: "u64 \<Rightarrow> u64 \<Rightarrow> RespValue" where
  "nodeout_request gossip u = Array (Some [SimpleString ''NODEOUT'', SimpleString (to_string (unat gossip)), SimpleString (to_string (unat u))])"

lemma nodeout_encode: "nodeout_text gossip c = encode (nodeout_request gossip (UUID (self_node c)))"
  by (simp add: nodeout_text_def nodeout_request_def to_string.simps [of 3] numeral_3_eq_3 [symmetric])

lemma nodeout_ok: "resp_ok (nodeout_request gossip u)"
  by (simp add: nodeout_request_def line_ok_def vector_max_size_def)

lemma filter_key: "distinct (map fst m) \<Longrightarrow> map_of m k = Some v \<Longrightarrow> filter (\<lambda>x. fst x = k) m = [(k, v)]"
proof (induction m)
  case (Cons x m)
  then show ?case by (cases x) (auto simp: filter_empty_conv image_iff split: if_splits)
qed simp

text \<open>What arrives at the node \<open>u\<close>, whose connection has the descriptor \<open>fd\<close>.\<close>

definition sent_to :: "int \<Rightarrow> (int \<times> string) list \<Rightarrow> string" where
  "sent_to fd outs = concat (map snd (filter (\<lambda>m. fst m = fd) outs))"

lemma leaving_sends:
  assumes "cluster_ok c" "u \<noteq> UUID (self_node c)" "map_of (connections c) u = Some fd" "fd \<noteq> -1"
    and "\<forall>(w, f)\<in>set (connections c). f = fd \<longrightarrow> w = u"
    and "c' = delTopoNode (UUID (self_node c)) (delNodeToHash (UUID (self_node c)) (addGossip now gossip c))" "node_hash c' \<noteq> []"
    and "c = cluster (srv l)"
  shows "\<exists>l' outs. gracefulShutdown now gossip l = Inr (l', outs) \<and> cluster (srv l') = c' \<and>
    sent_to fd outs = concat (map encode (nodeout_request gossip (UUID (self_node c)) #
      map set_request (filter (\<lambda>(key, v). new_owner c' key = u) (kv_entries (kvstore (srv l))))))"
proof -
  let ?self = "UUID (self_node c)" and ?g = "addGossip now gossip c" and ?kvs = "kv_entries (kvstore (srv l))"
  let ?req = "nodeout_request gossip ?self"
  have frame: "self_node ?g = self_node c" "connections ?g = connections c" "self_node c' = self_node c" "node_hash c' = node_hash (delNodeToHash ?self c)"
    unfolding assms(6) by (rule leave_frame)+
  have conns: "connections c' = map_erase ?self (connections c)"
    by (simp add: assms(6) delTopoNode_def delConnection_def delNodeToHash_def frame(2) Let_def)
  have sorted: "sorted_map (connections c)" "sorted_map (node_hash c')"
    using assms(1) unfolding frame(4) by (simp_all add: cluster_ok_def delNodeToHash_def)
  have conn: "getConnection w c' = fd \<longleftrightarrow> w = u" for w
  proof
    assume "getConnection w c' = fd"
    then have "map_of (connections c) w = Some fd"
      using assms(4) sorted(1) by (auto simp: getConnection_def conns split: option.splits if_splits)
    then show "w = u" using assms(5) map_of_SomeD by fastforce
  qed (use assms(2,3) sorted(1) in \<open>simp add: getConnection_def conns\<close>)
  let ?outs = "map (\<lambda>(uuid, fd). (fd, encode ?req)) (filter (\<lambda>(uuid, fd). uuid \<noteq> ?self) (connections c))"
  let ?sets = "map (\<lambda>e. (getConnection (new_owner c' (fst e)) c', encode (set_request e))) (filter (handed_over c') ?kvs)"
  have "gracefulShutdown now gossip l = Inr (l\<lparr>srv := (srv l)\<lparr>cluster := c'\<rparr>\<rparr>, ?outs @ ?sets)"
    using handover_eq [OF sorted(2) assms(7), of ?outs ?kvs] assms(6,8) frame(1,2)
    by (simp add: gracefulShutdown_def Let_def nodeout_encode del: encode_Array)
  moreover have "sent_to fd ?outs = encode ?req"
  proof -
    have "filter (\<lambda>(w, f). f = fd \<and> w \<noteq> ?self) (connections c) = filter (\<lambda>x. fst x = u) (connections c)"
    proof (rule filter_cong)
      fix x assume "x \<in> set (connections c)"
      moreover from this have "map_of (connections c) (fst x) = Some (snd x)"
        using map_of_is_SomeI [of "connections c" "fst x" "snd x"] sorted(1) by (simp add: sorted_map_def strict_sorted_iff)
      ultimately show "(case x of (w, f) \<Rightarrow> f = fd \<and> w \<noteq> ?self) = (fst x = u)" using assms(2,3,5) by (cases x) auto
    qed simp
    moreover have "filter (\<lambda>x. fst x = u) (connections c) = [(u, fd)]"
      using filter_key [OF _ assms(3)] sorted(1) by (simp add: sorted_map_def strict_sorted_iff)
    ultimately have "filter (\<lambda>m. fst m = fd) ?outs = [(fd, encode ?req)]"
      by (simp add: filter_map o_def case_prod_unfold conj_commute)
    then show ?thesis by (simp add: sent_to_def del: encode_Array)
  qed
  moreover have "sent_to fd ?sets = concat (map encode (map set_request (filter (\<lambda>(key, v). new_owner c' key = u) ?kvs)))"
  proof -
    have "(fst x, snd x) = x \<Longrightarrow> (getConnection (new_owner c' (fst x)) c' = fd \<and> handed_over c' x) \<longleftrightarrow> new_owner c' (fst x) = u" for x
      using conn [of "new_owner c' (fst x)"] assms(2,4) frame(3) by (auto simp: handed_over_def case_prod_unfold)
    then show ?thesis by (simp add: sent_to_def filter_map o_def case_prod_unfold conj_commute)
  qed
  ultimately show ?thesis
    by (intro exI [of _ "l\<lparr>srv := (srv l)\<lparr>cluster := c'\<rparr>\<rparr>"] exI [of _ "?outs @ ?sets"]) (simp add: sent_to_def)
qed

lemma nodeout_handled:
  assumes "\<not> findGossip gossip (cluster b)"
  shows "\<exists>b'. handleCommand rand st now sock (nodeout_request gossip u) b = Inr b' \<and> kvstore b' = kvstore b \<and> syncing b' = syncing b \<and>
    masterToGroup b' = masterToGroup b \<and> self_node (cluster b') = self_node (cluster b) \<and>
    node_hash (cluster b') = ring_delNode (int_of_uuid u) (node_hash (cluster b))"
proof -
  have del: "node_hash (delConnection v c) = node_hash c" "self_node (delConnection v c) = self_node c"
    "node_hash (delTopoNode v c) = node_hash c" "self_node (delTopoNode v c) = self_node c" for v c
    by (simp_all add: delConnection_def delTopoNode_def Let_def)
  have "handle rand st now (nodeout_request gossip u) sock b = NODEOUT now (nodeout_request gossip u) b"
    by (simp add: handle_def nodeout_request_def)
  moreover obtain t where "NODEOUT now (nodeout_request gossip u) b =
      Inr (t\<lparr>cluster := delConnection (int_of_uuid u) (delTopoNode (int_of_uuid u) (delNodeToHash (int_of_uuid u) (cluster t)))\<rparr>, [])"
      "t = broadcast (nodeout_request gossip u) (b\<lparr>cluster := addGossip now gossip (cluster b)\<rparr>)"
    using assms by (simp add: NODEOUT_def nodeout_request_def request_elements_def numeral_2_eq_2 Let_def)
  ultimately show ?thesis
    by (simp add: handleCommand_def del) (simp add: delNodeToHash_def addGossip_def Let_def)
qed

lemma sets_applied:
  assumes "(key, v) \<in> set kvs" "distinct (map fst kvs)"
  shows "apply_sets kvs m key = Some v"
proof -
  have other: "apply_sets kvs m key = m key" if "key \<notin> fst ` set kvs" for m and kvs :: "(string \<times> RespValue) list"
    using that by (induction kvs arbitrary: m) auto
  show ?thesis using assms by (induction kvs arbitrary: m) (auto simp: other)
qed

text \<open>A store with one entry, and the request that carries it.\<close>

lemma one_entry_store: "\<exists>kv. kv_ok kv \<and> kv_map kv = [''k'' \<mapsto> SimpleString ''v'']"
proof -
  obtain kv ev where set: "kv_set (new_KVStore SHARD_COUNT) ''k'' (SimpleString ''v'') = Inr (kv, ev)"
    using new_store_set [of "''k''" "SimpleString ''v''"] by (auto simp: kv_update_def bindE_Inr_iff)
  then show ?thesis using kv_set_ok [OF kv.invar_new set] by (auto simp: new_KVStore_empty SHARD_COUNT_def)
qed

lemma one_entry_list:
  assumes "kv_ok kv" "kv_map kv = [key \<mapsto> v]"
  shows "set (kv_entries kv) = {(key, v)}"
  using entries_iff [OF assms(1)] assms(2) by (auto split: if_splits)

lemma set_request_small: "resp_ok (set_request (''k'', SimpleString ''v''))"
  by (simp add: set_request_def line_ok_def vector_max_size_def)

lemma shutdown_ring:
  assumes "gracefulShutdown now gossip l = Inr (l', outs)"
  shows "node_hash (cluster (srv l')) = ring_delNode (UUID (self_node (cluster (srv l)))) (node_hash (cluster (srv l)))"
proof -
  have "node_hash (cluster (srv l')) = node_hash (delNodeToHash (UUID (self_node (cluster (srv l)))) (cluster (srv l)))"
    using assms by (auto simp: gracefulShutdown_def Let_def bindE_Inr_iff leave_frame)
  then show ?thesis by (simp add: delNodeToHash_def)
qed

section \<open>Properties\<close>

text \<open>C39. A joining node refuses the data it is sent: every entry of a node that the ring gives to the joining node is
  sent to it as a \<open>SET\<close>, then the end is announced; but the joining node answers each \<open>SET\<close> with \<open>LOADING\<close>
  until it has heard the last announcement, and then serves its unchanged store, without the entries.\<close>

theorem migration_refused:
  assumes "kv_ok (kvstore a)" "sorted_map (node_hash (cluster a))" "node_hash (cluster a) \<noteq> []"
    and "getConnection u (cluster a) \<noteq> -1" "out_queue a = []" "\<forall>e\<in>set (kv_entries (kvstore a)). resp_ok (set_request e)"
    and "syncing b" "pending_sync_nodes b = 1"
  shows "\<exists>a' b'. sendDataToNode u a = Inr a' \<and>
    (\<forall>key v. kv_map (kvstore a) key = Some v \<and> queryNode (cluster a) key = Inr u \<longrightarrow>
      (encode (set_request (key, v)), getConnection u (cluster a)) \<in> set (out_queue a')) \<and>
    receive rand st now sock (concat (map fst (out_queue a'))) b = Inr b' \<and> \<not> syncing b' \<and> kvstore b' = kvstore b"
proof -
  let ?kvs = "filter (owned_by (cluster a) u) (kv_entries (kvstore a))" and ?fd = "getConnection u (cluster a)"
  obtain a' where a': "sendDataToNode u a = Inr a'"
      "out_queue a' = map (\<lambda>e. (encode (set_request e), ?fd)) ?kvs @ [(encode (syncdone_request (cluster a)), ?fd)]"
    using sendDataToNode_eq [OF assms(2,3) refl assms(4)] assms(5) by auto
  have ok: "list_all resp_ok (map set_request ?kvs @ [syncdone_request (cluster a)])"
    using assms(6) syncdone_ok by (auto simp: list_all_iff)
  have bytes: "concat (map fst (out_queue a')) = concat (map encode (map set_request ?kvs @ [syncdone_request (cluster a)]))"
    by (simp add: a'(2) o_def)
  obtain b1 where b1: "foldE (\<lambda>b v. handleCommand rand st now sock v b) b (map set_request ?kvs) = Inr b1"
      "kvstore b1 = kvstore b" "syncing b1" "pending_sync_nodes b1 = 1"
    using loading_refuses [OF assms(7)] assms(8) by metis
  have "receive rand st now sock (concat (map fst (out_queue a'))) b = Inr (b1\<lparr>pending_sync_nodes := 0, syncing := False\<rparr>)"
    unfolding bytes receive_stream [OF ok] foldE_append using b1(1) syncdone_handled [OF b1(3,4)] by simp
  moreover have "(encode (set_request (key, v)), ?fd) \<in> set (out_queue a')"
    if "kv_map (kvstore a) key = Some v" "queryNode (cluster a) key = Inr u" for key v
    using that entries_iff [OF assms(1), of key v] unfolding a'(2) by (auto simp: owned_by_def)
  ultimately show ?thesis using a'(1) b1(2) by auto
qed

theorem migration_refused_witness:
  "\<exists>kv a' b'. kv_map kv = [''k'' \<mapsto> SimpleString ''v''] \<and>
     sendDataToNode 8 (lone_server\<lparr>kvstore := kv, cluster := (cluster lone_server)\<lparr>node_hash := [(0, 8)], connections := [(8, 5)]\<rparr>\<rparr>) = Inr a' \<and>
     (encode (set_request (''k'', SimpleString ''v'')), 5) \<in> set (out_queue a') \<and>
     receive id 0 0 4 (concat (map fst (out_queue a'))) (lone_server\<lparr>syncing := True, pending_sync_nodes := 1\<rparr>) = Inr b' \<and>
     \<not> syncing b' \<and> kv_map (kvstore b') ''k'' = None"
proof -
  obtain kv where kv: "kv_ok kv" "kv_map kv = [''k'' \<mapsto> SimpleString ''v'']" using one_entry_store by blast
  let ?c = "(cluster lone_server)\<lparr>node_hash := [(0, 8)], connections := [(8, 5)]\<rparr>"
  let ?a = "lone_server\<lparr>kvstore := kv, cluster := ?c\<rparr>"
  have owner: "queryNode ?c key = Inr 8" for key by (simp add: queryNode_def ring_query_def lower_bound_def)
  have conn: "getConnection 8 ?c = 5" by (simp add: getConnection_def)
  have out: "out_queue ?a = []" by (simp add: lone_server_def idle_Server_def Let_def)
  have entries: "\<forall>e\<in>set (kv_entries kv). resp_ok (set_request e)" using one_entry_list [OF kv] set_request_small by auto
  then show ?thesis
    using migration_refused [of ?a 8 "lone_server\<lparr>syncing := True, pending_sync_nodes := 1\<rparr>" id 0 0 4] kv conn out owner
    by (auto simp: sorted_map_def new_KVStore_empty SHARD_COUNT_def)
qed



text \<open>A large identity loses the data of a departing node: from \<open>2 ^ 31\<close> on the remaining nodes do not take the
  leaving node off their ring, so each of them answers every entry it is handed with a redirection to the
  node that has left and stores nothing.\<close>

theorem departure_loses_data:
  assumes "kv_ok (kvstore (srv l))" "cluster_ok c" "c = cluster (srv l)" "2 ^ 31 \<le> unat (UUID (self_node c))" "unat (UUID (self_node c)) < 2 ^ 64 - 2 ^ 31"
    and "\<forall>(key, v)\<in>set (kv_entries (kvstore (srv l))). resp_ok (set_request (key, v)) \<and> queryNode c key = Inr (UUID (self_node c))"
    and "u = UUID (self_node (cluster b))" "u \<noteq> UUID (self_node c)" "map_of (connections c) u = Some fd" "fd \<noteq> -1"
    and "\<forall>(w, f)\<in>set (connections c). f = fd \<longrightarrow> w = u"
    and "ring_delNode (UUID (self_node c)) (node_hash c) \<noteq> []" "node_hash (cluster b) = node_hash c"
    and "ring_delNode (int_of_uuid (UUID (self_node c))) (node_hash c) = node_hash c"
    and "kv_ok (kvstore b)" "\<not> syncing b" "\<not> findGossip gossip (cluster b)"
  shows "\<exists>l' outs b'. gracefulShutdown now gossip l = Inr (l', outs) \<and> receive rand st now' sock (sent_to fd outs) b = Inr b' \<and> kvstore b' = kvstore b"
proof -
  let ?self = "UUID (self_node c)" and ?entries = "kv_entries (kvstore (srv l))"
  define c' where "c' = delTopoNode ?self (delNodeToHash ?self (addGossip now gossip c))"
  have ring: "node_hash c' = ring_delNode ?self (node_hash c)" unfolding c'_def leave_frame(4) by (simp add: delNodeToHash_def)
  define kvs where "kvs = filter (\<lambda>(key, v). new_owner c' key = u) ?entries"
  obtain l' outs where l': "gracefulShutdown now gossip l = Inr (l', outs)"
      "sent_to fd outs = concat (map encode (nodeout_request gossip ?self # map set_request kvs))"
    using leaving_sends [OF assms(2,8-11) c'_def _ assms(3)] assms(12) ring unfolding kvs_def by auto
  have ok: "list_all resp_ok (nodeout_request gossip ?self # map set_request kvs)"
    using assms(6) nodeout_ok by (auto simp: list_all_iff kvs_def)
  obtain b1 where b1: "handleCommand rand st now' sock (nodeout_request gossip ?self) b = Inr b1" "kvstore b1 = kvstore b"
      "\<not> syncing b1" "self_node (cluster b1) = self_node (cluster b)" "node_hash (cluster b1) = node_hash c"
    using nodeout_handled [OF assms(17), of rand st now' sock ?self] assms(13,14,16) by auto
  have "queryNode (cluster b1) key = queryNode c key" for key using b1(5) by (simp add: queryNode_def)
  then have "\<forall>(key, v)\<in>set kvs. \<exists>owner. queryNode (cluster b1) key = Inr owner \<and> owner \<noteq> UUID (self_node (cluster b1))"
    using assms(6,7,8) b1(4) by (auto simp: kvs_def)
  then obtain b' where "foldE (\<lambda>b v. handleCommand rand st now' sock v b) b1 (map set_request kvs) = Inr b'" "kvstore b' = kvstore b1"
    using stranger_redirects [OF _ b1(3) refl, of kvs rand st now' sock] assms(15) b1(2) by auto
  moreover have "receive rand st now' sock (sent_to fd outs) b = foldE (\<lambda>b v. handleCommand rand st now' sock v b) b1 (map set_request kvs)"
    unfolding l'(2) receive_stream [OF ok] using b1(1) by simp
  ultimately show ?thesis using l'(1) b1(2) by auto
qed

end
