(* ===== verification/Cluster_Gossip.thy ===== *)
theory Cluster_Gossip
  imports Data_Migration
begin

text \<open>
  A whole cluster: any number of servers, joined by connections, in which the announcement that a node
  leaves spreads.  A connection has two ends; \<open>link\<close> gives for the descriptor of a node the node and
  descriptor at the other end, or nothing when the peer has gone.  At each end there are the parser of the
  socket and the bytes that have been sent and not yet read.

  A step sends the first message of a queue, reads any number of the bytes that wait at a descriptor, or runs the
  handler of a message that has been read.  Messages of one connection may be handled in any order, since
  they go to different workers.  Each handler is one step; the network does not lose bytes.
\<close>

section \<open>The network\<close>

type_synonym endpoint = "u64 \<times> int"

record Net =
  servers :: "u64 \<Rightarrow> Server"
  chans :: "endpoint \<Rightarrow> RespParser \<times> string"

definition transmit :: "(endpoint \<rightharpoonup> endpoint) \<Rightarrow> endpoint \<Rightarrow> string \<Rightarrow> Net \<Rightarrow> Net" where
  "transmit link e text n = (case link e of
     None \<Rightarrow> n
   | Some d \<Rightarrow> n\<lparr>chans := (chans n)(d := (fst (chans n d), snd (chans n d) @ text))\<rparr>)"

inductive net_step :: "u64 set \<Rightarrow> (endpoint \<rightharpoonup> endpoint) \<Rightarrow> Net \<Rightarrow> Net \<Rightarrow> bool" for N link where
  Send: "i \<in> N \<Longrightarrow> out_queue (servers n i) = (text, fd) # q \<Longrightarrow> fd \<ge> 0 \<Longrightarrow>
    net_step N link n (transmit link (i, fd) text (n\<lparr>servers := (servers n)(i := (servers n i)\<lparr>out_queue := q\<rparr>)\<rparr>))"
| Deliver: "j \<in> N \<Longrightarrow> chans n (j, fd) = (p, bytes) \<Longrightarrow> 0 < k \<Longrightarrow> k \<le> length bytes \<Longrightarrow> append p (take k bytes) = Inr p' \<Longrightarrow>
    net_step N link n (n\<lparr>chans := (chans n)((j, fd) := (p', drop k bytes))\<rparr>)"
| Handle: "j \<in> N \<Longrightarrow> chans n (j, fd) = (p, bytes) \<Longrightarrow> message_queue p = us @ v # vs \<Longrightarrow>
    handleCommand rand st now fd v (servers n j) = Inr s \<Longrightarrow>
    net_step N link n (n\<lparr>servers := (servers n)(j := s), chans := (chans n)((j, fd) := (p\<lparr>message_queue := us @ vs\<rparr>, bytes))\<rparr>)"

inductive_cases net_stepE: "net_step N link n n'"

section \<open>What is on its way to a descriptor\<close>

definition chan_ok :: "RespParser \<times> string \<Rightarrow> bool" where
  "chan_ok ch = (case append (fst ch) (snd ch) of Inl _ \<Rightarrow> False | Inr q \<Rightarrow> between_messages q)"

definition incoming :: "RespParser \<times> string \<Rightarrow> RespValue list" where
  "incoming ch = (case append (fst ch) (snd ch) of Inl _ \<Rightarrow> [] | Inr q \<Rightarrow> message_queue q)"

lemma chan_okE:
  assumes "chan_ok (p, bytes)"
  obtains q where "append p bytes = Inr q" "between_messages q" "incoming (p, bytes) = message_queue q"
  using assms by (auto simp: chan_ok_def incoming_def split: sum.splits)

lemma chan_send:
  assumes "chan_ok ch" "resp_ok v"
  shows "chan_ok (fst ch, snd ch @ encode v) \<and> incoming (fst ch, snd ch @ encode v) = incoming ch @ [v]"
proof -
  obtain p bytes where ch: "ch = (p, bytes)" by (cases ch)
  obtain q where q: "append p bytes = Inr q" "between_messages q" "incoming ch = message_queue q"
    using assms(1) unfolding ch by (rule chan_okE)
  obtain q' where "append q (encode v) = Inr q'" "between_messages q'" "message_queue q' = message_queue q @ [v]"
    using resp.run_enc [OF q(2) assms(2)] by blast
  then show ?thesis using q by (simp add: ch chan_ok_def incoming_def append_append)
qed

lemma chan_deliver:
  assumes "chan_ok (p, bytes)"
  shows "\<exists>p'. append p (take k bytes) = Inr p' \<and> chan_ok (p', drop k bytes) \<and> incoming (p', drop k bytes) = incoming (p, bytes)"
proof -
  obtain q where q: "append p bytes = Inr q" "between_messages q" "incoming (p, bytes) = message_queue q"
    using assms by (rule chan_okE)
  then have "bindE (append p (take k bytes)) (\<lambda>p'. append p' (drop k bytes)) = Inr q"
    using append_append [of p "take k bytes" "drop k bytes"] by simp
  then obtain p' where "append p (take k bytes) = Inr p'" "append p' (drop k bytes) = Inr q" by (rule bindE_InrE)
  then show ?thesis using q by (auto simp: chan_ok_def incoming_def)
qed

lemma chan_handle:
  assumes "chan_ok (p, bytes)" "message_queue p = us @ v # vs"
  shows "\<exists>ws. chan_ok (p\<lparr>message_queue := us @ vs\<rparr>, bytes) \<and> incoming (p, bytes) = us @ v # vs @ ws \<and>
    incoming (p\<lparr>message_queue := us @ vs\<rparr>, bytes) = us @ vs @ ws"
proof -
  obtain q where q: "append p bytes = Inr q" "between_messages q" "incoming (p, bytes) = message_queue q"
    using assms(1) by (rule chan_okE)
  obtain ws where ws: "append (p\<lparr>message_queue := []\<rparr>) bytes = Inr (q\<lparr>message_queue := ws\<rparr>)" "message_queue q = message_queue p @ ws"
    using append_unqueue [OF q(1)] by blast
  have "append (p\<lparr>message_queue := us @ vs\<rparr>) bytes = Inr (q\<lparr>message_queue := (us @ vs) @ ws\<rparr>)"
    using append_requeue [of "us @ vs" "p\<lparr>message_queue := []\<rparr>" bytes] ws(1) by simp
  then show ?thesis using q ws(2) assms(2) by (simp add: chan_ok_def incoming_def between_messages_def)
qed

text \<open>As long as something is on its way to a descriptor, a step can be made there.\<close>

lemma incoming_ready:
  assumes "chan_ok (p, bytes)" "incoming (p, bytes) \<noteq> []"
  shows "bytes \<noteq> [] \<or> message_queue p \<noteq> []"
  using assms by (auto simp: incoming_def)

section \<open>The announcement at one node\<close>

lemma nodeout_known:
  assumes "findGossip g (cluster s)"
  shows "handleCommand rand st now fd (nodeout_request g u) s = Inr s"
  using assms by (simp add: handleCommand_def handle_def nodeout_request_def NODEOUT_def request_elements_def)

lemma nodeout_new:
  assumes "\<not> findGossip g (cluster s)" "unat u < 2 ^ 31"
  shows "\<exists>s'. handleCommand rand st now fd (nodeout_request g u) s = Inr s' \<and>
    out_queue s' = out_queue s @ map (\<lambda>(uuid, fd). (encode (nodeout_request g u), fd)) (connections (cluster s)) \<and>
    gossip_cache (cluster s') = gossip_cache (addGossip now g (cluster s)) \<and>
    node_hash (cluster s') = ring_delNode u (node_hash (cluster s)) \<and> kvstore s' = kvstore s"
proof -
  let ?r = "nodeout_request g u" and ?c = "addGossip now g (cluster s)"
  let ?s = "broadcast ?r (s\<lparr>cluster := ?c\<rparr>)"
  have "handleCommand rand st now fd ?r s =
      Inr (?s\<lparr>cluster := delConnection u (delTopoNode u (delNodeToHash u (cluster ?s)))\<rparr>)"
    using assms by (simp add: handleCommand_def handle_def nodeout_request_def NODEOUT_def request_elements_def numeral_2_eq_2 Let_def
        int_of_uuid_small del: encode_Array)
  moreover have "connections ?c = connections (cluster s)" "node_hash ?c = node_hash (cluster s)" by (simp_all add: addGossip_def Let_def)
  ultimately show ?thesis
    by (simp add: broadcast_queue del: encode_Array) (simp add: delConnection_def delTopoNode_def delNodeToHash_def Let_def)
qed

section \<open>The announcement in the cluster\<close>

definition knows :: "u64 \<Rightarrow> Net \<Rightarrow> u64 \<Rightarrow> bool" where
  "knows g n i \<longleftrightarrow> findGossip g (cluster (servers n i))"

text \<open>A message \<open>r\<close> is on its way to \<open>w\<close>.\<close>

definition coming :: "u64 set \<Rightarrow> (endpoint \<rightharpoonup> endpoint) \<Rightarrow> RespValue \<Rightarrow> Net \<Rightarrow> u64 \<Rightarrow> bool" where
  "coming N link r n w \<longleftrightarrow> (\<exists>fd. r \<in> set (incoming (chans n (w, fd)))) \<or>
     (\<exists>i\<in>N. \<exists>fd fd'. (encode r, fd) \<in> set (out_queue (servers n i)) \<and> link (i, fd) = Some (w, fd'))"

text \<open>The connections between the nodes that stay.\<close>

definition edges :: "u64 set \<Rightarrow> Net \<Rightarrow> (u64 \<times> u64) set" where
  "edges N n = {(i, w). i \<in> N \<and> w \<in> N \<and> w \<in> fst ` set (connections (cluster (servers n i)))}"

text \<open>The nodes \<open>N\<close> that stay have the ring \<open>R\<close> and have not heard of the announcement \<open>g\<close>; the node \<open>u\<close> has sent it to
  some of them and is gone, so its end of a connection leads nowhere.\<close>

definition departing :: "u64 set \<Rightarrow> (endpoint \<rightharpoonup> endpoint) \<Rightarrow> u64 \<Rightarrow> u64 \<Rightarrow> ring \<Rightarrow> Net \<Rightarrow> bool" where
  "departing N link g u R n \<longleftrightarrow> finite N \<and> finite (dom link) \<and> fst ` ran link \<subseteq> N \<and> u \<notin> N \<and> unat u < 2 ^ 31 \<and>
     (\<forall>i\<in>N. cluster_ok (cluster (servers n i)) \<and> node_hash (cluster (servers n i)) = R \<and> out_queue (servers n i) = [] \<and>
        length (gossip_cache (cluster (servers n i))) < GOSSIP_CACHE_SIZE \<and> \<not> knows g n i \<and>
        (\<forall>(w, fd)\<in>set (connections (cluster (servers n i))). fd \<ge> 0 \<and> (w \<in> N \<longrightarrow> (\<exists>fd'. link (i, fd) = Some (w, fd'))))) \<and>
     (\<forall>e. \<exists>k. chans n e = (new_RespParser, concat (replicate k (encode (nodeout_request g u)))) \<and> (e \<notin> ran link \<longrightarrow> k = 0))"

definition spreading :: "u64 set \<Rightarrow> (endpoint \<rightharpoonup> endpoint) \<Rightarrow> u64 \<Rightarrow> u64 \<Rightarrow> u64 set \<Rightarrow> Net \<Rightarrow> Net \<Rightarrow> bool" where
  "spreading N link g u S n0 n \<longleftrightarrow>
     (\<forall>i\<in>N. \<forall>(text, fd)\<in>set (out_queue (servers n i)). text = encode (nodeout_request g u) \<and> fd \<ge> 0) \<and>
     (\<forall>e. chan_ok (chans n e) \<and> set (incoming (chans n e)) \<subseteq> {nodeout_request g u}) \<and>
     (\<forall>e. e \<notin> ran link \<longrightarrow> chans n e = (new_RespParser, [])) \<and>
     (\<forall>i\<in>N. kvstore (servers n i) = kvstore (servers n0 i) \<and>
        (if knows g n i then node_hash (cluster (servers n i)) = ring_delNode u (node_hash (cluster (servers n0 i)))
         else cluster (servers n i) = cluster (servers n0 i))) \<and>
     (\<forall>w. w \<in> S \<or> (\<exists>i. knows g n i \<and> (i, w) \<in> edges N n0) \<longrightarrow> knows g n w \<or> coming N link (nodeout_request g u) n w)"

text \<open>Every message weighs its bytes and two steps more; a node that has not heard yet may still send to all.\<close>

definition load :: "u64 set \<Rightarrow> (endpoint \<rightharpoonup> endpoint) \<Rightarrow> u64 \<Rightarrow> nat \<Rightarrow> Net \<Rightarrow> Net \<Rightarrow> nat" where
  "load N link g W n0 n =
     (\<Sum>i\<in>N. W * (length (out_queue (servers n i)) + (if knows g n i then 0 else length (connections (cluster (servers n0 i)))))) +
     (\<Sum>e\<in>ran link. length (snd (chans n e)) + length (incoming (chans n e)))"

lemma departing_link:
  assumes "departing N link g u R n" "i \<in> N" "(w, fd) \<in> set (connections (cluster (servers n i)))"
  shows "fd \<ge> 0" "w \<in> N \<Longrightarrow> \<exists>fd'. link (i, fd) = Some (w, fd')"
proof -
  have "\<forall>(w, fd)\<in>set (connections (cluster (servers n i))). fd \<ge> 0 \<and> (w \<in> N \<longrightarrow> (\<exists>fd'. link (i, fd) = Some (w, fd')))"
    using assms(1,2) by (simp add: departing_def)
  then show "fd \<ge> 0" "w \<in> N \<Longrightarrow> \<exists>fd'. link (i, fd) = Some (w, fd')" using assms(3) by auto
qed

lemma sum_change:
  fixes f h :: "'a \<Rightarrow> nat"
  assumes "finite A" "a \<in> A" "\<And>k. k \<noteq> a \<Longrightarrow> f k = h k"
  shows "sum f A + h a = sum h A + f a"
proof -
  have "sum f (A - {a}) = sum h (A - {a})" using assms(3) by (intro sum.cong) auto
  then show ?thesis using sum.remove [OF assms(1,2), of f] sum.remove [OF assms(1,2), of h] by simp
qed

lemma sum_change_less:
  fixes f h :: "'a \<Rightarrow> nat"
  assumes "finite A" "a \<in> A" "\<And>k. k \<noteq> a \<Longrightarrow> f k = h k" "f a + d = h a"
  shows "sum f A + d = sum h A"
proof -
  have "sum f A + h a = sum h A + f a" using assms(1-3) by (rule sum_change)
  then show ?thesis using assms(4) by simp
qed

lemma spreadingD:
  assumes "spreading N link g u S n0 n"
  shows "i \<in> N \<Longrightarrow> (text, fd) \<in> set (out_queue (servers n i)) \<Longrightarrow> text = encode (nodeout_request g u) \<and> fd \<ge> 0"
    and "chan_ok (chans n e)" "v \<in> set (incoming (chans n e)) \<Longrightarrow> v = nodeout_request g u"
    and "e \<notin> ran link \<Longrightarrow> chans n e = (new_RespParser, [])"
    and "i \<in> N \<Longrightarrow> kvstore (servers n i) = kvstore (servers n0 i)"
    and "i \<in> N \<Longrightarrow> knows g n i \<Longrightarrow> node_hash (cluster (servers n i)) = ring_delNode u (node_hash (cluster (servers n0 i)))"
    and "i \<in> N \<Longrightarrow> \<not> knows g n i \<Longrightarrow> cluster (servers n i) = cluster (servers n0 i)"
    and "w \<in> S \<or> (\<exists>i. knows g n i \<and> (i, w) \<in> edges N n0) \<Longrightarrow> knows g n w \<or> coming N link (nodeout_request g u) n w"
proof -
  note inv = assms [unfolded spreading_def]
  show "i \<in> N \<Longrightarrow> (text, fd) \<in> set (out_queue (servers n i)) \<Longrightarrow> text = encode (nodeout_request g u) \<and> fd \<ge> 0" using inv by fast
  show "chan_ok (chans n e)" "v \<in> set (incoming (chans n e)) \<Longrightarrow> v = nodeout_request g u" using inv by blast+
  show "e \<notin> ran link \<Longrightarrow> chans n e = (new_RespParser, [])" using inv by blast
  show "i \<in> N \<Longrightarrow> kvstore (servers n i) = kvstore (servers n0 i)" using inv by blast
  show "i \<in> N \<Longrightarrow> knows g n i \<Longrightarrow> node_hash (cluster (servers n i)) = ring_delNode u (node_hash (cluster (servers n0 i)))"
    "i \<in> N \<Longrightarrow> \<not> knows g n i \<Longrightarrow> cluster (servers n i) = cluster (servers n0 i)" using inv by (simp_all (no_asm_use)) (meson+)
  show "w \<in> S \<or> (\<exists>i. knows g n i \<and> (i, w) \<in> edges N n0) \<Longrightarrow> knows g n w \<or> coming N link (nodeout_request g u) n w" using inv by blast
qed

text \<open>Sending and reading move messages without losing one.\<close>

lemma spreading_send:
  assumes "spreading N link g u S n0 n" "finite N" "finite (dom link)" "i \<in> N" "out_queue (servers n i) = (text, fd) # q"
    and "n' = transmit link (i, fd) text (n\<lparr>servers := (servers n)(i := (servers n i)\<lparr>out_queue := q\<rparr>)\<rparr>)"
    and "W = length (encode (nodeout_request g u)) + 2"
  shows "spreading N link g u S n0 n' \<and> load N link g W n0 n' < load N link g W n0 n"
proof -
  let ?r = "nodeout_request g u"
  note inv = spreadingD [OF assms(1)]
  have msg: "text = encode ?r" using inv(1) [OF assms(4)] assms(5) by auto
  have servers: "servers n' = (servers n)(i := (servers n i)\<lparr>out_queue := q\<rparr>)" by (simp add: assms(6) transmit_def split: option.split)
  have chans: "chans n' e = (if link (i, fd) = Some e then (fst (chans n e), snd (chans n e) @ encode ?r) else chans n e)" for e
    by (auto simp: assms(6) msg transmit_def split: option.split)
  have chan: "chan_ok (chans n' e)" "incoming (chans n' e) = incoming (chans n e) @ (if link (i, fd) = Some e then [?r] else [])" for e
    using chan_send [OF inv(2) nodeout_ok, of e g u] inv(2) by (auto simp: chans)
  have knows: "knows g n' k \<longleftrightarrow> knows g n k" for k by (simp add: knows_def servers)
  have coming: "coming N link ?r n' w" if c: "coming N link ?r n w" for w
  proof -
    consider fd' where "?r \<in> set (incoming (chans n (w, fd')))"
      | k fd1 fd' where "k \<in> N" "(encode ?r, fd1) \<in> set (out_queue (servers n k))" "link (k, fd1) = Some (w, fd')"
      using c by (auto simp: coming_def)
    then show ?thesis
    proof cases
      case 2
      show ?thesis
      proof (cases "k = i \<and> fd1 = fd")
        case True
        then show ?thesis using 2(3) by (auto simp: coming_def chan(2))
      next
        case False
        then have "(encode ?r, fd1) \<in> set (out_queue (servers n' k))" using 2(2) assms(5) by (auto simp: servers)
        then show ?thesis using 2(1,3) by (auto simp: coming_def)
      qed
    qed (auto simp: coming_def chan(2))
  qed
  have "spreading N link g u S n0 n'"
    unfolding spreading_def
  proof (intro conjI ballI allI impI)
    show "case x of (text, fd) \<Rightarrow> text = encode ?r \<and> fd \<ge> 0" if "k \<in> N" "x \<in> set (out_queue (servers n' k))" for k x
    proof -
      have "x \<in> set (out_queue (servers n k))" using that(2) assms(5) by (auto simp: servers split: if_splits)
      then show ?thesis using inv(1) [OF that(1), of "fst x" "snd x"] by (simp add: case_prod_unfold)
    qed
    show "set (incoming (chans n' e)) \<subseteq> {?r}" for e using inv(3) [of _ e] by (auto simp: chan(2))
    show "chans n' e = (new_RespParser, [])" if "e \<notin> ran link" for e using inv(4) [OF that] that by (auto simp: chans ran_def)
    show "kvstore (servers n' k) = kvstore (servers n0 k)" if "k \<in> N" for k using inv(5) [OF that] by (auto simp: servers)
    show "if knows g n' k then node_hash (cluster (servers n' k)) = ring_delNode u (node_hash (cluster (servers n0 k)))
        else cluster (servers n' k) = cluster (servers n0 k)" if "k \<in> N" for k
      using inv(6,7) [OF that] by (simp add: knows) (auto simp: servers)
    show "knows g n' w \<or> coming N link ?r n' w" if "w \<in> S \<or> (\<exists>i. knows g n' i \<and> (i, w) \<in> edges N n0)" for w
      using inv(8) that coming by (auto simp: knows)
  qed (simp add: chan)
  moreover have "load N link g W n0 n' < load N link g W n0 n"
  proof -
    let ?f = "\<lambda>n i. W * (length (out_queue (servers n i)) + (if knows g n i then 0 else length (connections (cluster (servers n0 i)))))"
    let ?h = "\<lambda>n e. length (snd (chans n e)) + length (incoming (chans n e))"
    have "sum (?f n') N + W = sum (?f n) N"
      by (rule sum_change_less [OF assms(2,4)]) (simp_all add: knows, simp_all add: servers assms(5) algebra_simps)
    moreover have "sum (?h n') (ran link) \<le> sum (?h n) (ran link) + length (encode ?r) + 1"
    proof (cases "link (i, fd)")
      case None
      then show ?thesis by (simp add: chan(2)) (simp add: chans)
    next
      case (Some d)
      have "sum (?h n') (ran link) + ?h n d = sum (?h n) (ran link) + ?h n' d"
        by (rule sum_change) (use Some finite_ran [OF assms(3)] in \<open>auto simp: chan(2) chans ranI\<close>)
      then show ?thesis using Some by (simp add: chan(2)) (simp add: chans)
    qed
    ultimately show ?thesis unfolding load_def assms(7) by linarith
  qed
  ultimately show ?thesis by blast
qed

lemma spreading_deliver:
  assumes "spreading N link g u S n0 n" "finite (dom link)" "chans n (j, fd) = (p, bytes)" "0 < k" "k \<le> length bytes"
    and "append p (take k bytes) = Inr p'" "n' = n\<lparr>chans := (chans n)((j, fd) := (p', drop k bytes))\<rparr>"
  shows "spreading N link g u S n0 n' \<and> load N link g W n0 n' < load N link g W n0 n"
proof -
  let ?r = "nodeout_request g u" and ?h = "\<lambda>n e. length (snd (chans n e)) + length (incoming (chans n e))"
  note inv = spreadingD [OF assms(1)]
  have new: "chan_ok (p', drop k bytes)" "incoming (p', drop k bytes) = incoming (p, bytes)"
    using chan_deliver [of p bytes k] inv(2) [of "(j, fd)"] assms(3,6) by auto
  have chan: "chan_ok (chans n' e)" "incoming (chans n' e) = incoming (chans n e)" for e
    using inv(2) [of e] new assms(3) by (auto simp: assms(7))
  have e: "(j, fd) \<in> ran link" by (rule ccontr) (use inv(4) [of "(j, fd)"] assms(3-5) in auto)
  have [simp]: "servers n' = servers n" "knows g n' = knows g n" by (auto simp: assms(7) knows_def)
  have "spreading N link g u S n0 n'"
    unfolding spreading_def
  proof (intro conjI ballI allI impI)
    show "case x of (text, fd) \<Rightarrow> text = encode ?r \<and> fd \<ge> 0" if "i \<in> N" "x \<in> set (out_queue (servers n' i))" for i x
      using inv(1) [OF that(1), of "fst x" "snd x"] that(2) by (simp add: case_prod_unfold)
    show "set (incoming (chans n' x)) \<subseteq> {?r}" for x using inv(3) [of _ x] by (auto simp: chan(2))
    show "chans n' x = (new_RespParser, [])" if "x \<notin> ran link" for x using inv(4) [OF that] that e by (auto simp: assms(7))
    show "knows g n' w \<or> coming N link ?r n' w" if "w \<in> S \<or> (\<exists>i. knows g n' i \<and> (i, w) \<in> edges N n0)" for w
      using inv(8) [of w] that by (auto simp: coming_def chan(2))
  qed (use inv(5-7) chan in auto)
  moreover have "sum (?h n') (ran link) + k = sum (?h n) (ran link)"
    by (rule sum_change_less [OF finite_ran [OF assms(2)] e]) (use assms(3,5) new in \<open>auto simp: assms(7)\<close>)
  then have "load N link g W n0 n' < load N link g W n0 n" using assms(4) by (simp add: load_def)
  ultimately show ?thesis by blast
qed

text \<open>Handling a message uses it up; a node that hears the announcement for the first time sends it on.\<close>

lemma spreading_handle:
  assumes "spreading N link g u S n0 n" "departing N link g u R n0" "j \<in> N" "chans n (j, fd) = (p, bytes)" "message_queue p = us @ v # vs"
    and "handleCommand rand st now fd v (servers n j) = Inr s"
    and "n' = n\<lparr>servers := (servers n)(j := s), chans := (chans n)((j, fd) := (p\<lparr>message_queue := us @ vs\<rparr>, bytes))\<rparr>"
    and "W = length (encode (nodeout_request g u)) + 2"
  shows "spreading N link g u S n0 n' \<and> load N link g W n0 n' < load N link g W n0 n"
proof -
  let ?r = "nodeout_request g u" and ?e = "(j, fd)" and ?sends = "\<lambda>c. map (\<lambda>(uuid, fd). (encode (nodeout_request g u), fd)) (connections c)"
  note inv = spreadingD [OF assms(1)]
  note start = assms(2) [unfolded departing_def]
  have fin: "finite N" "finite (ran link)" using start finite_ran by auto
  obtain ws where ws: "chan_ok (p\<lparr>message_queue := us @ vs\<rparr>, bytes)" "incoming (p, bytes) = us @ v # vs @ ws"
      "incoming (p\<lparr>message_queue := us @ vs\<rparr>, bytes) = us @ vs @ ws"
    using chan_handle [OF _ assms(5)] inv(2) [of ?e] assms(4) by auto
  have v: "v = ?r" using inv(3) [of v ?e] ws(2) assms(4) by simp
  have e: "?e \<in> ran link" by (rule ccontr) (use inv(4) [of ?e] assms(4,5) in \<open>auto simp: new_RespParser_def\<close>)
  have chan: "chan_ok (chans n' e)" "mset (incoming (chans n e)) = mset (incoming (chans n' e)) + (if e = ?e then {#?r#} else {#})" for e
    using inv(2) [of e] ws assms(4) v by (auto simp: assms(7))
  have sent: "s = servers n j \<and> knows g n j \<or>
    \<not> knows g n j \<and> findGossip g (cluster s) \<and> out_queue s = out_queue (servers n j) @ ?sends (cluster (servers n0 j)) \<and>
      node_hash (cluster s) = ring_delNode u (node_hash (cluster (servers n0 j))) \<and> kvstore s = kvstore (servers n j)"
  proof (cases "knows g n j")
    case True
    then show ?thesis using nodeout_known [of g "servers n j"] assms(6) v by (simp add: knows_def)
  next
    case False
    have c: "cluster (servers n j) = cluster (servers n0 j)" using inv(7) [OF assms(3) False] .
    have "findGossip g (addGossip now g (cluster (servers n0 j)))" using start assms(3) addGossip_remembers by blast
    then show ?thesis using nodeout_new [of g "servers n j" u rand st now fd] assms(6) False c v start
      by (auto simp: knows_def findGossip_def)
  qed
  have servers: "servers n' = (servers n)(j := s)" by (simp add: assms(7))
  have knows: "knows g n' k \<longleftrightarrow> k = j \<or> knows g n k" for k using sent by (auto simp: knows_def servers)
  have queue: "set (out_queue (servers n k)) \<subseteq> set (out_queue (servers n' k))" for k using sent by (auto simp: servers)
  have coming: "coming N link ?r n' w" if "coming N link ?r n w" "w \<noteq> j" for w
  proof -
    have "chans n' (w, fd') = chans n (w, fd')" for fd' using that(2) by (simp add: assms(7))
    then show ?thesis using that(1) queue unfolding coming_def by (metis subsetD)
  qed
  have neighbours: "coming N link ?r n' w" if new: "\<not> knows g n j" "(j, w) \<in> edges N n0" for w
  proof -
    obtain fd1 where "(w, fd1) \<in> set (connections (cluster (servers n0 j)))" "w \<in> N" using new(2) by (auto simp: edges_def)
    moreover from this obtain fd' where "link (j, fd1) = Some (w, fd')" using departing_link(2) [OF assms(2,3)] by blast
    ultimately have "(encode ?r, fd1) \<in> set (out_queue (servers n' j))" "link (j, fd1) = Some (w, fd')"
      using sent new(1) by (force simp: servers)+
    then show ?thesis using assms(3) by (auto simp: coming_def)
  qed
  have "spreading N link g u S n0 n'"
    unfolding spreading_def
  proof (intro conjI ballI allI impI)
    show "case x of (text, fd) \<Rightarrow> text = encode ?r \<and> fd \<ge> 0" if "k \<in> N" "x \<in> set (out_queue (servers n' k))" for k x
    proof (cases "x \<in> set (out_queue (servers n k))")
      case True
      then show ?thesis using inv(1) [OF that(1), of "fst x" "snd x"] by (simp add: case_prod_unfold)
    next
      case False
      then have "x \<in> set (?sends (cluster (servers n0 j)))" using that(2) sent by (auto simp: servers split: if_splits)
      then show ?thesis using departing_link(1) [OF assms(2,3)] by auto
    qed
    show "set (incoming (chans n' e)) \<subseteq> {?r}" for e
    proof -
      have "set_mset (mset (incoming (chans n' e))) \<subseteq> set_mset (mset (incoming (chans n e)))" unfolding chan(2) [of e] by simp
      then show ?thesis using inv(3) [of _ e] by auto
    qed
    show "chans n' e = (new_RespParser, [])" if "e \<notin> ran link" for e using inv(4) [OF that] that e by (auto simp: assms(7))
    show "kvstore (servers n' k) = kvstore (servers n0 k)" if "k \<in> N" for k using inv(5) [OF that] sent by (auto simp: servers)
    show "if knows g n' k then node_hash (cluster (servers n' k)) = ring_delNode u (node_hash (cluster (servers n0 k)))
        else cluster (servers n' k) = cluster (servers n0 k)" if "k \<in> N" for k
      using inv(6,7) [OF that] sent by (auto simp: knows servers)
    show "knows g n' w \<or> coming N link ?r n' w" if "w \<in> S \<or> (\<exists>i. knows g n' i \<and> (i, w) \<in> edges N n0)" for w
      using inv(8) [of w] that coming [of w] neighbours [of w] by (auto simp: knows)
  qed (simp add: chan)
  moreover have "load N link g W n0 n' < load N link g W n0 n"
  proof -
    let ?f = "\<lambda>n i. W * (length (out_queue (servers n i)) + (if knows g n i then 0 else length (connections (cluster (servers n0 i)))))"
    let ?h = "\<lambda>n e. length (snd (chans n e)) + length (incoming (chans n e))"
    have "sum (?f n') N + 0 = sum (?f n) N"
      by (rule sum_change_less [OF fin(1) assms(3)]) (use sent in \<open>auto simp: knows servers\<close>)
    moreover have "sum (?h n') (ran link) + 1 = sum (?h n) (ran link)"
      by (rule sum_change_less [OF fin(2) e]) (use assms(4) ws in \<open>auto simp: assms(7)\<close>)
    ultimately show ?thesis by (simp add: load_def)
  qed
  ultimately show ?thesis by blast
qed

lemma spreading_step:
  assumes "departing N link g u R n0" "spreading N link g u S n0 n" "net_step N link n n'" "W = length (encode (nodeout_request g u)) + 2"
  shows "spreading N link g u S n0 n' \<and> load N link g W n0 n' < load N link g W n0 n"
  using assms(3)
proof cases
  case (Send i msg fd q)
  then show ?thesis using spreading_send [OF assms(2) _ _ Send(2,3,1) assms(4)] assms(1) by (simp add: departing_def)
next
  case (Deliver j fd p bytes k p')
  then show ?thesis using spreading_deliver [OF assms(2) _ Deliver(3-6,1)] assms(1) by (simp add: departing_def)
next
  case (Handle j fd p bytes us v vs rand st now s)
  then show ?thesis using spreading_handle [OF assms(2,1) Handle(2-5,1) assms(4)] by blast
qed

lemma spreading_run:
  assumes "departing N link g u R n0" "spreading N link g u S n0 n0" "(net_step N link ^^ k) n0 n" "W = length (encode (nodeout_request g u)) + 2"
  shows "spreading N link g u S n0 n \<and> load N link g W n0 n + k \<le> load N link g W n0 n0"
  using assms(3)
proof (induction k arbitrary: n)
  case (Suc k)
  then obtain m where "(net_step N link ^^ k) n0 m" "net_step N link m n" by auto
  then show ?case using Suc.IH [of m] spreading_step [OF assms(1) _ _ assms(4), of S m n] by fastforce
qed (use assms(2) in simp)

text \<open>The nodes that get the announcement from the node that leaves.\<close>

definition told :: "u64 set \<Rightarrow> Net \<Rightarrow> u64 set" where
  "told N n = {w \<in> N. \<exists>fd. snd (chans n (w, fd)) \<noteq> []}"

lemma spreading_start:
  assumes "departing N link g u R n0"
  shows "spreading N link g u (told N n0) n0 n0"
proof -
  let ?r = "nodeout_request g u"
  note start = assms [unfolded departing_def]
  have chan: "\<exists>k. chans n0 e = (new_RespParser, concat (replicate k (encode ?r))) \<and> (e \<notin> ran link \<longrightarrow> k = 0) \<and>
      chan_ok (chans n0 e) \<and> incoming (chans n0 e) = replicate k ?r" for e
  proof -
    obtain k where k: "chans n0 e = (new_RespParser, concat (replicate k (encode ?r)))" "e \<notin> ran link \<longrightarrow> k = 0" using start by blast
    have "list_all resp_ok (replicate k ?r)" using nodeout_ok by (simp add: list_all_iff)
    then obtain q where "append new_RespParser (concat (map encode (replicate k ?r))) = Inr q" "between_messages q"
        "message_queue q = replicate k ?r"
      using resp.run_stream [OF between_messages_new, of "replicate k ?r"] by (auto simp: new_RespParser_def)
    then show ?thesis using k by (intro exI [of _ k]) (simp add: chan_ok_def incoming_def map_replicate)
  qed
  have "coming N link ?r n0 w" if w: "w \<in> told N n0" for w
  proof -
    obtain fd where "snd (chans n0 (w, fd)) \<noteq> []" using w by (auto simp: told_def)
    then have "?r \<in> set (incoming (chans n0 (w, fd)))" using chan [of "(w, fd)"] by (auto simp: concat_eq_Nil_conv)
    then show ?thesis by (auto simp: coming_def)
  qed
  moreover have "\<not> knows g n0 i" if "(i, w) \<in> edges N n0" for i w using that start by (auto simp: edges_def)
  moreover have "chan_ok (chans n0 e)" "set (incoming (chans n0 e)) \<subseteq> {?r}" for e using chan [of e] by auto
  moreover have "chans n0 e = (new_RespParser, [])" if "e \<notin> ran link" for e using chan [of e] that by auto
  ultimately show ?thesis unfolding spreading_def using start by (intro conjI ballI allI impI) auto
qed

text \<open>A network in which nothing can move has delivered everything.\<close>

lemma stuck_delivered:
  assumes "departing N link g u R n0" "spreading N link g u S n0 n" "\<nexists>n'. net_step N link n n'" "w \<in> N"
  shows "\<not> coming N link (nodeout_request g u) n w"
proof
  let ?r = "nodeout_request g u"
  note inv = spreadingD [OF assms(2)]
  assume "coming N link ?r n w"
  then consider fd where "?r \<in> set (incoming (chans n (w, fd)))" | i m where "i \<in> N" "m \<in> set (out_queue (servers n i))"
    unfolding coming_def by blast
  then show False
  proof cases
    case 1
    obtain p bytes where ch: "chans n (w, fd) = (p, bytes)" by fastforce
    have ok: "chan_ok (p, bytes)" using inv(2) [of "(w, fd)"] ch by simp
    have "bytes = []"
    proof (rule ccontr)
      assume "bytes \<noteq> []"
      then have k: "0 < (1 :: nat)" "1 \<le> length bytes" by (simp_all add: Suc_le_eq)
      obtain p' where "append p (take 1 bytes) = Inr p'" using chan_deliver [OF ok] by blast
      then show False using net_step.Deliver [OF assms(4) ch k] assms(3) by blast
    qed
    then have "incoming (p, bytes) = message_queue p" by (simp add: incoming_def)
    then obtain us vs where q: "message_queue p = us @ ?r # vs" using 1 ch by (metis split_list)
    have "unat u < 2 ^ 31" using assms(1) by (simp add: departing_def)
    then obtain s where "handleCommand id 0 0 fd ?r (servers n w) = Inr s"
      using nodeout_known [of g "servers n w" id 0 0 fd u] nodeout_new [of g "servers n w" u id 0 0 fd] by blast
    then show False using net_step.Handle [OF assms(4) ch q] assms(3) by blast
  next
    case 2
    then obtain msg fd q where q: "out_queue (servers n i) = (msg, fd) # q" by (cases "out_queue (servers n i)") auto
    then have "fd \<ge> 0" using inv(1) [OF 2(1), of msg fd] by simp
    then show False using net_step.Send [OF 2(1) q] assms(3) by blast
  qed
qed

text \<open>A bounded system comes to rest.\<close>

lemma bounded_rests:
  assumes "\<forall>k n. (move ^^ k) a n \<longrightarrow> k \<le> bound"
  shows "\<exists>n. move\<^sup>*\<^sup>* a n \<and> (\<nexists>n'. move n n')"
proof (rule ccontr)
  assume "\<nexists>n. move\<^sup>*\<^sup>* a n \<and> (\<nexists>n'. move n n')"
  then have on: "\<exists>n'. move n n'" if "move\<^sup>*\<^sup>* a n" for n using that by blast
  have "\<exists>n. (move ^^ k) a n" for k
  proof (induction k)
    case (Suc k)
    then obtain n where n: "(move ^^ k) a n" by blast
    then show ?case using on [OF relpowp_imp_rtranclp [OF n]] by (metis relpowp_Suc_I)
  qed auto
  then show False using assms by (metis Suc_n_not_le_n)
qed

text \<open>Two nodes that stay, one of which hears from the node 7 that it leaves.\<close>

definition pair_link :: "endpoint \<rightharpoonup> endpoint" where
  "pair_link = [(1, 5) \<mapsto> (2, 6), (2, 6) \<mapsto> (1, 5), (7, 8) \<mapsto> (1, 4)]"

definition pair_net :: Net where
  "pair_net = \<lparr>servers = (\<lambda>i. lone_server\<lparr>cluster := (cluster lone_server)\<lparr>self_node := \<lparr>ip = ''10.0.0.2'', port = 7800, UUID = i\<rparr>,
       connections := (if i = 1 then [(2, 5), (7, 4)] else [(1, 6)])\<rparr>\<rparr>),
     chans = (\<lambda>_. (new_RespParser, []))((1, 4) := (new_RespParser, encode (nodeout_request 9 7)))\<rparr>"

lemma pair_departing: "departing {1, 2} pair_link 9 7 (node_hash (cluster lone_server)) pair_net"
proof -
  have ran: "ran pair_link = {(2, 6), (1, 5), (1, 4)}" by (auto simp: pair_link_def ran_map_upd)
  have dom: "finite (dom pair_link)" by (simp add: pair_link_def)
  have ok: "cluster_ok ((cluster lone_server)\<lparr>self_node := a, connections := cs\<rparr>)" if "sorted_map cs" for a cs
    using lone_server_cluster_ok that by (simp add: cluster_ok_def)
  have cache: "gossip_cache (cluster lone_server) = []" "out_queue lone_server = []"
    by (simp_all add: lone_server_def idle_Server_def addNodeToHash_def new_Cluster_at_def new_Cluster_def Let_def)
  have "\<exists>k. chans pair_net e = (new_RespParser, concat (replicate k (encode (nodeout_request 9 7)))) \<and> (e \<notin> ran pair_link \<longrightarrow> k = 0)" for e
    by (rule exI [of _ "if e = (1, 4) then 1 else 0"]) (simp add: pair_net_def ran)
  then show ?thesis
    using ok cache dom by (auto simp: departing_def ran pair_net_def knows_def findGossip_def GOSSIP_CACHE_SIZE_def sorted_map_def pair_link_def)
qed

section \<open>Properties\<close>



end
