(* ===== verification/Raft_Groups.thy ===== *)
theory Raft_Groups
  imports Server_Invariant
begin

text \<open>
  What \<open>Server::initRaftGroups\<close> builds: the groups a node takes part in, computed by every node for itself from
  its copy of the topology.  The group with index \<open>gi\<close> consists of the node at that place of the ordered
  topology and its two successors, cyclically; a node opens its own group and those of its two predecessors.
\<close>

section \<open>Indices\<close>

lemma pred_index_iff:
  fixes gi k d N :: nat
  assumes "gi < N" "k < N" "d \<le> 2"
  shows "gi = (k + 2 * N - d) mod N \<longleftrightarrow> (gi + d) mod N = k"
proof
  have le: "d \<le> k + 2 * N" using assms by linarith
  assume "gi = (k + 2 * N - d) mod N"
  then have "(gi + d) mod N = (k + 2 * N - d + d) mod N" by (simp add: mod_add_left_eq)
  also have "\<dots> = k" using le assms(2) by simp
  finally show "(gi + d) mod N = k" .
next
  assume "(gi + d) mod N = k"
  then have "(k + 2 * N - d) mod N = ((gi + d) mod N + (2 * N - d)) mod N" using assms by (simp add: add_diff_assoc)
  also have "\<dots> = (gi + d + (2 * N - d)) mod N" by (rule mod_add_left_eq)
  also have "\<dots> = gi" using assms by simp
  finally show "gi = (k + 2 * N - d) mod N" by simp
qed

lemma group_indices_iff:
  assumes "k < N"
  shows "gi \<in> set (group_indices k N) \<longleftrightarrow> gi < N \<and> (\<exists>d\<in>{0, 1, 2}. (gi + d) mod N = k)"
proof (cases "gi < N")
  case True
  then show ?thesis using pred_index_iff [OF True assms, of 0] pred_index_iff [OF True assms, of 1] pred_index_iff [OF True assms, of 2]
    by (auto simp: group_indices_def)
next
  case False
  then show ?thesis using assms by (auto simp: group_indices_def)
qed

text \<open>A node is a member of a group exactly if it opens it.\<close>

lemma member_iff_opens:
  assumes "distinct ids" "k < length ids" "gi < length ids"
  shows "ids ! k \<in> set (group_of ids gi) \<longleftrightarrow> gi \<in> set (group_indices k (length ids))"
proof -
  have "ids ! k \<in> set (group_of ids gi) \<longleftrightarrow> (\<exists>d\<in>{0, 1, 2}. ids ! ((gi + d) mod length ids) = ids ! k)"
    by (auto simp: group_of_def)
  also have "\<dots> \<longleftrightarrow> (\<exists>d\<in>{0, 1, 2}. (gi + d) mod length ids = k)"
    using nth_eq_iff_index_eq [OF assms(1) _ assms(2)] assms(2) by (metis gr_implies_not0 mod_less_divisor neq0_conv)
  finally show ?thesis using group_indices_iff [OF assms(2)] assms(3) by simp
qed

lemma card_three: "a \<noteq> b \<Longrightarrow> a \<noteq> c \<Longrightarrow> b \<noteq> c \<Longrightarrow> card {a, b, c} = 3"
  by simp

lemma group_size:
  assumes "distinct ids" "gi < length ids"
  shows "length (firsts (group_of ids gi)) = min 3 (length ids)"
proof -
  let ?N = "length ids" and ?f = "\<lambda>d. (gi + d) mod length ids"
  have "set (group_of ids gi) = (\<lambda>i. ids ! i) ` {?f 0, ?f 1, ?f 2}" by (simp add: group_of_def)
  moreover have "inj_on (\<lambda>i. ids ! i) {?f 0, ?f 1, ?f 2}" using assms by (intro inj_on_nth) (auto intro: mod_less_divisor)
  ultimately have "length (firsts (group_of ids gi)) = card {?f 0, ?f 1, ?f 2}" by (simp only: firsts_length card_image)
  moreover have "card {?f 0, ?f 1, ?f 2} = min 3 ?N"
  proof -
    consider "?N = 1" | "?N = 2" | "?N \<ge> 3" using assms(2) by linarith
    then show ?thesis
    proof cases
      case 2
      then show ?thesis using assms(2) by (auto simp: less_2_cases_iff insert_commute)
    next
      case 3
      have "?f d = (if gi + d < ?N then gi + d else gi + d - ?N)" if "d \<le> 2" for d
        using assms(2) 3 that by (auto simp: mod_if)
      from this [of 0] this [of 1] this [of 2] have "?f 0 \<noteq> ?f 1 \<and> ?f 0 \<noteq> ?f 2 \<and> ?f 1 \<noteq> ?f 2"
        using assms(2) 3 by (auto split: if_splits)
      then have "card {?f 0, ?f 1, ?f 2} = 3" by (intro card_three) blast+
      then show ?thesis using 3 by simp
    qed auto
  qed
  ultimately show ?thesis by simp
qed

section \<open>The tables\<close>

text \<open>Identities have 64 bits, so the index of a node can be read back from the identity of its group.\<close>

lemma index_word:
  assumes "distinct (ids :: u64 list)" "gi < length ids"
  shows "unat (of_nat gi :: u64) = gi"
proof -
  have "length ids \<le> card (UNIV :: u64 set)" using assms(1) card_mono [of "UNIV :: u64 set" "set ids"] by (simp add: distinct_card)
  then have "gi < 2 ^ 64" using assms(2) by (simp add: card_word)
  then show ?thesis by (simp add: unsigned_of_nat take_bit_nat_eq_self)
qed

definition member_of :: "u64 list \<Rightarrow> u64 \<Rightarrow> u64 \<Rightarrow> RaftNode \<Rightarrow> bool" where
  "member_of ids self gid rn \<longleftrightarrow> groupId rn = gid \<and> selfId rn = self \<and> peers rn = firsts (filter (\<lambda>u. u \<noteq> self) (group_of ids (unat gid)))"

lemma new_RaftNode_member: "new_RaftNode rand gid self ps file = Inr rn \<Longrightarrow> groupId rn = gid \<and> selfId rn = self \<and> peers rn = ps"
  by (auto simp: new_RaftNode_def loadFromDisk_def becomeLeader_def resetElectionTimer_def Let_def elim!: bindE_InrE split: if_splits)

text \<open>The groups with the indices \<open>I\<close> are open.\<close>

definition tables_ok :: "u64 list \<Rightarrow> u64 \<Rightarrow> nat set \<Rightarrow> Server \<Rightarrow> bool" where
  "tables_ok ids self I s \<longleftrightarrow> sorted_map (raft_groups s) \<and> sorted_map (groupMembers s) \<and> sorted_map (masterToGroup s) \<and>
     (\<forall>gid. map_of (groupMembers s) gid = (if unat gid \<in> I then Some (firsts (group_of ids (unat gid))) else None)) \<and>
     (\<forall>u gid. map_of (masterToGroup s) u = Some gid \<longleftrightarrow> (\<exists>gi\<in>I. u = ids ! gi \<and> gid = of_nat gi)) \<and>
     (\<forall>gid. map_of (raft_groups s) gid \<noteq> None \<longleftrightarrow> unat gid \<in> I) \<and>
     (\<forall>gid rn. map_of (raft_groups s) gid = Some rn \<longrightarrow> member_of ids self gid rn)"

lemma open_group_tables:
  assumes "tables_ok ids self I s" "open_group rand ids self files s gi = Inr s'" "distinct ids" "gi < length ids" "I \<subseteq> {..<length ids}"
  shows "tables_ok ids self (insert gi I) s'"
proof -
  let ?gid = "of_nat gi :: u64"
  have w: "unat ?gid = gi" using index_word [OF assms(3,4)] .
  have key: "gid = ?gid \<longleftrightarrow> unat gid = gi" for gid using w by (metis unsigned_word_eqI)
  obtain rn where rn: "member_of ids self ?gid rn"
      "s' = s\<lparr>raft_groups := (if map_of (raft_groups s) ?gid = None then map_insert ?gid rn (raft_groups s) else raft_groups s),
        groupMembers := map_insert ?gid (firsts (group_of ids gi)) (groupMembers s), masterToGroup := map_insert (ids ! gi) ?gid (masterToGroup s)\<rparr>"
    using assms(2) unfolding open_group_def Let_def
    by (elim bindE_InrE) (use new_RaftNode_member in \<open>fastforce simp: member_of_def w\<close>)
  have same: "i = gi" if "i \<in> I" "ids ! gi = ids ! i" for i using that assms(3-5) nth_eq_iff_index_eq by blast
  note t = assms(1) [unfolded tables_ok_def]
  have "sorted_map (raft_groups s')" "sorted_map (groupMembers s')" "sorted_map (masterToGroup s')" using t by (simp_all add: rn(2))
  moreover have "map_of (groupMembers s') gid = (if unat gid \<in> insert gi I then Some (firsts (group_of ids (unat gid))) else None)" for gid
    using t by (simp add: rn(2) key)
  moreover have "map_of (masterToGroup s') u = Some gid \<longleftrightarrow> (\<exists>i\<in>insert gi I. u = ids ! i \<and> gid = of_nat i)" for u gid
    using t by (cases "u = ids ! gi") (auto simp: rn(2) dest: same)
  moreover have "map_of (raft_groups s') gid \<noteq> None \<longleftrightarrow> unat gid \<in> insert gi I" for gid
    using t by (cases "gid = ?gid") (auto simp: rn(2) key w)
  moreover have "member_of ids self gid rn'" if "map_of (raft_groups s') gid = Some rn'" for gid rn'
    using t that rn(1) by (auto simp: rn(2) split: if_splits)
  ultimately show ?thesis unfolding tables_ok_def by blast
qed

lemma open_groups_tables:
  assumes "foldE (open_group rand ids self files) s gis = Inr s'" "tables_ok ids self I s" "distinct ids" "set gis \<union> I \<subseteq> {..<length ids}"
  shows "tables_ok ids self (set gis \<union> I) s'"
  using assms
proof (induction gis arbitrary: s I)
  case (Cons gi gis)
  then obtain s1 where "open_group rand ids self files s gi = Inr s1" "foldE (open_group rand ids self files) s1 gis = Inr s'"
    by (auto elim!: bindE_InrE)
  then show ?case using Cons.IH [of s1 "insert gi I"] open_group_tables [OF Cons.prems(2)] Cons.prems(3,4) by auto
qed auto

lemma initRaftGroups_tables:
  assumes "initRaftGroups rand s = Inr s'" "sorted_map (topo (cluster s))" "map fst (topo (cluster s)) = ids"
    and "k < length ids" "ids ! k = UUID (self_node (cluster s))"
  shows "tables_ok ids (ids ! k) (set (group_indices k (length ids))) s'"
proof -
  let ?self = "UUID (self_node (cluster s))" and ?c = "close_groups s"
  let ?s = "?c\<lparr>cluster := fold addNodeToHash ids (cluster ?c)\<rparr>"
  have d: "distinct ids" using assms(2,3) by (auto simp: sorted_map_def strict_sorted_iff)
  have "takeWhile (\<lambda>u. u \<noteq> ?self) ids = take k ids"
    using assms(4) nth_eq_iff_index_eq [OF d, of _ k] unfolding assms(5) [symmetric] by (intro takeWhile_eq_take_P_nth) auto
  then have k: "length (takeWhile (\<lambda>u. u \<noteq> ?self) ids) = k" using assms(4) by simp
  have run: "foldE (open_group rand ids ?self (raft_files ?s)) ?s (group_indices k (length ids)) = Inr s'"
    using assms(1,3,4) k by (auto simp: initRaftGroups_def Let_def split: if_splits)
  have start: "tables_ok ids ?self {} ?s" by (simp add: tables_ok_def close_groups_def sorted_map_def)
  have range: "set (group_indices k (length ids)) \<union> {} \<subseteq> {..<length ids}" using group_indices_iff [OF assms(4)] by auto
  show ?thesis using open_groups_tables [OF run start d range] by (simp add: assms(5))
qed

text \<open>Opening the groups cannot fail on files that Raft nodes have written.\<close>

definition logs_ok :: "(u64 \<rightharpoonup> string) \<Rightarrow> bool" where
  "logs_ok files \<longleftrightarrow> (\<forall>gid c. files gid = Some c \<longrightarrow> (\<exists>es. c = concat (map log_line es) \<and> (\<forall>e\<in>set es. one_line e)))"

lemma new_RaftNode_opens:
  assumes "logs_ok files"
  shows "\<exists>n. new_RaftNode rand gid self ps (case files gid of None \<Rightarrow> [] | Some c \<Rightarrow> c) = Inr n"
proof (cases "files gid")
  case None
  then show ?thesis using new_RaftNode_load [of "[]" rand gid self ps] by auto
next
  case (Some c)
  then obtain es where "c = concat (map log_line es)" "\<forall>e\<in>set es. one_line e" using assms unfolding logs_ok_def by blast
  then show ?thesis using Some new_RaftNode_load [of es rand gid self ps] by auto
qed

lemma open_groups_succeed:
  assumes "logs_ok files"
  shows "\<exists>s'. foldE (open_group rand ids self files) s gis = Inr s'"
proof (induction gis arbitrary: s)
  case (Cons gi gis)
  obtain s1 where "open_group rand ids self files s gi = Inr s1"
    using new_RaftNode_opens [OF assms, of rand "of_nat gi" self "firsts (filter (\<lambda>u. u \<noteq> self) (group_of ids gi))"]
    by (auto simp: open_group_def Let_def)
  then show ?case using Cons by simp
qed simp

lemma initRaftGroups_succeeds: "logs_ok (raft_files (close_groups s)) \<Longrightarrow> \<exists>s'. initRaftGroups rand s = Inr s'"
  using open_groups_succeed by (auto simp: initRaftGroups_def Let_def)

section \<open>The log of a group is applied again\<close>

lemma split_ws_DEL: "is_word key \<Longrightarrow> split_ws (''DEL '' @ key) = [''DEL'', key]"
  using split_ws_Cons [of "''DEL''" key] split_ws_single [of key] by (simp add: is_word_def is_space_def)

lemma apply_DEL:
  assumes "is_word key" "command e = ''DEL '' @ key"
  shows "apply_entry s e = bindE (kv_del (kvstore s) key) (\<lambda>(kv, _). Inr (s\<lparr>kvstore := kv\<rparr>))"
  unfolding apply_entry_def makeCommand_def assms(2) split_ws_DEL [OF assms(1)]
  by (simp add: run_noAOF_def handle_noAOF_def DEL_noAOF_def request_elements_def bindE_assoc case_prod_unfold)

lemma newline_is_space: "is_space (CHR 0x0A)"
  by (simp add: is_space_def)

text \<open>A write in the log: its term, the key and the new value, none for a deletion.\<close>

type_synonym logged_write = "u64 \<times> string \<times> string option"

definition write_entry :: "logged_write \<Rightarrow> LogEntry" where
  "write_entry = (\<lambda>(t, key, w). \<lparr>entry_term = t, command = (case w of None \<Rightarrow> ''DEL '' @ key | Some v \<Rightarrow> ''SET '' @ key @ '' '' @ v)\<rparr>)"

definition write_ok :: "logged_write \<Rightarrow> bool" where
  "write_ok = (\<lambda>(t, key, w). is_word key \<and> (case w of None \<Rightarrow> True | Some v \<Rightarrow> is_word v))"

definition apply_writes :: "logged_write list \<Rightarrow> (string \<rightharpoonup> RespValue) \<Rightarrow> (string \<rightharpoonup> RespValue)" where
  "apply_writes = fold (\<lambda>(t, key, w) m. m(key := map_option SimpleString w))"

lemma word_no_newline: "is_word w \<Longrightarrow> CHR 0x0A \<notin> set w"
  by (metis is_word_def newline_is_space)

lemma write_one_line: "write_ok w \<Longrightarrow> one_line (write_entry w)"
  using word_no_newline by (cases w) (simp add: write_ok_def write_entry_def one_line_def split: option.splits)

lemma apply_write:
  assumes "write_ok (t, key, w)" "kv_ok (kvstore s)"
  shows "apply_entry s (write_entry (t, key, w)) = Inl no_slot \<or>
    (\<exists>s'. apply_entry s (write_entry (t, key, w)) = Inr s' \<and> kv_ok (kvstore s') \<and>
       kv_map (kvstore s') = (kv_map (kvstore s))(key := map_option SimpleString w))"
proof (cases w)
  case None
  then have *: "apply_entry s (write_entry (t, key, w)) = bindE (kv_del (kvstore s) key) (\<lambda>(kv, _). Inr (s\<lparr>kvstore := kv\<rparr>))"
    using assms(1) by (intro apply_DEL) (simp_all add: write_ok_def write_entry_def)
  show ?thesis using None kv_del_ok [OF assms(2), of key] kv_del_fails [OF assms(2), of key]
    unfolding * by (cases "kv_del (kvstore s) key") auto
next
  case (Some v)
  then have *: "apply_entry s (write_entry (t, key, w)) = bindE (kv_set (kvstore s) key (SimpleString v)) (\<lambda>(kv, _). Inr (s\<lparr>kvstore := kv\<rparr>))"
    using assms(1) apply_SET [of key "write_entry (t, key, w)" v s] split_ws_single [of v] by (simp add: write_ok_def write_entry_def)
  show ?thesis using Some kv_set_ok [OF assms(2), of key "SimpleString v"] kv_set_fails [OF assms(2), of key "SimpleString v"]
    unfolding * by (cases "kv_set (kvstore s) key (SimpleString v)") auto
qed

lemma apply_writes_run:
  assumes "list_all write_ok ws" "kv_ok (kvstore s)"
  shows "foldE apply_entry s (map write_entry ws) = Inl no_slot \<or>
    (\<exists>s'. foldE apply_entry s (map write_entry ws) = Inr s' \<and> kv_map (kvstore s') = apply_writes ws (kv_map (kvstore s)))"
  using assms
proof (induction ws arbitrary: s)
  case (Cons x ws)
  obtain t key w where x: "x = (t, key, w)" by (cases x)
  have ok: "write_ok (t, key, w)" "list_all write_ok ws" using Cons.prems(1) x by auto
  consider "apply_entry s (write_entry x) = Inl no_slot"
    | s1 where "apply_entry s (write_entry x) = Inr s1" "kv_ok (kvstore s1)"
        "kv_map (kvstore s1) = (kv_map (kvstore s))(key := map_option SimpleString w)"
    using apply_write [OF ok(1) Cons.prems(2)] x by blast
  then show ?case
  proof cases
    case 2
    then show ?thesis using Cons.IH [OF ok(2), of s1] by (simp add: x apply_writes_def del: fun_upd_apply)
  qed simp
qed (simp add: apply_writes_def)

text \<open>The groups that \<open>initRaftGroups\<close> opens are new objects, which read their files from the start.\<close>

definition from_file :: "(nat \<Rightarrow> nat) \<Rightarrow> (u64 \<rightharpoonup> string) \<Rightarrow> Server \<Rightarrow> Server \<Rightarrow> bool" where
  "from_file rand files s0 s \<longleftrightarrow> sorted_map (raft_groups s) \<and> kvstore s = kvstore s0 \<and> (\<forall>gid rn. map_of (raft_groups s) gid = Some rn \<longrightarrow>
     (\<exists>self ps. new_RaftNode rand gid self ps (case files gid of None \<Rightarrow> [] | Some c \<Rightarrow> c) = Inr rn))"

lemma open_group_from_file:
  assumes "open_group rand ids self files s gi = Inr s'" "from_file rand files s0 s"
  shows "from_file rand files s0 s'"
  using assms unfolding open_group_def Let_def
  by (elim bindE_InrE) (fastforce simp: from_file_def split: if_splits)

lemma initRaftGroups_from_file:
  assumes "initRaftGroups rand s = Inr s'" "topo (cluster s) \<noteq> []"
  shows "from_file rand (raft_files (close_groups s)) s s'"
proof -
  let ?c = "close_groups s" and ?ids = "map fst (topo (cluster s))"
  let ?s = "?c\<lparr>cluster := fold addNodeToHash ?ids (cluster ?c)\<rparr>"
  obtain self gis where "foldE (open_group rand ?ids self (raft_files ?c)) ?s gis = Inr s'"
    using assms by (auto simp: initRaftGroups_def Let_def)
  moreover have "from_file rand (raft_files ?c) s ?s" by (simp add: from_file_def close_groups_def sorted_map_def)
  ultimately show ?thesis using foldE_invariant [where P = "from_file rand (raft_files ?c) s"] open_group_from_file by blast
qed

text \<open>The first tick of a new object sends nothing to a peer: its election timer is at least 150.\<close>

lemma first_tick:
  assumes "new_RaftNode rand gid self ps file = Inr rn"
  shows "\<exists>rn'. tick rand' rn = Inr (rn', []) \<and> rlog rn' = rlog rn \<and> commitIndex rn' = commitIndex rn \<and> lastApplied rn' = lastApplied rn"
proof (cases "ps = []")
  case True
  then show ?thesis using assms tick_solo [of rn rand'] new_RaftNode_member [OF assms]
    by (auto simp: new_RaftNode_def becomeLeader_def Let_def elim!: bindE_InrE)
next
  case False
  then have "role rn = Follower" "electionTimer rn \<ge> 150"
    using assms by (auto simp: new_RaftNode_def loadFromDisk_def resetElectionTimer_def Let_def elim!: bindE_InrE)
  then show ?thesis by (simp add: tick_def Let_def flushDisk_def)
qed

section \<open>Properties\<close>

text \<open>C14. The nodes of a cluster agree on their Raft groups, each of which computes them for itself: if two nodes \<open>a\<close> and
  \<open>b\<close> have the same topology and are in it, then in every group that \<open>a\<close> has opened there are \<open>a\<close> itself and three
  nodes in all (or the whole cluster if it is smaller); \<open>b\<close> is one of them exactly if \<open>b\<close> has opened the group
  too, and then both list the same members and each has the other as its peer; and a node has a group for the
  keys of another exactly if it is a member of the group of that node.\<close>

theorem raft_groups_agree:
  assumes "initRaftGroups rand a = Inr a'" "initRaftGroups rand' b = Inr b'"
    and "sorted_map (topo (cluster a))" "sorted_map (topo (cluster b))"
    and "map fst (topo (cluster a)) = ids" "map fst (topo (cluster b)) = ids"
    and "UUID (self_node (cluster a)) \<in> set ids" "UUID (self_node (cluster b)) \<in> set ids"
  shows "(\<forall>gid rn. getRaftGroup gid a' = Some rn \<longrightarrow> (\<exists>ms. map_of (groupMembers a') gid = Some ms \<and>
       UUID (self_node (cluster a)) \<in> set ms \<and> set ms \<subseteq> set ids \<and> distinct ms \<and> length ms = min 3 (length ids) \<and>
       set (peers rn) = set ms - {UUID (self_node (cluster a))} \<and>
       (UUID (self_node (cluster b)) \<in> set ms \<longleftrightarrow> getRaftGroup gid b' \<noteq> None) \<and>
       (\<forall>rn'. getRaftGroup gid b' = Some rn' \<longrightarrow> map_of (groupMembers b') gid = Some ms \<and>
          set (peers rn') = set ms - {UUID (self_node (cluster b))}))) \<and>
    (\<forall>k<length ids. map_of (masterToGroup a') (ids ! k) =
       (if UUID (self_node (cluster a)) \<in> set (group_of ids k) then Some (of_nat k) else None))"
proof -
  let ?N = "length ids"
  have d: "distinct ids" using assms(3,5) by (auto simp: sorted_map_def strict_sorted_iff)
  obtain i j where ij: "i < ?N" "ids ! i = UUID (self_node (cluster a))" "j < ?N" "ids ! j = UUID (self_node (cluster b))"
    using assms(7,8) by (auto simp: in_set_conv_nth)
  note ta = initRaftGroups_tables [OF assms(1,3,5) ij(1,2), unfolded tables_ok_def]
  note tb = initRaftGroups_tables [OF assms(2,4,6) ij(3,4), unfolded tables_ok_def]
  have member: "ids ! k \<in> set (group_of ids gi) \<longleftrightarrow> gi \<in> set (group_indices k ?N)" if "k < ?N" "gi < ?N" for k gi
    using member_iff_opens [OF d that] .
  have "\<exists>ms. map_of (groupMembers a') gid = Some ms \<and> ids ! i \<in> set ms \<and> set ms \<subseteq> set ids \<and> distinct ms \<and> length ms = min 3 ?N \<and>
      set (peers rn) = set ms - {ids ! i} \<and> (ids ! j \<in> set ms \<longleftrightarrow> getRaftGroup gid b' \<noteq> None) \<and>
      (\<forall>rn'. getRaftGroup gid b' = Some rn' \<longrightarrow> map_of (groupMembers b') gid = Some ms \<and> set (peers rn') = set ms - {ids ! j})"
    if "getRaftGroup gid a' = Some rn" for gid rn
  proof -
    let ?gi = "unat gid" and ?ms = "firsts (group_of ids (unat gid))"
    have gi: "?gi \<in> set (group_indices i ?N)" using ta that by (auto simp: getRaftGroup_def)
    then have lt: "?gi < ?N" using group_indices_iff [OF ij(1)] by blast
    have "map_of (groupMembers a') gid = Some ?ms" using ta gi by simp
    moreover have "ids ! i \<in> set ?ms" using member [OF ij(1) lt] gi by simp
    moreover have "set ?ms \<subseteq> set ids" using lt by (auto simp: group_of_def intro!: nth_mem mod_less_divisor)
    moreover have "set (peers rn) = set ?ms - {ids ! i}" using ta that by (auto simp: getRaftGroup_def member_of_def)
    moreover have "ids ! j \<in> set ?ms \<longleftrightarrow> getRaftGroup gid b' \<noteq> None" using member [OF ij(3) lt] tb by (auto simp: getRaftGroup_def)
    moreover have "map_of (groupMembers b') gid = Some ?ms \<and> set (peers rn') = set ?ms - {ids ! j}" if "getRaftGroup gid b' = Some rn'" for rn'
      using tb that by (auto simp: getRaftGroup_def member_of_def)
    ultimately show ?thesis using group_size [OF d lt] by (intro exI [of _ ?ms]) simp
  qed
  moreover have "map_of (masterToGroup a') (ids ! k) = (if ids ! i \<in> set (group_of ids k) then Some (of_nat k) else None)" if "k < ?N" for k
  proof -
    have "map_of (masterToGroup a') (ids ! k) = Some gid \<longleftrightarrow> k \<in> set (group_indices i ?N) \<and> gid = of_nat k" for gid
      using ta that nth_eq_iff_index_eq [OF d] group_indices_iff [OF ij(1)] by metis
    then show ?thesis unfolding member [OF ij(1) that] by (cases "map_of (masterToGroup a') (ids ! k)") auto
  qed
  ultimately show ?thesis unfolding ij(2,4) by blast
qed

text \<open>One of two nodes that know each other.\<close>

definition one_of_two :: "u64 \<Rightarrow> u64 \<Rightarrow> Server" where
  "one_of_two self other = (let s = idle_Server \<lparr>aof_file = [], aof_buffer = [], last_fsync = 0\<rparr> self ''10.0.0.1'' 7800 Map.empty
     in s\<lparr>cluster := addTopoNode \<lparr>ip = ''10.0.0.2'', port = 7800, UUID = other\<rparr> (cluster s)\<rparr>)"

lemma one_of_two_fields [simp]:
  "raft_groups (one_of_two self other) = []" "raft_files (one_of_two self other) = Map.empty"
  "UUID (self_node (cluster (one_of_two self other))) = self"
  "map fst (topo (cluster (one_of_two 7 9))) = [7, 9]" "map fst (topo (cluster (one_of_two 9 7))) = [7, 9]"
  by (simp_all add: one_of_two_def idle_Server_def new_Cluster_at_def addTopoNode_def Let_def)

lemma close_groups_fresh: "raft_groups s = [] \<Longrightarrow> raft_files s = Map.empty \<Longrightarrow> logs_ok (raft_files (close_groups s))"
  by (simp add: close_groups_def logs_ok_def)

theorem raft_groups_agree_witness:
  "\<exists>a b rn rn'. initRaftGroups (\<lambda>_. 0) (one_of_two 7 9) = Inr a \<and> initRaftGroups (\<lambda>_. 0) (one_of_two 9 7) = Inr b \<and>
     getRaftGroup 0 a = Some rn \<and> getRaftGroup 0 b = Some rn' \<and> set (peers rn) = {9} \<and> set (peers rn') = {7} \<and>
     map_of (groupMembers a) 0 = map_of (groupMembers b) 0 \<and> map_of (masterToGroup a) 9 = Some 1"
proof -
  let ?r = "\<lambda>_ :: nat. 0 :: nat"
  have sorted: "sorted_map (topo (cluster (one_of_two 7 9)))" "sorted_map (topo (cluster (one_of_two 9 7)))"
    by (simp_all add: sorted_map_def)
  obtain a b where ab: "initRaftGroups ?r (one_of_two 7 9) = Inr a" "initRaftGroups ?r (one_of_two 9 7) = Inr b"
    using initRaftGroups_succeeds by (metis close_groups_fresh one_of_two_fields(1,2))
  have "getRaftGroup 0 a \<noteq> None" using initRaftGroups_tables [OF ab(1) sorted(1) one_of_two_fields(4), of 0]
      group_indices_iff [of 0 "length [7, 9 :: u64]" 0] by (auto simp: tables_ok_def getRaftGroup_def)
  then obtain rn where rn: "getRaftGroup 0 a = Some rn" by blast
  note w = raft_groups_agree [OF ab sorted one_of_two_fields(4,5), simplified]
  obtain ms where ms: "map_of (groupMembers a) 0 = Some ms" "set ms \<subseteq> {7, 9}" "distinct ms" "length ms = 2" "set (peers rn) = set ms - {7}"
      "9 \<in> set ms \<longleftrightarrow> getRaftGroup 0 b \<noteq> None"
      "\<forall>rn'. getRaftGroup 0 b = Some rn' \<longrightarrow> map_of (groupMembers b) 0 = Some ms \<and> set (peers rn') = set ms - {9}"
    using mp [OF spec [OF spec [OF conjunct1 [OF w]]] rn] by (elim exE conjE) (simp add: numeral_2_eq_2)
  have all: "set ms = {7, 9}" using ms(2-4) distinct_card [OF ms(3)] by (intro card_subset_eq) auto
  then obtain rn' where "getRaftGroup 0 b = Some rn'" using ms(6) by auto
  moreover have "map_of (masterToGroup a) 9 = Some 1" using w by (auto simp: group_of_def dest!: spec [of _ 1])
  ultimately show ?thesis using ab rn ms all by auto
qed

text \<open>C33. Whenever the groups are built, at the start and after every change of the topology, the next round of the main
  loop applies the whole log of each group to the store again, from its first entry: either the table of a shard is
  exhausted, or every key that the log mentions has the value of its last entry there, whatever the store held,
  and all other keys keep their values.\<close>

theorem group_log_replayed:
  assumes "kv_ok (kvstore s)" "topo (cluster s) \<noteq> []" "initRaftGroups rand s = Inr s1"
    and "getRaftGroup gid s1 = Some rn" "raft_files (close_groups s) gid = Some (concat (map log_line (map write_entry ws)))"
    and "list_all write_ok ws"
  shows "raft_round rand' s1 gid = Inl (Runtime_Error ''Empty position not found'') \<or>
    (\<exists>s2. raft_round rand' s1 gid = Inr s2 \<and> kv_map (kvstore s2) = apply_writes ws (kv_map (kvstore s)))"
proof -
  have ff: "from_file rand (raft_files (close_groups s)) s s1" by (rule initRaftGroups_from_file [OF assms(3,2)])
  then obtain self ps where new: "new_RaftNode rand gid self ps (concat (map log_line (map write_entry ws))) = Inr rn"
    using assms(4,5) by (fastforce simp: from_file_def getRaftGroup_def)
  have rn: "rlog rn = sentinel # map write_entry ws" "commitIndex rn = length ws" "lastApplied rn = 0"
    using new_RaftNode_load [of "map write_entry ws" rand gid self ps] new assms(6) write_one_line by (auto simp: list_all_iff)
  obtain rn' where tick: "tick rand' rn = Inr (rn', [])" "rlog rn' = rlog rn" "commitIndex rn' = commitIndex rn" "lastApplied rn' = 0"
    using first_tick [OF new, of rand'] rn(3) by auto
  have pend: "snd (takePendingApply rn') = map write_entry ws"
    using tick rn by (intro pending_all) simp_all
  let ?r = "\<lambda>rn. s1\<lparr>raft_groups := map_insert gid rn (raft_groups s1)\<rparr>"
  have "raft_round rand' s1 gid = (if ws = [] then Inr (?r rn') else foldE apply_entry (?r (fst (takePendingApply rn'))) (map write_entry ws))"
    using assms(4) tick rn pend
    by (cases "takePendingApply rn'") (simp add: raft_round_def run_raft_locked_def getRaftGroup_def hasPendingApply_def)
  moreover have "kvstore s1 = kvstore s" using ff by (simp add: from_file_def)
  ultimately show ?thesis using apply_writes_run [OF assms(6), of "?r (fst (takePendingApply rn'))"] assms(1)
    by (auto simp: apply_writes_def)
qed

text \<open>A server alone, whose log holds an old value of a key.\<close>

definition stale_log :: "logged_write list" where
  "stale_log = [(0, ''k'', Some ''old'')]"

definition stale_server :: "RespValue KVStore \<Rightarrow> Server" where
  "stale_server kv = lone_server\<lparr>kvstore := kv, raft_files := [0 \<mapsto> concat (map log_line (map write_entry stale_log))]\<rparr>"

theorem group_log_replayed_witness:
  "\<exists>kv s1. kv_set (new_KVStore SHARD_COUNT) ''k'' (SimpleString ''new'') = Inr (kv, None) \<and> kv_map kv ''k'' = Some (SimpleString ''new'') \<and>
     initRaftGroups (\<lambda>_. 0) (stale_server kv) = Inr s1 \<and>
     (raft_round (\<lambda>_. 0) s1 0 = Inl (Runtime_Error ''Empty position not found'') \<or>
      (\<exists>s2. raft_round (\<lambda>_. 0) s1 0 = Inr s2 \<and> kv_map (kvstore s2) = [''k'' \<mapsto> SimpleString ''old'']))"
proof -
  let ?r = "\<lambda>_ :: nat. 0 :: nat"
  obtain kv where kv: "kv_set (new_KVStore SHARD_COUNT) ''k'' (SimpleString ''new'') = Inr (kv, None)"
    using new_store_kv_set [of "''k''" "SimpleString ''new''"] by blast
  then have store: "kv_ok kv" "kv_map kv = [''k'' \<mapsto> SimpleString ''new'']"
    using kv_set_ok [OF kv.invar_new kv] by (simp_all add: kv.content_new)
  have topo: "map fst (topo (cluster (stale_server kv))) = [7]" "UUID (self_node (cluster (stale_server kv))) = 7"
    by (simp_all add: stale_server_def lone_server_def idle_Server_def new_Cluster_at_def addNodeToHash_def Let_def)
  have words: "list_all write_ok stale_log" by (simp add: stale_log_def write_ok_def is_word_def is_space_def)
  have files: "raft_files (close_groups (stale_server kv)) = [0 \<mapsto> concat (map log_line (map write_entry stale_log))]"
    by (simp add: close_groups_def stale_server_def)
  have "\<forall>e\<in>set (map write_entry stale_log). one_line e" using words write_one_line by (auto simp: list_all_iff)
  then have "logs_ok (raft_files (close_groups (stale_server kv)))"
    unfolding files logs_ok_def by (metis map_upd_Some_unfold option.distinct(1))
  then obtain s1 where s1: "initRaftGroups ?r (stale_server kv) = Inr s1" using initRaftGroups_succeeds by blast
  have "getRaftGroup 0 s1 \<noteq> None" using initRaftGroups_tables [OF s1 _ topo(1), of 0] topo
      group_indices_iff [of 0 "length [7 :: u64]" 0] by (auto simp: tables_ok_def getRaftGroup_def sorted_map_def)
  then obtain rn where "getRaftGroup 0 s1 = Some rn" by blast
  moreover have "topo (cluster (stale_server kv)) \<noteq> []" using topo(1) by auto
  moreover have "apply_writes stale_log (kv_map kv) = [''k'' \<mapsto> SimpleString ''old'']" by (simp add: store(2) apply_writes_def stale_log_def)
  ultimately have "raft_round ?r s1 0 = Inl (Runtime_Error ''Empty position not found'') \<or>
      (\<exists>s2. raft_round ?r s1 0 = Inr s2 \<and> kv_map (kvstore s2) = [''k'' \<mapsto> SimpleString ''old''])"
    using group_log_replayed [OF _ _ s1 _ _ words, of 0 rn ?r] files store(1) by (simp add: stale_server_def)
  then show ?thesis using kv s1 store(2) by simp
qed

end
