(* ===== verification/Kv_Client.thy ===== *)
theory Kv_Client
  imports Cluster_Join
begin

text \<open>
  The client, \<open>client/Client.cpp\<close>: reading a typed line, routing a request to a node, the exchange with
  the node, and the topology the client keeps.  The kernel is a parameter: how a \<open>::send\<close> goes, which
  bytes arrive, which descriptor a new connection has.  \<open>inbox\<close> holds the bytes that have arrived on a
  descriptor and were not read yet; one \<open>::recv\<close> takes at most as many of them as its buffer holds.
  The numbers drawn at random are a function \<open>draw\<close>: \<open>draw n\<close> is a number below \<open>n\<close>.

  The test \<open>request.size() > SSIZE_MAX\<close> of \<open>send\<close> never holds, since no \<open>std::string\<close> is that long; it
  has no counterpart here.
\<close>

section \<open>State\<close>

record Client =
  ccluster :: Cluster
  csocks :: "(int, RespParser) smap"
  last_sent_fd :: int
  cgroups :: groups
  inbox :: "int \<Rightarrow> string"

section \<open>Commands\<close>

definition lf :: string where
  "lf = [CHR 0x0A]"

definition help_text :: string where
  "help_text = ''Commands:'' @ lf @
     ''    SET key value        Set a key-value pair'' @ lf @
     ''    GET key              Get value by key'' @ lf @
     ''    DEL key              Delete a key'' @ lf @
     ''    EXIST key           Check if key exists'' @ lf @
     ''    HELP                 Show this message'' @ lf @
     ''    EXIT                 Disconnect and exit'' @ lf @ lf @
     ''Examples:'' @ lf @
     ''    SET mykey hello'' @ lf @
     ''    GET mykey'' @ lf @
     ''    DEL mykey'' @ lf @
     ''    EXIST mykey''"

text \<open>\<open>Client::handle\<close>; \<open>reqv[0]\<close> of a line without words is out of bounds.\<close>

definition client_handle :: "string \<Rightarrow> RespValue res" where
  "client_handle req = (case split_ws req of
     [] \<Rightarrow> Inl (UB Out_Of_Bounds)
   | c # args \<Rightarrow>
       if c = ''GET'' then
         (case args of [key] \<Rightarrow> Inr (Array (Some [SimpleString c, SimpleString key])) | _ \<Rightarrow> Inr (Error ''Usage: GET key''))
       else if c = ''SET'' then
         (case args of [key, v] \<Rightarrow> Inr (Array (Some [SimpleString c, SimpleString key, BulkString (Some v)]))
          | _ \<Rightarrow> Inr (Error ''Usage: SET key value''))
       else if c = ''DEL'' then
         (case args of [key] \<Rightarrow> Inr (Array (Some [SimpleString c, SimpleString key])) | _ \<Rightarrow> Inr (Error ''Usage: DEL key''))
       else if c = ''EXIST'' then
         (case args of [key] \<Rightarrow> Inr (Array (Some [SimpleString c, SimpleString key])) | _ \<Rightarrow> Inr (Error ''Usage: EXIST key''))
       else if c = ''HELP'' then Inr (Error help_text)
       else if c = ''EXIT'' then Inr (Error ''GoodBye.'')
       else if c = ''GETNETWORK'' then Inr (Array (Some [SimpleString c]))
       else Inr (Error ''Unknown command. Type HELP for assistance.''))"

definition extractKeyFromRequest :: "RespValue \<Rightarrow> string res" where
  "extractKeyFromRequest req = (case req of
     Array (Some (c # k # _)) \<Rightarrow>
       (case k of SimpleString key \<Rightarrow> Inr key | _ \<Rightarrow> Inl (Runtime_Error ''Key is not a SimpleString''))
   | _ \<Rightarrow> Inr [])"

definition isReadCommand :: "string \<Rightarrow> bool" where
  "isReadCommand cmd \<longleftrightarrow> cmd = ''GET'' \<or> cmd = ''EXIST''"

definition isWriteCommand :: "string \<Rightarrow> bool" where
  "isWriteCommand cmd \<longleftrightarrow> cmd = ''SET'' \<or> cmd = ''DEL''"

definition isMovedResponse :: "string \<Rightarrow> bool" where
  "isMovedResponse r \<longleftrightarrow> take 6 r = ''-MOVED''"

section \<open>Routing\<close>

text \<open>The members of the group whose first member owns the key, or else the first two nodes of the ring; the
  search for the latter may not end.\<close>

definition getReplicasForKey :: "string \<Rightarrow> Client \<Rightarrow> u64 list res" where
  "getReplicasForKey key c = bindE (queryNode (ccluster c) key) (\<lambda>master.
     case find (\<lambda>(gid, ms). ms \<noteq> [] \<and> ms ! 0 = master) (cgroups c) of
       Some (gid, ms) \<Rightarrow> Inr ms
     | None \<Rightarrow> (case queryReplicas (ccluster c) key 2 of None \<Rightarrow> Inl Hang | Some r \<Rightarrow> Inr r))"

definition routeRead :: "(nat \<Rightarrow> nat) \<Rightarrow> string \<Rightarrow> Client \<Rightarrow> u64 res" where
  "routeRead draw key c = bindE (getReplicasForKey key c) (\<lambda>replicas.
     Inr (if replicas = [] then randomNode (draw (length (topo (ccluster c)))) (ccluster c)
          else replicas ! draw (length replicas)))"

definition routeWrite :: "string \<Rightarrow> Client \<Rightarrow> u64 res" where
  "routeWrite key c = queryNode (ccluster c) key"

definition routeTarget :: "(nat \<Rightarrow> nat) \<Rightarrow> string \<Rightarrow> string \<Rightarrow> Client \<Rightarrow> u64 res" where
  "routeTarget draw cmd key c = (if isReadCommand cmd then routeRead draw key c else routeWrite key c)"

section \<open>Exchange with a node\<close>

definition getSocket :: "int \<Rightarrow> Client \<Rightarrow> RespParser res" where
  "getSocket fd c = (case map_of (csocks c) fd of
     None \<Rightarrow> Inl (Runtime_Error (''Socket not found for fd: '' @ int_to_string fd))
   | Some p \<Rightarrow> Inr p)"

text \<open>\<open>Client::send\<close>: the client and the bytes that were put on the wire of \<open>last_sent_fd\<close>.\<close>

definition send_request :: "(nat \<Rightarrow> nat) \<Rightarrow> send_io \<Rightarrow> string \<Rightarrow> string \<Rightarrow> bool \<Rightarrow> Client \<Rightarrow> (Client \<times> string) res" where
  "send_request draw io request key is_read c =
     bindE (if is_read then routeRead draw key c else routeWrite key c) (\<lambda>target_uuid.
     let target_fd = getConnection target_uuid (ccluster c) in
     if target_fd = -1 then Inl (Runtime_Error (''Failed to get connection for node UUID: '' @ to_string (unat target_uuid)))
     else let c = c\<lparr>last_sent_fd := target_fd\<rparr> in
       bindE (getSocket target_fd c) (\<lambda>_. bindE (client_send io request) (\<lambda>sent. Inr (c, sent))))"

text \<open>How a \<open>::recv\<close> ends that finds no byte.\<close>

datatype silence = Conn_Closed | Nothing_Yet | Recv_Failed string

text \<open>\<open>Client::recv\<close>; \<open>arrived\<close> is what comes in until the call returns.\<close>

definition recv_reply :: "string \<Rightarrow> silence \<Rightarrow> int \<Rightarrow> Client \<Rightarrow> (Client \<times> string) res" where
  "recv_reply arrived q target_fd c =
     (if target_fd = -1 then Inl (Runtime_Error ''Invalid target fd'')
      else bindE (getSocket target_fd c) (\<lambda>_.
        let str = inbox c target_fd @ arrived in
        if str \<noteq> [] then Inr (c\<lparr>inbox := (inbox c)(target_fd := drop 1024 str)\<rparr>, take 1024 str)
        else case q of
          Conn_Closed \<Rightarrow> Inl (Runtime_Error ''Connection closed'')
        | Nothing_Yet \<Rightarrow> Inr (c, [])
        | Recv_Failed e \<Rightarrow> Inl (Runtime_Error (''Recv error: '' @ e))))"

section \<open>Topology\<close>

definition getnetwork_cmd :: string where
  "getnetwork_cmd = ''*1'' @ crlf @ ''+GETNETWORK'' @ crlf"

text \<open>Here also an interrupted call is an error.\<close>

definition send_network :: "send_io \<Rightarrow> string res" where
  "send_network io = (case send_loop (takeWhile (\<lambda>a. a \<notin> {Interrupted, Wrote 0}) (fst io)) (snd io) [] getnetwork_cmd of
     (sent, None) \<Rightarrow> Inr sent
   | _ \<Rightarrow> Inl (Runtime_Error ''Failed to send GETNETWORK''))"

text \<open>The loop of \<open>::recv\<close> with a buffer of 1024 bytes: \<open>str\<close> are the bytes that are there, \<open>arrivals\<close> those that
  will come before the connection ends.  It returns the parser and the bytes that were not read.\<close>

function recv_network :: "string list \<Rightarrow> string \<Rightarrow> RespParser \<Rightarrow> (RespParser \<times> string) res" where
  "recv_network arrivals str p =
     (if hasResult p then Inr (p, str @ concat arrivals)
      else if str \<noteq> [] then bindE (append p (take 1024 str)) (recv_network arrivals (drop 1024 str))
      else case arrivals of
        [] \<Rightarrow> Inl (Runtime_Error ''Failed to recv GETNETWORK'')
      | a # as \<Rightarrow> recv_network as a p)"
  by pat_completeness auto
termination
  by (relation "measures [\<lambda>(arrivals, str, p). length arrivals, \<lambda>(arrivals, str, p). length str]") auto

declare recv_network.simps [simp del]

record network_io =
  net_send :: send_io
  net_arrivals :: "string list"
  node_fd :: "nat \<Rightarrow> int res"

definition learn_nodes_of :: "Node list \<Rightarrow> Client \<Rightarrow> Client" where
  "learn_nodes_of nodes c = c\<lparr>ccluster := fold (\<lambda>n cl. addNodeToHash (UUID n) (addTopoNode n cl)) nodes (ccluster c)\<rparr>"

definition keep_socket :: "u64 \<Rightarrow> int \<Rightarrow> Client \<Rightarrow> Client" where
  "keep_socket uuid fd c = c\<lparr>ccluster := addConnection uuid fd (ccluster c), csocks := map_insert fd new_RespParser (csocks c)\<rparr>"

text \<open>The loop of the constructor that connects to the nodes; \<open>sock_fd\<close> is the descriptor of the first socket,
  which is -1 once the socket was moved into the map.\<close>

definition connect_known :: "string \<Rightarrow> u16 \<Rightarrow> network_io \<Rightarrow> Client \<times> int \<Rightarrow> nat \<times> Node \<Rightarrow> (Client \<times> int) res" where
  "connect_known addr prt io = (\<lambda>(c, sock_fd) (i, n).
     if ip n = addr \<and> port n = prt then Inr (keep_socket (UUID n) sock_fd c, -1)
     else bindE (node_fd io i) (\<lambda>fd. Inr (keep_socket (UUID n) fd c, sock_fd)))"

definition number :: "'a list \<Rightarrow> (nat \<times> 'a) list" where
  "number xs = zip [0..<length xs] xs"

text \<open>The constructor; \<open>uuid\<close> is what the cluster draws for the client, \<open>boot\<close> the first connection.\<close>

definition new_Client :: "u64 \<Rightarrow> int res \<Rightarrow> network_io \<Rightarrow> string \<Rightarrow> u16 \<Rightarrow> Client res" where
  "new_Client uuid boot io addr prt = bindE boot (\<lambda>fd.
     bindE (send_network (net_send io)) (\<lambda>_.
     bindE (recv_network (net_arrivals io) [] new_RespParser) (\<lambda>(p, rest).
     bindE (getTopoV2 (the (fst (getResult p))) []) (\<lambda>(topo_vec, groups).
     let c = \<lparr>ccluster = new_Cluster uuid, csocks = [], last_sent_fd = -1, cgroups = groups, inbox = (\<lambda>_. [])(fd := rest)\<rparr>
     in bindE (foldE (connect_known addr prt io) (learn_nodes_of topo_vec c, fd) (number topo_vec)) (\<lambda>(c, _). Inr c)))))"

definition connect_new :: "network_io \<Rightarrow> Client \<Rightarrow> nat \<times> Node \<Rightarrow> Client res" where
  "connect_new io c = (\<lambda>(i, n).
     if map_of (csocks c) (getConnection (UUID n) (ccluster c)) \<noteq> None then Inr c
     else bindE (node_fd io i) (\<lambda>fd. Inr (keep_socket (UUID n) fd c)))"

definition refreshTopology :: "network_io \<Rightarrow> Client \<Rightarrow> Client res" where
  "refreshTopology io c = (case csocks c of
     [] \<Rightarrow> Inr c
   | (any_fd, _) # _ \<Rightarrow>
       bindE (send_network (net_send io)) (\<lambda>_.
       bindE (recv_network (net_arrivals io) (inbox c any_fd) new_RespParser) (\<lambda>(p, rest).
       let (v, p) = getResult p;
           c = c\<lparr>csocks := map_insert any_fd p (csocks c), inbox := (inbox c)(any_fd := rest)\<rparr> in
       bindE (getTopoV2 (the v) (cgroups c)) (\<lambda>(topo_vec, groups).
         foldE (connect_new io) (learn_nodes_of topo_vec (c\<lparr>cgroups := groups\<rparr>)) (number topo_vec)))))"

section \<open>The prompt\<close>

text \<open>What the world does while one line is executed; the second half is used only after a redirection.\<close>

record exchange_io =
  draw :: "nat \<Rightarrow> nat"
  out_io :: send_io
  reply :: string
  silent :: silence

record line_io =
  first_try :: exchange_io
  refresh_io :: network_io
  second_try :: exchange_io

definition exchange :: "exchange_io \<Rightarrow> string \<Rightarrow> string \<Rightarrow> bool \<Rightarrow> Client \<Rightarrow> (Client \<times> string) res" where
  "exchange io encoded key is_read c =
     bindE (send_request (draw io) (out_io io) encoded key is_read c) (\<lambda>(c, _).
       recv_reply (reply io) (silent io) (last_sent_fd c) c)"

text \<open>One turn of \<open>run\<close>: the client, what it prints (without the messages of \<open>refreshTopology\<close>), and whether it
  stops.\<close>

definition client_line :: "line_io \<Rightarrow> string \<Rightarrow> Client \<Rightarrow> (Client \<times> string list \<times> bool) res" where
  "client_line io input c =
     (if input = [] then Inr (c, [], False)
      else bindE (client_handle input) (\<lambda>req. case req of
        Error e \<Rightarrow> Inr (c, [e], e = ''GoodBye.'')
      | Array (Some (SimpleString cmd # _)) \<Rightarrow>
          bindE (extractKeyFromRequest req) (\<lambda>key.
          let is_read = isReadCommand cmd; encoded = encode req in
          bindE (exchange (first_try io) encoded key is_read c) (\<lambda>(c, r).
            if isMovedResponse r then
              bindE (refreshTopology (refresh_io io) c) (\<lambda>c.
              bindE (exchange (second_try io) encoded key is_read c) (\<lambda>(c, r').
                Inr (c, [r @ '' (retrying...)'', r'], False)))
            else Inr (c, [r], False)))
      | _ \<Rightarrow> Inl (UB Null_Deref)))"

fun client_run :: "(line_io \<times> string) list \<Rightarrow> Client \<Rightarrow> (Client \<times> string list) res" where
  "client_run [] c = Inr (c, [])"
| "client_run ((io, input) # rest) c = bindE (client_line io input c) (\<lambda>(c, out, stopped).
     if stopped then Inr (c, out) else bindE (client_run rest c) (\<lambda>(c, out'). Inr (c, out @ out')))"

end
