(* ===== verification/Client_Properties.thy ===== *)
theory Client_Properties
  imports Kv_Client
begin

text \<open>
  What the client does to the user and to the nodes: its requests are well formed, it routes like the
  node it asked for the network, what it prints is what the node answered, and where that fails.
\<close>

section \<open>Words of a line\<close>

lemma split_ws_aux_words:
  assumes "w \<in> set (split_ws_aux tok s)" "\<forall>c\<in>set tok. \<not> is_space c"
  shows "is_word w \<and> length w \<le> length tok + length s"
  using assms
proof (induction tok s rule: split_ws_aux.induct)
  case (1 tok)
  then show ?case by (auto simp: is_word_def split: if_splits)
next
  case (2 tok c cs)
  show ?case
  proof (cases "is_space c")
    case True
    then have "w = tok \<and> tok \<noteq> [] \<or> w \<in> set (split_ws_aux [] cs)" using 2(4) by (auto split: if_splits)
    then show ?thesis using 2(1,2) [OF True] 2(5) by (cases "tok = []") (fastforce simp: is_word_def)+
  next
    case False
    then show ?thesis using 2(3) [OF False] 2(4,5) by auto
  qed
qed

lemma split_ws_words: "w \<in> set (split_ws s) \<Longrightarrow> is_word w \<and> length w \<le> length s"
  using split_ws_aux_words [of w "[]" s] by (simp add: split_ws_def)

lemma word_line_ok: "is_word w \<Longrightarrow> line_ok w"
proof -
  have "is_space (CHR 0x0D)" by (simp add: is_space_def)
  then show "is_word w \<Longrightarrow> line_ok w" by (auto simp: is_word_def line_ok_def)
qed

section \<open>Requests\<close>

lemma client_handle_cases:
  assumes "client_handle input = Inr v"
  obtains (Message) e where "v = Error e"
  | (Data) r where "v = request_of r" "\<And>x. r = Exist x \<or> r = Get x \<Longrightarrow> x \<in> set (split_ws input)"
      "\<And>x w. r = Set x w \<Longrightarrow> x \<in> set (split_ws input) \<and> (\<exists>b \<in> set (split_ws input). w = BulkString (Some b))"
  | (Delete) key where "v = Array (Some [SimpleString ''DEL'', SimpleString key])" "key \<in> set (split_ws input)"
  | (Network) "v = Array (Some [SimpleString ''GETNETWORK''])"
proof -
  obtain c args where s: "split_ws input = c # args" using assms by (auto simp: client_handle_def split: list.splits)
  show thesis
  proof (cases "\<exists>e. v = Error e")
    case True
    then show ?thesis using Message by blast
  next
    case False
    then consider key where "v = request_of (Get key)" "args = [key]" | key w where "v = request_of (Set key (BulkString (Some w)))" "args = [key, w]"
      | key where "v = Array (Some [SimpleString ''DEL'', SimpleString key])" "args = [key]"
      | key where "v = request_of (Exist key)" "args = [key]" | "v = Array (Some [SimpleString ''GETNETWORK''])"
      using assms unfolding client_handle_def s list.case
      by (elim if_eqE) (auto split: list.splits)
    then show ?thesis
    proof cases
      case (1 key)
      then show ?thesis using s by (intro Data [of "Get key"]) auto
    next
      case (2 key w)
      then show ?thesis using s by (intro Data [of "Set key (BulkString (Some w))"]) auto
    next
      case (3 key)
      then show ?thesis using s by (intro Delete [of key]) auto
    next
      case (4 key)
      then show ?thesis using s by (intro Data [of "Exist key"]) auto
    next
      case 5
      then show ?thesis by (rule Network)
    qed
  qed
qed

section \<open>Learning the network\<close>

lemma recv_network_run:
  assumes "append p (str @ concat arrivals) = Inr q" "message_queue q = [v]" "between_messages q"
  shows "recv_network arrivals str p = Inr (q, [])"
  using assms(1)
proof (induction arrivals str p rule: recv_network.induct)
  case (1 arrivals str p)
  show ?case
  proof (cases "hasResult p")
    case True
    with result_complete [OF True 1(3) assms(2,3)] show ?thesis by (auto simp: recv_network.simps [of arrivals])
  next
    case False
    show ?thesis
    proof (cases "str = []")
      case True
      then obtain a as where a: "arrivals = a # as" using 1(3) False assms(2) by (cases arrivals) (auto simp: hasResult_def)
      then show ?thesis using 1(2) [OF False] True 1(3) False by (simp add: recv_network.simps [of "a # as"])
    next
      case str: False
      have "append p (take 1024 str @ drop 1024 str @ concat arrivals) = Inr q" using 1(3) by (simp flip: append_assoc)
      then obtain p1 where p1: "append p (take 1024 str) = Inr p1" "append p1 (drop 1024 str @ concat arrivals) = Inr q"
        unfolding append_append [of p "take 1024 str"] by (rule bindE_InrE)
      then show ?thesis using 1(1) [OF False str, of p1] str False by (simp add: recv_network.simps [of arrivals])
    qed
  qed
qed

text \<open>A node the client can send to.\<close>

definition linked :: "Client \<Rightarrow> u64 \<Rightarrow> bool" where
  "linked c u \<longleftrightarrow> getConnection u (ccluster c) \<noteq> -1 \<and> map_of (csocks c) (getConnection u (ccluster c)) \<noteq> None"

definition socks_sorted :: "Client \<Rightarrow> bool" where
  "socks_sorted c \<longleftrightarrow> sorted_map (csocks c) \<and> sorted_map (connections (ccluster c))"

lemma keep_socket:
  assumes "socks_sorted c" "fd \<noteq> -1"
  shows "socks_sorted (keep_socket u fd c)" "linked (keep_socket u fd c) u" "linked c w \<Longrightarrow> linked (keep_socket u fd c) w"
    "topo (ccluster (keep_socket u fd c)) = topo (ccluster c)" "node_hash (ccluster (keep_socket u fd c)) = node_hash (ccluster c)"
    "cgroups (keep_socket u fd c) = cgroups c" "inbox (keep_socket u fd c) = inbox c"
  using assms by (auto simp: socks_sorted_def linked_def keep_socket_def addConnection_def getConnection_def split: option.splits)

lemma connect_all:
  assumes "\<And>i. \<exists>f. node_fd io i = Inr f \<and> f \<noteq> -1" "distinct (map (\<lambda>n. (ip n, port n)) ns)"
    and "fd \<noteq> -1 \<or> (addr, prt) \<notin> (\<lambda>n. (ip n, port n)) ` set ns" "socks_sorted c" "length ks = length ns"
  shows "\<exists>c' fd'. foldE (connect_known addr prt io) (c, fd) (zip ks ns) = Inr (c', fd') \<and> socks_sorted c' \<and>
    topo (ccluster c') = topo (ccluster c) \<and> node_hash (ccluster c') = node_hash (ccluster c) \<and>
    cgroups c' = cgroups c \<and> inbox c' = inbox c \<and> (\<forall>w. linked c w \<or> w \<in> UUID ` set ns \<longrightarrow> linked c' w)"
  using assms(2-)
proof (induction ns arbitrary: c fd ks)
  case (Cons n ns)
  obtain k ks' where ks: "ks = k # ks'" "length ks' = length ns" using Cons.prems(4) by (cases ks) auto
  obtain f where f: "node_fd io k = Inr f" "f \<noteq> -1" using assms(1) by blast
  define d where "d = (if ip n = addr \<and> port n = prt then fd else f)"
  define fd1 where "fd1 = (if ip n = addr \<and> port n = prt then -1 else fd)"
  have d: "d \<noteq> -1" using f(2) Cons.prems(2) by (auto simp: d_def)
  have s: "connect_known addr prt io (c, fd) (k, n) = Inr (keep_socket (UUID n) d c, fd1)"
    using f(1) by (simp add: connect_known_def d_def fd1_def)
  have "fd1 \<noteq> -1 \<or> (addr, prt) \<notin> (\<lambda>n. (ip n, port n)) ` set ns" using Cons.prems(1,2) by (auto simp: fd1_def)
  from Cons.IH [OF _ this keep_socket(1) [OF Cons.prems(3) d] ks(2), of "UUID n"]
  obtain c' fd' where c': "foldE (connect_known addr prt io) (keep_socket (UUID n) d c, fd1) (zip ks' ns) = Inr (c', fd')"
      "socks_sorted c'" "topo (ccluster c') = topo (ccluster c)" "node_hash (ccluster c') = node_hash (ccluster c)"
      "cgroups c' = cgroups c" "inbox c' = inbox c"
      "\<forall>w. linked (keep_socket (UUID n) d c) w \<or> w \<in> UUID ` set ns \<longrightarrow> linked c' w"
    using Cons.prems(1) keep_socket(4-7) [OF Cons.prems(3) d, of "UUID n"] by auto
  have "linked c' w" if "linked c w \<or> w \<in> UUID ` set (n # ns)" for w
    using that c'(7) [rule_format, of w] keep_socket(2,3) [OF Cons.prems(3) d] by auto
  then show ?case using c'(1-6) s ks(1) by auto
qed simp

lemma learn_nodes_of:
  assumes "sorted_map (topo (ccluster c))"
  shows "sorted_map (topo (ccluster (learn_nodes_of ns c))) \<and>
    map_of (topo (ccluster (learn_nodes_of ns c))) = map_of (topo (ccluster c)) ++ map_of (rev (map (\<lambda>n. (UUID n, n)) ns)) \<and>
    node_hash (ccluster (learn_nodes_of ns c)) = run_members (node_hash (ccluster c)) (map (\<lambda>n. Join (UUID n)) ns)"
  using fold_learn [OF _ _ assms, of "\<lambda>n cl. addNodeToHash (UUID n) (addTopoNode n cl)" ns]
  by (simp add: learn_nodes_of_def addTopoNode_def addNodeToHash_def)

lemma learn_nodes_of_frame:
  "connections (ccluster (learn_nodes_of ns c)) = connections (ccluster c)" "csocks (learn_nodes_of ns c) = csocks c"
  "cgroups (learn_nodes_of ns c) = cgroups c" "inbox (learn_nodes_of ns c) = inbox c"
proof -
  have "connections (fold (\<lambda>n cl. addNodeToHash (UUID n) (addTopoNode n cl)) ns cl) = connections cl" for cl
    by (induction ns arbitrary: cl) (simp_all add: addTopoNode_def addNodeToHash_def)
  then show "connections (ccluster (learn_nodes_of ns c)) = connections (ccluster c)" by (simp add: learn_nodes_of_def)
qed (simp_all add: learn_nodes_of_def)

text \<open>The ring of a node that has exactly the nodes of its topology on it, none of which share positions.\<close>

definition ring_matches_topo :: "Cluster \<Rightarrow> bool" where
  "ring_matches_topo c \<longleftrightarrow> ring_of vpoints (fst ` set (topo c)) (node_hash c) \<and>
     (\<forall>a\<in>fst ` set (topo c). \<forall>b\<in>fst ` set (topo c). a \<noteq> b \<longrightarrow> \<not> chained a b)"

lemma members_joins: "members S (map Join us) = S \<union> set us"
  by (induction us arbitrary: S) auto

lemma run_joins:
  assumes "\<forall>a\<in>set us. \<forall>b\<in>set us. a \<noteq> b \<longrightarrow> \<not> chained a b"
  shows "ring_of vpoints (set us) (run_members [] (map Join us))"
proof -
  have "event_node ` set (map Join us) = set us" by (auto simp: image_image)
  then show ?thesis using run_members_ring_of [of "map Join us"] assms by (simp only: members_joins Un_empty_left)
qed

lemma ring_of_joins:
  assumes "ring_matches_topo c"
  shows "run_members [] (map Join (map fst (topo c))) = node_hash c"
  using run_joins [of "map fst (topo c)"] assms vring.ring_of_unique by (simp add: ring_matches_topo_def)

lemma fold_learn_ring:
  "node_hash (fold (\<lambda>n cl. addNodeToHash (UUID n) (addTopoNode n cl)) ns c) = run_members (node_hash c) (map (\<lambda>n. Join (UUID n)) ns)"
  by (induction ns arbitrary: c) (simp_all add: addTopoNode_def addNodeToHash_def)

text \<open>Nodes that are on the ring already do not change it when they are added again.\<close>

lemma rejoin_ring:
  assumes "m = run_members [] es" "\<forall>a\<in>event_node ` set es. \<forall>d\<in>event_node ` set es. a \<noteq> d \<longrightarrow> \<not> chained a d"
    and "set (map fst tp) \<subseteq> members {} es"
  shows "run_members m (map Join (map fst tp)) = m"
proof -
  let ?js = "map Join (map fst tp)" and ?U = "event_node ` set es"
  note mem = members_subset [of "{}" es]
  have r: "ring_of vpoints (members {} es) m" unfolding assms(1) using assms(2) by (rule run_members_ring_of)
  have "event_node ` set ?js = set (map fst tp)" by (auto simp: image_image)
  then have "event_node ` set ?js \<subseteq> ?U" using assms(3) mem by blast
  then have "ring_of vpoints (members (members {} es) ?js) (run_members m ?js)"
    unfolding run_members_eq using vring.ring_of_events [OF r, of ?U ?js] mem assms(2) by auto
  moreover have "members (members {} es) ?js = members {} es" unfolding members_joins using assms(3) by auto
  ultimately show ?thesis using r vring.ring_of_unique by metis
qed

section \<open>An exchange\<close>

lemma recv_reply_some:
  assumes "fd \<noteq> -1" "map_of (csocks c) fd \<noteq> None" "inbox c fd @ arrived \<noteq> []"
  shows "recv_reply arrived q fd c =
    Inr (c\<lparr>inbox := (inbox c)(fd := drop 1024 (inbox c fd @ arrived))\<rparr>, take 1024 (inbox c fd @ arrived))"
  using assms by (auto simp: recv_reply_def getSocket_def Let_def)

lemma exchange_eq:
  assumes "(if is_read then routeRead (draw io) key c else routeWrite key c) = Inr u" "linked c u"
    and "getConnection u (ccluster c) = fd" "client_send (out_io io) encoded = Inr sent" "inbox c fd @ reply io \<noteq> []"
  shows "exchange io encoded key is_read c =
    Inr (c\<lparr>last_sent_fd := fd, inbox := (inbox c)(fd := drop 1024 (inbox c fd @ reply io))\<rparr>, take 1024 (inbox c fd @ reply io))"
proof -
  have fd: "fd \<noteq> -1" "map_of (csocks c) fd \<noteq> None" using assms(2,3) by (auto simp: linked_def)
  have "send_request (draw io) (out_io io) encoded key is_read c = Inr (c\<lparr>last_sent_fd := fd\<rparr>, sent)"
    using assms fd unfolding send_request_def by (auto simp: Let_def getSocket_def)
  then show ?thesis using recv_reply_some [of fd "c\<lparr>last_sent_fd := fd\<rparr>" "reply io" "silent io"] fd assms(5)
    by (simp add: exchange_def)
qed

lemma exchange_short:
  assumes "(if is_read then routeRead (draw io) key c else routeWrite key c) = Inr u" "linked c u"
    and "getConnection u (ccluster c) = fd" "client_send (out_io io) encoded = Inr sent"
    and "inbox c fd = []" "reply io \<noteq> []" "length (reply io) \<le> 1024"
  shows "exchange io encoded key is_read c = Inr (c\<lparr>last_sent_fd := fd\<rparr>, reply io)"
proof -
  have "(inbox c)(fd := []) = inbox c" using assms(5) by (simp add: fun_upd_idem)
  then show ?thesis using exchange_eq [OF assms(1-4)] assms(5-7) by simp
qed

section \<open>Example states\<close>

definition boot_io :: "Server \<Rightarrow> network_io" where
  "boot_io b = \<lparr>net_send = ([Wrote 100], Send_Blocked), net_arrivals = [GETNETWORK b], node_fd = (\<lambda>i. Inr (int i + 10))\<rparr>"

lemma lone_server_network:
  "topo (cluster lone_server) = [(7, \<lparr>ip = ''10.0.0.1'', port = 7800, UUID = 7\<rparr>)]" "groupMembers lone_server = []"
  "ring_matches_topo (cluster lone_server)" "topo_ok (topo (cluster lone_server))" "topo_keyed (topo (cluster lone_server))"
  "groups_ok (groupMembers lone_server)"
proof -
  show t: "topo (cluster lone_server) = [(7, \<lparr>ip = ''10.0.0.1'', port = 7800, UUID = 7\<rparr>)]" "groupMembers lone_server = []"
    by (simp_all add: lone_server_def idle_Server_def Let_def addNodeToHash_def new_Cluster_at_def)
  show "ring_matches_topo (cluster lone_server)"
    using run_joins [of "[7]"] by (simp add: ring_matches_topo_def t lone_server_ring)
qed (simp_all add: topo_ok_def topo_keyed_def groups_ok_def sorted_map_def line_ok_def vector_max_size_def lone_server_def
    idle_Server_def Let_def addNodeToHash_def new_Cluster_at_def)

lemma boot_io_send: "send_network (net_send (boot_io b)) = Inr getnetwork_cmd"
  by (simp add: boot_io_def send_network_def getnetwork_cmd_def crlf_def)

lemma lone_server_set_get:
  "\<exists>s. serve rand lone_server [(0, 0, 9, request_of (Set key (BulkString (Some v)))), (0, 0, 9, request_of (Get key))] = Inr s"
proof -
  let ?v = "BulkString (Some v)"
  obtain kv where kv: "kv_set (kvstore lone_server) key ?v = Inr (kv, None)" using new_store_kv_set [of key ?v] by auto
  obtain kv' where kv': "kv_get kv key = Inr (kv', Some ?v)" using kv_set_get [OF _ kv] kv.invar_new by auto
  have p: "propose_for key cmd lone_server = Inr lone_server" for cmd
    by (simp add: propose_for_def getGroupForKey_def lone_server_owns)
  have w: "value_string ?v = Inr v" by (simp add: value_string_def)
  let ?s = "lone_server\<lparr>aof := aof_append_text 0 (encode (request_of (Set key ?v))) (aof lone_server), kvstore := kv\<rparr>"
  have "handleCommand rand 0 0 9 (request_of (Set key ?v)) lone_server = Inr (enqueue_msg (encode (SimpleString ''OK'')) 9 ?s)"
    using SET_stores [OF lone_server_owns(2) w p kv, of 0 "SimpleString ''SET''"]
    by (simp add: handleCommand_def handle_def del: encode_Array)
  moreover have "\<exists>s. handleCommand rand 0 0 9 (request_of (Get key)) (enqueue_msg (encode (SimpleString ''OK'')) 9 ?s) = Inr s"
    using kv' by (simp add: handleCommand_def handle_def GET_def request_elements_def getValue_eq enqueue_msg_def)
  ultimately show ?thesis by (auto simp: serve_def)
qed

text \<open>A client connected to the lone server, and an exchange in which the node answers \<open>r\<close>.\<close>

definition lone_client :: Client where
  "lone_client = \<lparr>ccluster = addConnection 7 5 (cluster lone_server), csocks = [(5, new_RespParser)], last_sent_fd = -1,
     cgroups = [(0, [7])], inbox = (\<lambda>_. [])\<rparr>"

definition answer_io :: "string \<Rightarrow> exchange_io" where
  "answer_io r = \<lparr>draw = (\<lambda>_. 0), out_io = ([Wrote 1000], Send_Blocked), reply = r, silent = Conn_Closed\<rparr>"

definition plain_io :: "string \<Rightarrow> line_io" where
  "plain_io r = \<lparr>first_try = answer_io r, refresh_io = boot_io lone_server, second_try = answer_io r\<rparr>"

lemma lone_client_routes:
  "routeWrite key lone_client = Inr 7" "getReplicasForKey key lone_client = Inr [7]" "linked lone_client 7"
  "getConnection 7 (ccluster lone_client) = 5" "inbox lone_client fd = []"
proof -
  have q: "queryNode (ccluster lone_client) key = Inr 7"
    using lone_server_owns(1) [of key] by (simp add: lone_client_def queryNode_def addConnection_def)
  then show "routeWrite key lone_client = Inr 7" "getReplicasForKey key lone_client = Inr [7]"
    by (simp_all add: routeWrite_def getReplicasForKey_def) (simp add: lone_client_def)
  show "linked lone_client 7" "getConnection 7 (ccluster lone_client) = 5" "inbox lone_client fd = []"
    by (simp_all add: lone_client_def linked_def getConnection_def addConnection_def)
qed

section \<open>Properties\<close>

text \<open>C28. The client's requests are well typed: a typed line either is blank, in which case the program reads
  past the end of an empty vector, or gives a message for the user, or gives a request that is an array
  of a known command and its arguments, has a key that can be routed, and is read back by a node's
  parser exactly as it was meant.\<close>

theorem client_requests_wellformed:
  assumes "length input \<le> string_max_size"
  shows "case client_handle input of
      Inl e \<Rightarrow> e = UB Out_Of_Bounds \<and> split_ws input = []
    | Inr v \<Rightarrow> (\<exists>e. v = Error e) \<or>
        resp_ok v \<and> (\<exists>key. extractKeyFromRequest v = Inr key) \<and>
        (\<exists>cmd args. v = Array (Some (SimpleString cmd # args)) \<and> cmd \<in> {''GET'', ''SET'', ''DEL'', ''EXIST'', ''GETNETWORK''}) \<and>
        (\<exists>p. append new_RespParser (encode v) = Inr p \<and> message_queue p = [v])"
proof (cases "client_handle input")
  case (Inl e)
  then show ?thesis
    by (cases "split_ws input") (auto simp: client_handle_def split: list.splits if_splits)
next
  case (Inr v)
  have w: "line_ok x \<and> length x \<le> string_max_size" if "x \<in> set (split_ws input)" for x
    using split_ws_words [OF that] word_line_ok assms by auto
  have settled: ?thesis if "resp_ok v" "\<exists>key. extractKeyFromRequest v = Inr key"
      "\<exists>cmd args. v = Array (Some (SimpleString cmd # args)) \<and> cmd \<in> {''GET'', ''SET'', ''DEL'', ''EXIST'', ''GETNETWORK''}"
    using that parse_one [OF between_messages_new that(1)] unfolding Inr sum.case by fastforce
  from Inr show ?thesis
  proof (cases rule: client_handle_cases)
    case (Data r)
    then show ?thesis using w by (intro settled; cases r) (auto simp: line_ok_def vector_max_size_def extractKeyFromRequest_def)
  next
    case (Delete key)
    then show ?thesis using w by (intro settled) (auto simp: line_ok_def vector_max_size_def extractKeyFromRequest_def)
  next
    case Network
    then show ?thesis by (intro settled) (auto simp: line_ok_def vector_max_size_def extractKeyFromRequest_def)
  qed (use Inr in simp)
qed

theorem client_requests_wellformed_witness:
  "\<exists>v p. client_handle ''SET k v'' = Inr v \<and> resp_ok v \<and> append new_RespParser (encode v) = Inr p \<and> message_queue p = [v]"
proof -
  have "split_ws ''SET k v'' = [''SET'', ''k'', ''v'']" by (simp add: split_ws_def is_space_def)
  then have "client_handle ''SET k v'' = Inr (Array (Some [SimpleString ''SET'', SimpleString ''k'', BulkString (Some ''v'')]))"
    by (simp add: client_handle_def)
  with client_requests_wellformed [of "''SET k v''"] show ?thesis by (simp add: string_max_size_def)
qed

text \<open>C12. A client that has just connected routes like the cluster: from the answer of any node whose ring
  carries exactly the nodes of its topology, the constructor builds a client with the same topology, the
  same groups and the same ring, so that it sends every write to the node the cluster regards as the
  owner, and it has a connection to every node.\<close>

theorem client_routes_like_cluster:
  assumes "fd \<noteq> -1" "send_network (net_send io) = Inr sent" "\<And>i. \<exists>f. node_fd io i = Inr f \<and> f \<noteq> -1"
    and "topo_ok (topo (cluster b))" "topo_keyed (topo (cluster b))" "groups_ok (groupMembers b)"
    and "concat (net_arrivals io) = GETNETWORK b" "distinct (map (\<lambda>(u, n). (ip n, port n)) (topo (cluster b)))"
    and "ring_matches_topo (cluster b)"
  shows "\<exists>c. new_Client uuid (Inr fd) io addr prt = Inr c \<and> cgroups c = groupMembers b \<and> topo (ccluster c) = topo (cluster b) \<and>
    (\<forall>key. routeWrite key c = queryNode (cluster b) key) \<and> (\<forall>u\<in>fst ` set (topo (cluster b)). linked c u)"
proof -
  let ?tp = "topo (cluster b)" and ?v = "network_resp (topo (cluster b)) (groupMembers b)"
  obtain p where p: "append new_RespParser (GETNETWORK b) = Inr p" "message_queue p = [?v]" "between_messages p"
    using parse_one [OF between_messages_new network_resp_ok [OF assms(4,6)]] by (auto simp: GETNETWORK_eq)
  have recv: "recv_network (net_arrivals io) [] new_RespParser = Inr (p, [])"
    using recv_network_run [OF _ p(2,3), of new_RespParser "[]"] p(1) assms(7) by simp
  have get: "getTopoV2 (the (fst (getResult p))) [] = Inr (map snd ?tp, groupMembers b)"
    using p(2) by (simp add: getResult_def hasResult_def getTopoV2_network [OF assms(6)])
  define c0 where "c0 = \<lparr>ccluster = new_Cluster uuid, csocks = [], last_sent_fd = -1, cgroups = groupMembers b, inbox = (\<lambda>_. [])(fd := [])\<rparr>"
  let ?c1 = "learn_nodes_of (map snd ?tp) c0"
  have j: "map (\<lambda>n. Join (UUID n)) (map snd ?tp) = map Join (map fst ?tp)" and u: "UUID ` set (map snd ?tp) = fst ` set ?tp"
    using assms(5) by (force simp: topo_keyed_def)+
  have "map_of (rev ?tp) = map_of ?tp" using assms(5) by (intro map_of_rev sorted_map_distinct) (simp add: topo_keyed_def)
  then have c1: "topo (ccluster ?c1) = ?tp" "node_hash (ccluster ?c1) = node_hash (cluster b)"
    using learn_nodes_of [of c0 "map snd ?tp", unfolded topo_keyed_map [OF assms(5)] j] ring_of_joins [OF assms(9)] assms(5)
    by (auto simp: c0_def new_Cluster_def topo_keyed_def intro: sorted_map_unique)
  have "socks_sorted ?c1" by (simp add: socks_sorted_def learn_nodes_of_frame c0_def new_Cluster_def)
  from connect_all [OF assms(3) _ _ this, of "map snd ?tp" fd addr prt "[0..<length ?tp]"]
  obtain c fd' where c: "foldE (connect_known addr prt io) (?c1, fd) (number (map snd ?tp)) = Inr (c, fd')"
      "topo (ccluster c) = ?tp" "node_hash (ccluster c) = node_hash (cluster b)" "cgroups c = groupMembers b"
      "\<forall>u\<in>fst ` set ?tp. linked c u"
    using assms(1,8) c1 u by (auto simp: number_def o_def case_prod_unfold learn_nodes_of_frame c0_def)
  have "new_Client uuid (Inr fd) io addr prt = Inr c"
    using assms(2) recv get c(1) by (simp add: new_Client_def Let_def c0_def [symmetric])
  then show ?thesis using c(2-5) by (auto simp: routeWrite_def queryNode_def)
qed

theorem client_routes_like_cluster_witness:
  "\<exists>c. new_Client 99 (Inr 5) (boot_io lone_server) ''10.0.0.1'' 7800 = Inr c \<and> routeWrite ''k'' c = Inr 7 \<and> linked c 7"
proof -
  have "\<exists>f. node_fd (boot_io lone_server) i = Inr f \<and> f \<noteq> -1" for i by (simp add: boot_io_def)
  with client_routes_like_cluster [OF _ boot_io_send this lone_server_network(4-6) _ _ lone_server_network(3), of 5]
  show ?thesis by (fastforce simp: boot_io_def lone_server_network(1) lone_server_owns)
qed



text \<open>A long answer spoils the next one: \<open>run\<close> prints what one call of \<open>::recv\<close> returns, at most 1024 bytes;
  the rest of a longer answer stays in the socket and is printed, before the answer that belongs there,
  for the next command that goes to the same node.\<close>

theorem long_reply_shifts:
  assumes "exchange io1 enc1 key1 rd1 c = Inr (c1, r1)" "exchange io2 enc2 key2 rd2 c1 = Inr (c2, r2)"
    and "last_sent_fd c2 = last_sent_fd c1" "inbox c (last_sent_fd c1) = []" "length (reply io1) > 1024"
  shows "r1 = take 1024 (reply io1) \<and> r2 = take 1024 (drop 1024 (reply io1) @ reply io2) \<and> r2 \<noteq> []"
proof -
  have step: "r = take 1024 (inbox c (last_sent_fd c') @ reply io) \<and> inbox c' (last_sent_fd c') = drop 1024 (inbox c (last_sent_fd c') @ reply io)"
    if x: "exchange io enc key rd c = Inr (c', r)" "inbox c (last_sent_fd c') @ reply io \<noteq> []" for io enc key rd c c' r
  proof -
    obtain c0 sent where c0: "send_request (draw io) (out_io io) enc key rd c = Inr (c0, sent)"
        "recv_reply (reply io) (silent io) (last_sent_fd c0) c0 = Inr (c', r)"
      using x(1) by (auto simp: exchange_def elim!: bindE_InrE)
    have "inbox c0 = inbox c" using c0(1) by (auto simp: send_request_def Let_def elim!: bindE_InrE split: if_splits)
    then show ?thesis using c0(2) x(2)
      by (auto simp: recv_reply_def Let_def elim!: bindE_InrE split: if_splits silence.splits)
  qed
  from step [OF assms(1)] have 1: "r1 = take 1024 (reply io1)" "inbox c1 (last_sent_fd c1) = drop 1024 (reply io1)"
    using assms(4,5) by (cases "reply io1 = []"; simp)+
  then show ?thesis using step [OF assms(2)] assms(3,5) by auto
qed

theorem long_reply_shifts_witness:
  "\<exists>c1 c2. exchange (answer_io (encode (BulkString (Some (replicate 1500 (CHR ''x''))))) ) ''a'' ''k'' False lone_client = Inr (c1, take 1024 (encode (BulkString (Some (replicate 1500 (CHR ''x'')))))) \<and>
     exchange (answer_io (encode (SimpleString ''OK''))) ''b'' ''k'' False c1 =
       Inr (c2, take 1024 (drop 1024 (encode (BulkString (Some (replicate 1500 (CHR ''x''))))) @ encode (SimpleString ''OK'')))"
proof -
  let ?a = "encode (BulkString (Some (replicate 1500 (CHR ''x''))))"
  have a: "length ?a > 1024" by (simp add: crlf_def)
  then have ne: "?a \<noteq> []" by auto
  obtain c1 r1 where c1: "exchange (answer_io ?a) ''a'' ''k'' False lone_client = Inr (c1, r1)" "c1 = lone_client\<lparr>last_sent_fd := 5, inbox := (inbox lone_client)(5 := drop 1024 ?a)\<rparr>"
    using exchange_eq [of False "answer_io ?a" "''k''" lone_client 7 5 "''a''" "''a''"] lone_client_routes ne
    by (auto simp: answer_io_def client_send_def simp del: encode_Bulk)
  have r: "routeWrite ''k'' c1 = Inr 7" "linked c1 7" "getConnection 7 (ccluster c1) = 5" "last_sent_fd c1 = 5"
    using lone_client_routes by (simp_all add: c1(2) routeWrite_def linked_def)
  obtain c2 r2 where c2: "exchange (answer_io (encode (SimpleString ''OK''))) ''b'' ''k'' False c1 = Inr (c2, r2)" "last_sent_fd c2 = 5"
    using exchange_eq [of False "answer_io (encode (SimpleString ''OK''))" "''k''" c1 7 5 "''b''" "''b''"] r
    by (auto simp: answer_io_def client_send_def)
  show ?thesis using long_reply_shifts [OF c1(1) c2(1)] c1 c2 r(4) a lone_client_routes(5) by (simp add: answer_io_def del: encode_Bulk)
qed

text \<open>A redirection does not help when a node has left: refreshing adds nodes to the client's ring but never
  removes one.  If every node of the new network is already on the ring, the ring stays as it is, and a
  write that was redirected is sent to the same node again.\<close>

theorem retry_repeats_target:
  assumes "refreshTopology io c = Inr c'" "csocks c = (any_fd, p0) # ps" "inbox c any_fd = []"
    and "concat (net_arrivals io) = GETNETWORK b" "topo_ok (topo (cluster b))" "groups_ok (groupMembers b)" "topo_keyed (topo (cluster b))"
    and "node_hash (ccluster c) = run_members [] es" "\<forall>a\<in>event_node ` set es. \<forall>d\<in>event_node ` set es. a \<noteq> d \<longrightarrow> \<not> chained a d"
    and "fst ` set (topo (cluster b)) \<subseteq> members {} es"
  shows "node_hash (ccluster c') = node_hash (ccluster c) \<and> routeWrite key c' = routeWrite key c"
proof -
  let ?tp = "topo (cluster b)" and ?v = "network_resp (topo (cluster b)) (groupMembers b)"
  obtain p where p: "append new_RespParser (GETNETWORK b) = Inr p" "message_queue p = [?v]" "between_messages p"
    using parse_one [OF between_messages_new network_resp_ok [OF assms(5,6)]] by (auto simp: GETNETWORK_eq)
  have recv: "recv_network (net_arrivals io) [] new_RespParser = Inr (p, [])"
    using recv_network_run [OF _ p(2,3), of new_RespParser "[]"] p(1) assms(4) by simp
  obtain ns gs where n: "getTopoV2 ?v (cgroups c) = Inr (ns, gs)"
      "foldE (connect_new io) (learn_nodes_of ns (c\<lparr>csocks := map_insert any_fd (pop p) (csocks c), inbox := (inbox c)(any_fd := []),
         cgroups := gs\<rparr>)) (number ns) = Inr c'"
    using assms(1) unfolding refreshTopology_def assms(2) list.case prod.case
    using recv p(2) by (auto simp: assms(3) getResult_def hasResult_def Let_def elim!: bindE_InrE)
  define c1 where "c1 = c\<lparr>csocks := map_insert any_fd (pop p) (csocks c), inbox := (inbox c)(any_fd := []), cgroups := gs\<rparr>"
  have c1: "ccluster c1 = ccluster c" "foldE (connect_new io) (learn_nodes_of ns c1) (number ns) = Inr c'"
    using n(2) by (simp_all add: c1_def)
  have ns: "ns = map snd ?tp" using n(1) by (auto simp: getTopoV2_def network_resp_def getTopo_topo_resp elim!: bindE_InrE)
  have keep: "node_hash (ccluster d') = node_hash (ccluster d)" if "connect_new io d x = Inr d'" for d d' x
    using that by (auto simp: connect_new_def keep_socket_def addConnection_def elim!: bindE_InrE split: prod.splits if_splits)
  have "node_hash (ccluster c') = node_hash (ccluster (learn_nodes_of ns c1))"
    using foldE_invariant [OF c1(2), where P = "\<lambda>d. node_hash (ccluster d) = node_hash (ccluster (learn_nodes_of ns c1))"] keep by metis
  also have "\<dots> = run_members (node_hash (ccluster c)) (map (\<lambda>n. Join (UUID n)) ns)"
    using fold_learn_ring [of ns] c1(1) by (simp add: learn_nodes_of_def)
  also have "map (\<lambda>n. Join (UUID n)) ns = map Join (map fst ?tp)" using assms(7) by (force simp: ns topo_keyed_def)
  also have "run_members (node_hash (ccluster c)) (map Join (map fst ?tp)) = node_hash (ccluster c)"
    using rejoin_ring [OF assms(8,9)] assms(10) by simp
  finally show ?thesis by (simp add: routeWrite_def queryNode_def)
qed

theorem retry_repeats_target_witness:
  "\<exists>c'. refreshTopology (boot_io lone_server) lone_client = Inr c' \<and> routeWrite ''k'' c' = Inr 7"
proof -
  have "append new_RespParser (GETNETWORK lone_server) = append new_RespParser ([] @ concat (net_arrivals (boot_io lone_server)))"
    by (simp add: boot_io_def)
  then obtain p where p: "recv_network (net_arrivals (boot_io lone_server)) [] new_RespParser = Inr (p, [])"
      "message_queue p = [network_resp (topo (cluster lone_server)) (groupMembers lone_server)]"
    using parse_one [OF between_messages_new network_resp_ok [OF lone_server_network(4,6)]] recv_network_run
    by (metis GETNETWORK_eq append_Nil message_queue_new)
  have "getTopoV2 (network_resp (topo (cluster lone_server)) (groupMembers lone_server)) gs = Inr (map snd (topo (cluster lone_server)), gs)" for gs
    by (simp add: getTopoV2_def network_resp_def getTopo_topo_resp lone_server_network(2))
  then have r: "\<exists>c'. refreshTopology (boot_io lone_server) lone_client = Inr c'"
    using p boot_io_send [of lone_server]
    by (simp add: refreshTopology_def lone_client_def getResult_def hasResult_def Let_def lone_server_network(1) number_def connect_new_def
        learn_nodes_of_def addTopoNode_def addNodeToHash_def addConnection_def getConnection_def)
  then obtain c' where c': "refreshTopology (boot_io lone_server) lone_client = Inr c'" by blast
  have "node_hash (ccluster lone_client) = run_members [] [Join 7]" by (simp add: lone_client_def addConnection_def lone_server_ring)
  with retry_repeats_target [OF c' _ _ _ lone_server_network(4,6,5), of 5 new_RespParser "[]" "[Join 7]" "''k''"] c' lone_client_routes(1)
  show ?thesis by (simp add: boot_io_def lone_server_network(1) lone_client_def)
qed

text \<open>A read can miss a write that was confirmed: in a group with peers, which never has a leader, the owner
  stores and confirms a \<open>SET\<close> without telling anybody, while the client sends a read to any member of the
  group; a member that does not hold the key answers nil.\<close>

theorem replica_read_misses_write:
  assumes "getGroupForKey key s = Inr (Some gid)" "getRaftGroup gid s = Some rn" "raft_reach rand ps rn" "ps \<noteq> []"
    and "queryNode (cluster s) key = Inr (UUID (self_node (cluster s)))" "sorted_map (raft_groups s)"
    and "handleCommand rand st now sock (request_of (Set key v)) s = Inr s'" "\<not> syncing s"
    and "kv_ok (kvstore t)" "kv_map (kvstore t) key = None" "\<not> syncing t"
    and "handleCommand rand st' now' sock' (request_of (Get key)) t = Inr t'"
    and "getReplicasForKey key c = Inr [UUID (self_node (cluster s)), UUID (self_node (cluster t))]" "drw 2 = 1"
  shows "out_queue s' = out_queue s @ [(encode (SimpleString ''OK''), sock)] \<and>
    routeRead drw key c = Inr (UUID (self_node (cluster t))) \<and>
    out_queue t' = out_queue t @ [(encode (BulkString None), sock')]"
proof -
  have "role rn \<noteq> Leader" using reach_not_leader [OF assms(3,4)] by simp
  then have p: "propose_for key cmd s = Inr s" for cmd
    using assms(1,2,6) by (simp add: propose_for_def run_raft_def propose_def getRaftGroup_def map_insert_idem)
  have m: "isMasterFor (cluster s) key = Inr True" using assms(5) by (simp add: isMasterFor_def)
  have "out_queue s' = out_queue s @ [(encode (SimpleString ''OK''), sock)]"
    using assms(7,8) p m
    by (auto simp: handleCommand_def handle_def SET_def request_elements_def enqueue_msg_def elim!: bindE_InrE split: if_splits)
  moreover have "routeRead drw key c = Inr (UUID (self_node (cluster t)))"
    using assms(13,14) by (simp add: routeRead_def numeral_2_eq_2)
  moreover have "out_queue t' = out_queue t @ [(encode (BulkString None), sock')]"
    using assms(11,12) kv_get_ok [OF assms(9)] assms(10)
    by (auto simp: handleCommand_def handle_def GET_def request_elements_def getValue_eq enqueue_msg_def elim!: bindE_InrE split: option.splits)
  ultimately show ?thesis by blast
qed

theorem replica_read_misses_write_witness:
  "\<exists>rn s' t'. new_RaftNode (\<lambda>_. 0) 0 7 [8] [] = Inr rn \<and>
     handleCommand (\<lambda>_. 0) 0 0 9 (request_of (Set ''k'' (SimpleString ''v''))) (lone_server\<lparr>masterToGroup := [(7, 0)], raft_groups := [(0, rn)]\<rparr>) = Inr s' \<and>
     out_queue s' = [(encode (SimpleString ''OK''), 9)] \<and> routeRead (\<lambda>_. 1) ''k'' (lone_client\<lparr>cgroups := [(0, [7, 8])]\<rparr>) = Inr 8 \<and>
     handleCommand (\<lambda>_. 0) 0 0 9 (request_of (Get ''k'')) (lone_server\<lparr>cluster := new_Cluster_at 8 7801 ''10.0.0.2''\<rparr>) = Inr t' \<and>
     out_queue t' = [(encode (BulkString None), 9)]"
proof -
  obtain rn where rn: "new_RaftNode (\<lambda>_. 0) 0 7 [8] [] = Inr rn" "role rn \<noteq> Leader"
    by (simp add: new_RaftNode_def loadFromDisk_def sentinel_def resetElectionTimer_def)
  let ?s = "lone_server\<lparr>masterToGroup := [(7, 0)], raft_groups := [(0, rn)]\<rparr>"
  let ?t = "lone_server\<lparr>cluster := new_Cluster_at 8 7801 ''10.0.0.2''\<rparr>"
  have g: "getGroupForKey ''k'' ?s = Inr (Some 0)" "getRaftGroup 0 ?s = Some rn"
    by (simp_all add: getGroupForKey_def getRaftGroup_def lone_server_owns)
  then have p: "propose_for ''k'' cmd ?s = Inr ?s" for cmd
    using rn(2) by (simp add: propose_for_def run_raft_def propose_def)
  obtain kv where kv: "kv_set (kvstore ?s) ''k'' (SimpleString ''v'') = Inr (kv, None)" using new_store_kv_set [of "''k''" "SimpleString ''v''"] by auto
  have m: "isMasterFor (cluster ?s) ''k'' = Inr True" by (simp add: lone_server_owns)
  obtain s' where s': "handleCommand (\<lambda>_. 0) 0 0 9 (request_of (Set ''k'' (SimpleString ''v''))) ?s = Inr s'"
    using SET_stores [OF m _ p kv, of "''v''" 0 "SimpleString ''SET''"] by (simp add: handleCommand_def handle_def value_string_def del: encode_Array)
  obtain t' where t': "handleCommand (\<lambda>_. 0) 0 0 9 (request_of (Get ''k'')) ?t = Inr t'"
    by (simp add: handleCommand_def handle_def GET_def request_elements_def getValue_eq new_store_get)
  have c: "getReplicasForKey ''k'' (lone_client\<lparr>cgroups := [(0, [7, 8])]\<rparr>) = Inr [7, 8]"
    using lone_client_routes(1) [of "''k''"] by (simp add: getReplicasForKey_def routeWrite_def)
  have "kv_ok (kvstore ?t)" "kv_map (kvstore ?t) ''k'' = None" using lone_server_clean by (simp_all add: clean_store_def new_KVStore_empty SHARD_COUNT_def)
  with replica_read_misses_write [OF g raft_reach.start [OF rn(1)] _ _ _ s' _ _ _ _ t', of "lone_client\<lparr>cgroups := [(0, [7, 8])]\<rparr>" "\<lambda>_. 1"]
  show ?thesis using rn(1) s' t' c by (simp add: lone_server_owns sorted_map_def new_Cluster_at_def Let_def)
qed

end
