(* ===== verification/Client_Bench.thy ===== *)
theory Client_Bench
  imports Client_Properties
begin

text \<open>
  The load generators of \<open>client/Client.cpp\<close>.  \<open>benchmark\<close> collects requests per node, sends a full batch and
  waits for as many answers on the connection of that node.  The nodes are a parameter: \<open>world h\<close> is what
  the node sends back on the descriptor of the last request of the history \<open>h\<close> of all bytes sent.  A
  blocking \<open>::recv\<close> on an open connection on which nothing will arrive is \<open>Hang\<close>.  The clock readings and
  the statistics printed at the end are not part of the model.
\<close>

section \<open>Definitions\<close>

record bench_io =
  picks :: "nat \<Rightarrow> nat \<Rightarrow> nat"
  rnds :: "nat \<Rightarrow> nat \<times> nat"
  sends :: "nat \<Rightarrow> send_io"
  world :: "(int \<times> string) list \<Rightarrow> string"
  hung_up :: "int \<Rightarrow> bool"

record Bench =
  bclient :: Client
  bpending :: "(u64, (string \<times> string) list) smap"
  bsent :: "(int \<times> string) list"
  drawn :: nat

definition BATCH_SIZE :: nat where
  "BATCH_SIZE = 5000"

definition set_line :: "nat \<times> nat \<Rightarrow> string" where
  "set_line r = ''SET key'' @ to_string (fst r mod 100000) @ '' value'' @ to_string (snd r mod 100000)"

definition get_line :: "nat \<times> nat \<Rightarrow> string" where
  "get_line r = ''GET key'' @ to_string (fst r mod 100000)"

text \<open>The line of operation \<open>i\<close> and whether it is a read.\<close>

definition bench_request :: "string \<Rightarrow> nat \<Rightarrow> nat \<times> nat \<Rightarrow> string \<times> bool" where
  "bench_request op_type i r =
     (if op_type = ''set'' then (set_line r, False)
      else if op_type = ''get'' then (get_line r, True)
      else if i mod 2 \<noteq> 0 then (set_line r, False)
      else (get_line r, True))"

definition bench_send :: "bench_io \<Rightarrow> bool \<Rightarrow> Bench \<Rightarrow> string \<times> string \<Rightarrow> Bench res" where
  "bench_send io is_read b = (\<lambda>(enc, k).
     bindE (send_request (picks io (drawn b)) (sends io (length (bsent b))) enc k is_read (bclient b)) (\<lambda>(c, sent).
       let fd = last_sent_fd c; h = bsent b @ [(fd, sent)] in
       Inr (b\<lparr>bclient := c\<lparr>inbox := (inbox c)(fd := inbox c fd @ world io h)\<rparr>, bsent := h, drawn := Suc (drawn b)\<rparr>)))"

text \<open>The loop that waits for \<open>remaining\<close> answers with a buffer of 4096 bytes.\<close>

function bench_wait :: "bool \<Rightarrow> int \<Rightarrow> string \<Rightarrow> RespParser \<Rightarrow> (RespParser \<times> string) res" where
  "bench_wait closed remaining str p =
     (if remaining \<le> 0 then Inr (p, str)
      else if str = [] then (if closed then Inr (p, []) else Inl Hang)
      else bindE (append p (take 4096 str)) (\<lambda>p.
        bench_wait closed (remaining - int (length (message_queue p))) (drop 4096 str) (p\<lparr>message_queue := []\<rparr>)))"
  by pat_completeness auto
termination
  by (relation "measure (\<lambda>(closed, remaining, str, p). length str)") auto

declare bench_wait.simps [simp del]

definition bench_flush :: "bench_io \<Rightarrow> bool \<Rightarrow> u64 \<Rightarrow> (string \<times> string) list \<Rightarrow> Bench \<Rightarrow> Bench res" where
  "bench_flush io is_read uuid ops b = bindE (foldE (bench_send io is_read) b ops) (\<lambda>b.
     let c = bclient b; fd = getConnection uuid (ccluster c) in
     bindE (getSocket fd c) (\<lambda>p.
     bindE (bench_wait (hung_up io fd) (int (length ops)) (inbox c fd) p) (\<lambda>(p, rest).
       Inr (b\<lparr>bclient := c\<lparr>csocks := map_insert fd p (csocks c), inbox := (inbox c)(fd := rest)\<rparr>\<rparr>))))"

definition pend :: "u64 \<Rightarrow> string \<times> string \<Rightarrow> Bench \<Rightarrow> (string \<times> string) list" where
  "pend uuid x b = (case map_of (bpending b) uuid of None \<Rightarrow> [] | Some l \<Rightarrow> l) @ [x]"

definition bench_op :: "bench_io \<Rightarrow> string \<Rightarrow> Bench \<Rightarrow> nat \<Rightarrow> Bench res" where
  "bench_op io op_type b i =
     (let (req, is_read) = bench_request op_type i (rnds io i) in
      bindE (client_handle req) (\<lambda>request.
      bindE (extractKeyFromRequest request) (\<lambda>key.
      bindE (if is_read then routeRead (picks io (drawn b)) key (bclient b) else routeWrite key (bclient b)) (\<lambda>uuid.
        let l = pend uuid (encode request, key) b;
            b = b\<lparr>bpending := map_insert uuid l (bpending b), drawn := Suc (drawn b)\<rparr> in
        if length l \<ge> BATCH_SIZE then
          bindE (bench_flush io is_read uuid l b) (\<lambda>b. Inr (b\<lparr>bpending := map_insert uuid [] (bpending b)\<rparr>))
        else Inr b))))"

definition bench_finish :: "bench_io \<Rightarrow> Bench \<Rightarrow> Bench res" where
  "bench_finish io b = foldE (\<lambda>b (uuid, l). bench_flush io False uuid l b) b (bpending b)"

definition benchmark :: "bench_io \<Rightarrow> int \<Rightarrow> string \<Rightarrow> Client \<Rightarrow> Bench res" where
  "benchmark io ops op_type c =
     bindE (foldE (bench_op io op_type) \<lparr>bclient = c, bpending = [], bsent = [], drawn = 0\<rparr> [0..<nat ops]) (bench_finish io)"

text \<open>The loop of \<open>latencyBenchmark\<close> that waits for one answer; a connection that ends is only reported.\<close>

function latency_wait :: "bool \<Rightarrow> string \<Rightarrow> RespParser \<Rightarrow> (RespParser \<times> string) res" where
  "latency_wait closed str p =
     (if hasResult p then Inr (p, str)
      else if str = [] then (if closed then Inr (p, []) else Inl Hang)
      else bindE (append p (take 4096 str)) (latency_wait closed (drop 4096 str)))"
  by pat_completeness auto
termination
  by (relation "measure (\<lambda>(closed, str, p). length str)") auto

declare latency_wait.simps [simp del]

text \<open>One operation with its progress report: \<open>(i + 1) % (ops / 10)\<close> is evaluated first.\<close>

definition latency_op :: "bench_io \<Rightarrow> int \<Rightarrow> string \<Rightarrow> Bench \<Rightarrow> nat \<Rightarrow> Bench res" where
  "latency_op io ops op_type b i =
     (let (req, is_read) = bench_request op_type i (rnds io i) in
      bindE (client_handle req) (\<lambda>request.
      bindE (extractKeyFromRequest request) (\<lambda>key.
      bindE (bench_send io is_read b (encode request, key)) (\<lambda>b.
        let c = bclient b; fd = last_sent_fd c in
        bindE (getSocket fd c) (\<lambda>_.
        bindE (latency_wait (hung_up io fd) (inbox c fd) new_RespParser) (\<lambda>(p, rest).
          let b = b\<lparr>bclient := c\<lparr>csocks := map_insert fd (pop p) (csocks c), inbox := (inbox c)(fd := rest)\<rparr>\<rparr> in
          if ops div 10 = 0 then Inl (UB Div_By_Zero) else Inr b))))))"

text \<open>Up to \<open>latencies.front()\<close>.\<close>

definition latencyBenchmark :: "bench_io \<Rightarrow> int \<Rightarrow> string \<Rightarrow> Client \<Rightarrow> Bench res" where
  "latencyBenchmark io ops op_type c =
     (if ops < 0 then Inl Length_Error
      else if ops = 0 then Inl (UB Out_Of_Bounds)
      else foldE (latency_op io ops op_type) \<lparr>bclient = c, bpending = [], bsent = [], drawn = 0\<rparr> [0..<nat ops])"

section \<open>Waiting for answers\<close>

text \<open>As many answers as were asked for end the loop, however they are cut into buffers.\<close>

lemma bench_wait_run:
  assumes "append p str = Inr q" "between_messages q" "message_queue p = []" "remaining = int (length (message_queue q))"
  shows "bench_wait closed remaining str p = Inr (q\<lparr>message_queue := []\<rparr>, [])"
  using assms
proof (induction closed remaining str p arbitrary: q rule: bench_wait.induct)
  case (1 closed remaining str p)
  show ?case
  proof (cases "remaining \<le> 0")
    case True
    then have "message_queue q = message_queue p" using 1(4,5) by simp
    then have "str = []" using append_progress [OF 1(2)] 1(3) by blast
    then have "p = q" using 1(2) by simp
    then show ?thesis using True 1(4) \<open>str = []\<close> by (simp add: bench_wait.simps [of closed])
  next
    case False
    then have str: "str \<noteq> []" using 1(2,4,5) by auto
    have "append p (take 4096 str @ drop 4096 str) = Inr q" using 1(2) by simp
    then obtain p1 where p1: "append p (take 4096 str) = Inr p1" "append p1 (drop 4096 str) = Inr q"
      unfolding append_append by (rule bindE_InrE)
    obtain vs where vs: "append (p1\<lparr>message_queue := []\<rparr>) (drop 4096 str) = Inr (q\<lparr>message_queue := vs\<rparr>)" "message_queue q = message_queue p1 @ vs"
      using append_unqueue [OF p1(2)] by blast
    have "bench_wait closed remaining str p =
        bench_wait closed (remaining - int (length (message_queue p1))) (drop 4096 str) (p1\<lparr>message_queue := []\<rparr>)"
      using False str p1(1) by (subst bench_wait.simps) simp
    then show ?thesis using 1(1) [OF False str, of p1 "q\<lparr>message_queue := vs\<rparr>"] vs 1(3,5) p1(1) by (simp add: between_messages_def)
  qed
qed

lemma latency_wait_run:
  assumes "append p str = Inr q" "message_queue q = [v]" "between_messages q"
  shows "latency_wait closed str p = Inr (q, [])"
  using assms(1)
proof (induction closed str p rule: latency_wait.induct)
  case (1 closed str p)
  show ?case
  proof (cases "hasResult p")
    case True
    with result_complete [OF True 1(2) assms(2,3)] show ?thesis by (simp add: latency_wait.simps [of closed])
  next
    case False
    then have str: "str \<noteq> []" using 1(2) assms(2) by (auto simp: hasResult_def)
    have "append p (take 4096 str @ drop 4096 str) = Inr q" using 1(2) by simp
    then obtain p1 where p1: "append p (take 4096 str) = Inr p1" "append p1 (drop 4096 str) = Inr q"
      unfolding append_append by (rule bindE_InrE)
    then show ?thesis using 1(1) [OF False str, of p1] False str by (simp add: latency_wait.simps [of closed str])
  qed
qed

section \<open>Batches of writes\<close>

text \<open>The kernel takes every request of up to 1000 bytes whole, and a node answers every request with one well-formed
  message.\<close>

definition reliable :: "bench_io \<Rightarrow> bool" where
  "reliable io \<longleftrightarrow> (\<forall>i enc. length enc \<le> 1000 \<longrightarrow> client_send (sends io i) enc = Inr enc) \<and>
     (\<forall>h. \<exists>v. resp_ok v \<and> world io h = encode v)"

text \<open>A short request whose key belongs to node \<open>u\<close>.\<close>

definition owned :: "Client \<Rightarrow> u64 \<Rightarrow> string \<times> string \<Rightarrow> bool" where
  "owned c u x \<longleftrightarrow> routeWrite (snd x) c = Inr u \<and> length (fst x) \<le> 1000"

text \<open>Between two batches: nothing is on its way, no parser is in the middle of a message, and every pending
  request waits in the list of the node that owns its key.\<close>

definition bench_ok :: "Client \<Rightarrow> Bench \<Rightarrow> bool" where
  "bench_ok c0 b \<longleftrightarrow> ccluster (bclient b) = ccluster c0 \<and> sorted_map (csocks (bclient b)) \<and>
     dom (map_of (csocks (bclient b))) = dom (map_of (csocks c0)) \<and>
     (\<forall>p \<in> ran (map_of (csocks (bclient b))). between_messages p \<and> message_queue p = []) \<and>
     (\<forall>fd. inbox (bclient b) fd = []) \<and> sorted_map (bpending b) \<and>
     (\<forall>u l. map_of (bpending b) u = Some l \<longrightarrow> linked c0 u \<and> (\<forall>x\<in>set l. owned c0 u x))"

lemma bench_sends:
  assumes "reliable io" "linked c0 u" "\<forall>x\<in>set ops. owned c0 u x"
    and "ccluster (bclient b) = ccluster c0" "dom (map_of (csocks (bclient b))) = dom (map_of (csocks c0))"
  shows "\<exists>b' vs. foldE (bench_send io False) b ops = Inr b' \<and> bpending b' = bpending b \<and>
    ccluster (bclient b') = ccluster c0 \<and> csocks (bclient b') = csocks (bclient b) \<and>
    inbox (bclient b') = (inbox (bclient b))(getConnection u (ccluster c0) :=
      inbox (bclient b) (getConnection u (ccluster c0)) @ concat (map encode vs)) \<and> length vs = length ops \<and> list_all resp_ok vs"
  using assms(3-5)
proof (induction ops arbitrary: b)
  case Nil
  then show ?case by (intro exI [of _ b] exI [of _ "[]"]) simp
next
  case (Cons x ops)
  let ?fd = "getConnection u (ccluster c0)" and ?c = "bclient b"
  obtain enc k where x: "x = (enc, k)" by (cases x)
  have fd: "?fd \<noteq> -1" "map_of (csocks ?c) ?fd \<noteq> None" using assms(2) Cons.prems(3) by (auto simp: linked_def)
  have "send_request (picks io (drawn b)) (sends io (length (bsent b))) enc k False ?c = Inr (?c\<lparr>last_sent_fd := ?fd\<rparr>, enc)"
    using Cons.prems(1,2) fd assms(1) x by (auto simp: send_request_def routeWrite_def Let_def getSocket_def reliable_def owned_def)
  moreover obtain v where v: "resp_ok v" "world io (bsent b @ [(?fd, enc)]) = encode v" using assms(1) unfolding reliable_def by blast
  moreover define b1 where "b1 = b\<lparr>bclient := ?c\<lparr>last_sent_fd := ?fd, inbox := (inbox ?c)(?fd := inbox ?c ?fd @ encode v)\<rparr>,
      bsent := bsent b @ [(?fd, enc)], drawn := Suc (drawn b)\<rparr>"
  ultimately have sent: "bench_send io False b x = Inr b1" by (simp add: bench_send_def x Let_def)
  have f: "ccluster (bclient b1) = ccluster c0" "csocks (bclient b1) = csocks ?c" "bpending b1 = bpending b"
      "inbox (bclient b1) = (inbox ?c)(?fd := inbox ?c ?fd @ encode v)"
    using Cons.prems(2) by (simp_all add: b1_def)
  have "dom (map_of (csocks (bclient b1))) = dom (map_of (csocks c0))" "\<forall>x\<in>set ops. owned c0 u x"
    using Cons.prems(1,3) f(2) by simp_all
  from Cons.IH [OF this(2) f(1) this(1)] obtain b' vs where b': "foldE (bench_send io False) b1 ops = Inr b'" "bpending b' = bpending b1"
      "ccluster (bclient b') = ccluster c0" "csocks (bclient b') = csocks (bclient b1)"
      "inbox (bclient b') = (inbox (bclient b1))(?fd := inbox (bclient b1) ?fd @ concat (map encode vs))" "length vs = length ops" "list_all resp_ok vs"
    by blast
  show ?case using b' sent f v(1) by (intro exI [of _ b'] exI [of _ "v # vs"]) simp
qed

lemma bench_flush_write:
  assumes "reliable io" "bench_ok c0 b" "linked c0 u" "\<forall>x\<in>set ops. owned c0 u x"
  shows "\<exists>b'. bench_flush io False u ops b = Inr b' \<and> bench_ok c0 b' \<and> bpending b' = bpending b"
proof -
  let ?fd = "getConnection u (ccluster c0)"
  note ok = assms(2) [unfolded bench_ok_def]
  obtain b1 vs where b1: "foldE (bench_send io False) b ops = Inr b1" "bpending b1 = bpending b" "ccluster (bclient b1) = ccluster c0"
      "csocks (bclient b1) = csocks (bclient b)" "inbox (bclient b1) = (inbox (bclient b))(?fd := concat (map encode vs))"
      "length vs = length ops" "list_all resp_ok vs"
    using bench_sends [OF assms(1,3,4), of b] ok by auto
  obtain p where p: "map_of (csocks (bclient b)) ?fd = Some p" using assms(3) ok unfolding linked_def by (metis domIff not_None_eq)
  then have idle: "between_messages p" "message_queue p = []" using ok by (auto simp: ran_def)
  obtain q where q: "append p (concat (map encode vs)) = Inr q" "between_messages q" "message_queue q = vs"
    using resp.run_stream [OF idle(1) b1(7)] idle(2) by auto
  have "bench_wait (hung_up io ?fd) (int (length ops)) (concat (map encode vs)) p = Inr (q\<lparr>message_queue := []\<rparr>, [])"
    using bench_wait_run [OF q(1,2) idle(2)] q(3) b1(6) by simp
  let ?b' = "b1\<lparr>bclient := (bclient b1)\<lparr>csocks := map_insert ?fd (q\<lparr>message_queue := []\<rparr>) (csocks (bclient b)),
      inbox := inbox (bclient b)\<rparr>\<rparr>"
  from \<open>bench_wait _ _ _ p = _\<close> have f: "bench_flush io False u ops b = Inr ?b'"
    using b1(1,3,4,5) p ok by (simp add: bench_flush_def Let_def getSocket_def fun_upd_idem)
  have "ran ((map_of (csocks (bclient b)))(?fd \<mapsto> q\<lparr>message_queue := []\<rparr>)) \<subseteq> insert (q\<lparr>message_queue := []\<rparr>) (ran (map_of (csocks (bclient b))))"
    by (auto simp: ran_def)
  then show ?thesis using f ok q(2) b1(2,3) p
    by (intro exI [of _ ?b']) (auto simp: bench_ok_def between_messages_def)
qed

lemma digit_not_space: "is_digit c \<Longrightarrow> \<not> is_space c"
  by (auto simp: is_digit_def is_space_def)

lemma word_number: "is_word (w @ to_string n)" if "\<forall>c\<in>set w. \<not> is_space c"
  using that to_string_digits [of n] digit_not_space by (auto simp: is_word_def)

lemma to_string_short:
  "n < 10 ^ Suc k \<Longrightarrow> length (to_string n) \<le> Suc k"
proof (induction k arbitrary: n)
  case 0
  then show ?case by (subst to_string.simps) simp
next
  case (Suc k)
  then have "n div 10 < 10 ^ Suc k" by (simp add: less_mult_imp_div_less)
  with Suc.IH [of "n div 10"] show ?case by (subst to_string.simps) simp
qed

lemma random_number_short: "length (to_string (n mod 100000)) \<le> 5"
  using to_string_short [of "n mod 100000" 4] by simp

lemma set_line_request:
  "\<exists>req key. client_handle (set_line r) = Inr req \<and> extractKeyFromRequest req = Inr key \<and> length (encode req) \<le> 1000"
proof -
  let ?k = "''key'' @ to_string (fst r mod 100000)" and ?v = "''value'' @ to_string (snd r mod 100000)"
  have w: "is_word ?k" "is_word ?v" by (intro word_number; simp add: is_space_def)+
  have "split_ws (set_line r) = [''SET'', ?k, ?v]"
    using split_ws_SET [OF w(1), of ?v] split_ws_single [OF w(2)] by (simp add: set_line_def)
  then have "client_handle (set_line r) = Inr (request_of (Set ?k (BulkString (Some ?v))))" by (simp add: client_handle_def)
  moreover have "length (to_string (length ?v)) \<le> 2"
    using to_string_short [of "length ?v" 1] random_number_short [of "snd r"] by simp
  then have "length (encode (request_of (Set ?k (BulkString (Some ?v))))) \<le> 1000"
    using random_number_short [of "fst r"] random_number_short [of "snd r"]
    by (simp add: crlf_def to_string.simps [of 3] numeral_3_eq_3 [symmetric])
  ultimately show ?thesis by (auto simp: extractKeyFromRequest_def)
qed

lemma get_line_request:
  "\<exists>req key. client_handle (get_line r) = Inr req \<and> extractKeyFromRequest req = Inr key \<and> length (encode req) \<le> 1000"
proof -
  let ?k = "''key'' @ to_string (fst r mod 100000)"
  have w: "is_word ?k" by (intro word_number) (simp add: is_space_def)
  have "split_ws (get_line r) = [''GET'', ?k]"
    using split_ws_Cons [of "''GET''" ?k] split_ws_single [OF w] by (simp add: get_line_def is_word_def is_space_def)
  then have "client_handle (get_line r) = Inr (request_of (Get ?k))" by (simp add: client_handle_def)
  moreover have "length (encode (request_of (Get ?k))) \<le> 1000"
    using random_number_short [of "fst r"] by (simp add: crlf_def to_string.simps [of 2] numeral_2_eq_2 [symmetric])
  ultimately show ?thesis by (auto simp: extractKeyFromRequest_def)
qed

lemma bench_op_set:
  assumes "reliable io" "bench_ok c0 b" "\<And>key. \<exists>u. routeWrite key c0 = Inr u \<and> linked c0 u"
  shows "\<exists>b'. bench_op io ''set'' b i = Inr b' \<and> bench_ok c0 b'"
proof -
  obtain req k where v: "client_handle (set_line (rnds io i)) = Inr req" and key: "extractKeyFromRequest req = Inr k"
      and short: "length (encode req) \<le> 1000"
    using set_line_request [of "rnds io i"] by blast
  obtain u where u: "routeWrite k c0 = Inr u" "linked c0 u" using assms(3) by blast
  note ok = assms(2) [unfolded bench_ok_def]
  have r: "routeWrite k (bclient b) = Inr u" using u(1) ok by (simp add: routeWrite_def)
  define l where "l = pend u (encode req, k) b"
  define b1 where "b1 = b\<lparr>bpending := map_insert u l (bpending b), drawn := Suc (drawn b)\<rparr>"
  have l: "\<forall>x\<in>set l. owned c0 u x" using ok u(1) short by (cases "map_of (bpending b) u") (auto simp: l_def pend_def owned_def)
  then have b1: "bench_ok c0 b1" using ok u(2) by (auto simp: b1_def bench_ok_def)
  have e: "bench_op io ''set'' b i = (if length l \<ge> BATCH_SIZE
      then bindE (bench_flush io False u l b1) (\<lambda>b. Inr (b\<lparr>bpending := map_insert u [] (bpending b)\<rparr>)) else Inr b1)"
    by (simp add: bench_op_def bench_request_def v key r Let_def l_def b1_def)
  obtain b2 where b2: "bench_flush io False u l b1 = Inr b2" "bench_ok c0 b2" using bench_flush_write [OF assms(1) b1 u(2) l] by blast
  then have "bench_ok c0 (b2\<lparr>bpending := map_insert u [] (bpending b2)\<rparr>)" using u(2) by (auto simp: bench_ok_def)
  then show ?thesis using e b1 b2 by simp
qed

lemma bench_finish_write:
  assumes "reliable io" "bench_ok c b"
  shows "\<exists>b'. bench_finish io b = Inr b' \<and> bench_ok c b'"
proof -
  have "\<exists>b'. foldE (\<lambda>b (uuid, l). bench_flush io False uuid l b) b us = Inr b' \<and> bench_ok c b'"
    if "bench_ok c b" "\<forall>(u, l)\<in>set us. linked c u \<and> (\<forall>x\<in>set l. owned c u x)" for b us
    using that
  proof (induction us arbitrary: b)
    case (Cons e us)
    obtain u l where e: "e = (u, l)" by (cases e)
    then obtain b2 where b2: "bench_flush io False u l b = Inr b2" "bench_ok c b2"
      using bench_flush_write [OF assms(1) Cons.prems(1), of u l] Cons.prems(2) by auto
    then show ?case using Cons.IH [of b2] Cons.prems(2) e by auto
  qed simp
  moreover have "\<forall>(u, l)\<in>set (bpending b). linked c u \<and> (\<forall>x\<in>set l. owned c u x)"
    using assms(2) by (fastforce simp: bench_ok_def sorted_map_distinct)
  ultimately show ?thesis using assms(2) unfolding bench_finish_def by blast
qed

section \<open>Properties\<close>

text \<open>C31. The write benchmark ends: if the kernel takes every request, every node is connected and answers every
  request with one well-formed message, then \<open>benchmark\<close> with any number of \<open>set\<close> operations returns; it
  has then read every answer, and nothing is left in any socket.\<close>

theorem write_benchmark_returns:
  assumes "reliable io" "\<And>key. \<exists>u. routeWrite key c = Inr u \<and> linked c u" "sorted_map (csocks c)"
    and "\<forall>p\<in>ran (map_of (csocks c)). between_messages p \<and> message_queue p = []" "\<forall>fd. inbox c fd = []"
  shows "\<exists>b. benchmark io ops ''set'' c = Inr b \<and> (\<forall>fd. inbox (bclient b) fd = [])"
proof -
  let ?b0 = "\<lparr>bclient = c, bpending = [], bsent = [], drawn = 0\<rparr>"
  have "\<exists>b'. foldE (bench_op io ''set'') b js = Inr b' \<and> bench_ok c b'" if "bench_ok c b" for b js
    using that
  proof (induction js arbitrary: b)
    case (Cons i js)
    then show ?case using bench_op_set [OF assms(1) Cons.prems assms(2), of i] by fastforce
  qed simp
  moreover have "bench_ok c ?b0" using assms(3-5) by (simp add: bench_ok_def)
  ultimately obtain b1 where b1: "foldE (bench_op io ''set'') ?b0 [0..<nat ops] = Inr b1" "bench_ok c b1" by blast
  then obtain b where "bench_finish io b1 = Inr b" "bench_ok c b" using bench_finish_write [OF assms(1)] by blast
  then show ?thesis using b1(1) by (auto simp: benchmark_def bench_ok_def)
qed

definition steady_io :: "(nat \<Rightarrow> nat) \<Rightarrow> bench_io" where
  "steady_io pick = \<lparr>picks = (\<lambda>_. pick), rnds = (\<lambda>i. (i, i)), sends = (\<lambda>_. ([Wrote 1000], Send_Blocked)),
     world = (\<lambda>_. encode (SimpleString ''OK'')), hung_up = (\<lambda>_. False)\<rparr>"

lemma steady_reliable: "reliable (steady_io pick)"
proof -
  have "client_send ([Wrote 1000], Send_Blocked) enc = Inr enc" if "length enc \<le> 1000" for enc
    using that by (cases enc) (simp_all add: client_send_def)
  moreover have "resp_ok (SimpleString ''OK'')" by (simp add: line_ok_def)
  ultimately show ?thesis unfolding reliable_def steady_io_def bench_io.simps by blast
qed

theorem write_benchmark_returns_witness:
  "\<exists>b. benchmark (steady_io (\<lambda>_. 0)) 20000 ''set'' lone_client = Inr b \<and> inbox (bclient b) 5 = []"
proof -
  have "sorted_map (csocks lone_client)" "\<forall>p\<in>ran (map_of (csocks lone_client)). between_messages p \<and> message_queue p = []"
    by (simp_all add: lone_client_def sorted_map_def ran_def)
  with write_benchmark_returns [OF steady_reliable _ this, where ops = 20000] lone_client_routes show ?thesis by blast
qed

text \<open>The read benchmark hangs: a read is filed under the replica that was drawn, but the last batch is sent
  as if it were writes, to the owner of the keys, while the answers are awaited from the replica, on whose
  connection nothing arrives.\<close>

theorem read_benchmark_hangs:
  assumes "reliable io" "\<And>key. routeWrite key c = Inr m \<and> getReplicasForKey key c = Inr [m, r]" "linked c m" "linked c r"
    and "getConnection m (ccluster c) \<noteq> getConnection r (ccluster c)" "\<And>i. picks io i 2 = 1" "\<And>fd. inbox c fd = []"
    and "0 < ops" "ops < 5000" "\<not> hung_up io (getConnection r (ccluster c))"
  shows "benchmark io ops ''get'' c = Inl Hang"
proof -
  let ?b0 = "\<lparr>bclient = c, bpending = [], bsent = [], drawn = 0\<rparr>"
  have fill: "\<exists>b l. foldE (bench_op io ''get'') ?b0 [0..<n] = Inr b \<and> bclient b = c \<and> length l = n \<and>
      bpending b = (if n = 0 then [] else [(r, l)]) \<and> (\<forall>x\<in>set l. owned c m x)" if "n < 5000" for n
    using that
  proof (induction n)
    case (Suc n)
    then obtain b l where b: "foldE (bench_op io ''get'') ?b0 [0..<n] = Inr b" "bclient b = c" "length l = n"
        "bpending b = (if n = 0 then [] else [(r, l)])" "\<forall>x\<in>set l. owned c m x" by auto
    obtain req k where req: "client_handle (get_line (rnds io n)) = Inr req" "extractKeyFromRequest req = Inr k" "length (encode req) \<le> 1000"
      using get_line_request by blast
    have "routeRead (picks io (drawn b)) k c = Inr r" using assms(2,6) by (simp add: routeRead_def numeral_2_eq_2)
    moreover have "pend r (encode req, k) b = l @ [(encode req, k)]" using b(3,4) by (auto simp: pend_def)
    moreover have "map_insert r (l @ [(encode req, k)]) (bpending b) = [(r, l @ [(encode req, k)])]" using b(4) by simp
    ultimately have "bench_op io ''get'' b n = Inr (b\<lparr>bpending := [(r, l @ [(encode req, k)])], drawn := Suc (drawn b)\<rparr>)"
      using req b(2,3) Suc.prems by (simp add: bench_op_def bench_request_def Let_def BATCH_SIZE_def)
    then show ?case using b req(3) assms(2)
      by (intro exI [of _ "b\<lparr>bpending := [(r, l @ [(encode req, k)])], drawn := Suc (drawn b)\<rparr>"] exI [of _ "l @ [(encode req, k)]"])
        (simp add: foldE_append owned_def)
  qed simp
  have n: "nat ops \<noteq> 0" "nat ops < 5000" using assms(8,9) by auto
  then obtain b l where b: "foldE (bench_op io ''get'') ?b0 [0..<nat ops] = Inr b" "bclient b = c" "length l = nat ops"
      "bpending b = [(r, l)]" "\<forall>x\<in>set l. owned c m x"
    using fill [OF n(2)] by auto
  obtain b' vs where b': "foldE (bench_send io False) b l = Inr b'" "ccluster (bclient b') = ccluster c" "csocks (bclient b') = csocks c"
      "inbox (bclient b') = (inbox c)(getConnection m (ccluster c) := concat (map encode vs))"
    using bench_sends [OF assms(1,3) b(5), of b] b(2) assms(7) by auto
  obtain p where "map_of (csocks c) (getConnection r (ccluster c)) = Some p" using assms(4) by (auto simp: linked_def)
  then have "bench_flush io False r l b = Inl Hang"
    using b' b(3) n assms(5,7,10) by (simp add: bench_flush_def Let_def getSocket_def bench_wait.simps [of False])
  then show ?thesis using b(1,4) by (simp add: benchmark_def bench_finish_def)
qed

text \<open>A client with a replica on a second connection.\<close>

definition pair_client :: Client where
  "pair_client = lone_client\<lparr>ccluster := addConnection 8 6 (ccluster lone_client), csocks := [(5, new_RespParser), (6, new_RespParser)],
     cgroups := [(0, [7, 8])]\<rparr>"

theorem read_benchmark_hangs_witness: "benchmark (steady_io (\<lambda>_. 1)) 100 ''get'' pair_client = Inl Hang"
proof -
  have "queryNode (ccluster pair_client) key = Inr 7" for key
    using lone_client_routes(1) [of key] by (simp add: pair_client_def routeWrite_def queryNode_def addConnection_def)
  then have "routeWrite key pair_client = Inr 7 \<and> getReplicasForKey key pair_client = Inr [7, 8]" for key
    by (simp add: routeWrite_def getReplicasForKey_def) (simp add: pair_client_def)
  moreover have "linked pair_client 7" "linked pair_client 8"
      "getConnection 7 (ccluster pair_client) \<noteq> getConnection 8 (ccluster pair_client)" "inbox pair_client fd = []" for fd
    by (simp_all add: pair_client_def lone_client_def linked_def getConnection_def addConnection_def)
  ultimately show ?thesis
    using read_benchmark_hangs [OF steady_reliable, of pair_client 7 8 "\<lambda>_. 1" 100] by (simp add: steady_io_def)
qed

text \<open>A short latency benchmark divides by zero: with one to nine operations the progress report of the first
  one computes a remainder by \<open>ops / 10\<close>, which is 0.\<close>

theorem short_latency_benchmark_undefined:
  assumes "reliable io" "\<And>key. \<exists>u. routeWrite key c = Inr u \<and> linked c u" "\<And>fd. inbox c fd = []" "0 < ops" "ops < 10"
  shows "latencyBenchmark io ops ''set'' c = Inl (UB Div_By_Zero)"
proof -
  let ?b0 = "\<lparr>bclient = c, bpending = [], bsent = [], drawn = 0\<rparr>"
  obtain req k where req: "client_handle (set_line (rnds io 0)) = Inr req" "extractKeyFromRequest req = Inr k" "length (encode req) \<le> 1000"
    using set_line_request by blast
  obtain u where u: "routeWrite k c = Inr u" "linked c u" using assms(2) by blast
  let ?fd = "getConnection u (ccluster c)"
  have fd: "?fd \<noteq> -1" "map_of (csocks c) ?fd \<noteq> None" using u(2) by (auto simp: linked_def)
  obtain v where v: "resp_ok v" "world io [(?fd, encode req)] = encode v" using assms(1) unfolding reliable_def by blast
  have "client_send (sends io 0) (encode req) = Inr (encode req)" using assms(1) req(3) by (simp add: reliable_def)
  then have sent: "bench_send io False ?b0 (encode req, k) =
      Inr \<lparr>bclient = c\<lparr>last_sent_fd := ?fd, inbox := (inbox c)(?fd := encode v)\<rparr>, bpending = [], bsent = [(?fd, encode req)], drawn = 1\<rparr>"
    using u(1) fd v(2) assms(3) by (auto simp: bench_send_def send_request_def Let_def getSocket_def)
  obtain q where q: "append new_RespParser (encode v) = Inr q" "message_queue q = [v]" "between_messages q"
    using parse_one [OF between_messages_new v(1)] by auto
  have "\<exists>x. latency_wait (hung_up io ?fd) (encode v) new_RespParser = Inr x"
    using latency_wait_run [OF q] by blast
  then have "latency_op io ops ''set'' ?b0 0 = Inl (UB Div_By_Zero)"
    using assms(4,5) req fd by (auto simp: latency_op_def bench_request_def Let_def sent getSocket_def)
  moreover have "[0..<nat ops] = 0 # [1..<nat ops]" using assms(4) by (simp add: upt_conv_Cons)
  ultimately show ?thesis using assms(4) by (simp add: latencyBenchmark_def)
qed

theorem short_latency_benchmark_undefined_witness: "latencyBenchmark (steady_io (\<lambda>_. 0)) 5 ''set'' lone_client = Inl (UB Div_By_Zero)"
  using short_latency_benchmark_undefined [OF steady_reliable, of lone_client 5] lone_client_routes by auto

end
