(* ===== verification/Latency_Stats.thy ===== *)
theory Latency_Stats
  imports Client_Bench "HOL-Library.Log_Nat"
begin

text \<open>
  The statistics at the end of \<open>Client::latencyBenchmark\<close>: the sorted latencies, the percentiles with the
  floating-point computation of their index, and the extremes.  A latency is given by its microseconds; the
  program divides them by 1000.0, which keeps their order.  Doubles that are not negative are written as
  an integer over a power of two; every operation is exact but for the rounding of its result to 53
  bits, to the nearest number and to the even one if there are two.  The average is not modelled.
\<close>

section \<open>Doubles\<close>

text \<open>The integer nearest to \<open>a / b\<close>, ties to even.\<close>

definition round_div :: "nat \<Rightarrow> nat \<Rightarrow> nat" where
  "round_div a b = (let q = a div b; r = a mod b in if 2 * r > b \<or> 2 * r = b \<and> odd q then Suc q else q)"

text \<open>An integer rounded to 53 significant bits.\<close>

definition round53 :: "nat \<Rightarrow> nat" where
  "round53 a = (let s = floorlog 2 a - 53 in round_div a (2 ^ s) * 2 ^ s)"

lemma round_div_error:
  assumes "0 < b"
  shows "2 * a \<le> 2 * (round_div a b * b) + b" "2 * (round_div a b * b) \<le> 2 * a + b"
proof -
  define q r where "q = a div b" and "r = a mod b"
  have a: "a = q * b + r" "r < b" using assms by (simp_all add: q_def r_def)
  have cases: "round_div a b = Suc q \<and> b \<le> 2 * r \<or> round_div a b = q \<and> 2 * r \<le> b"
    by (auto simp: round_div_def Let_def q_def r_def)
  then show "2 * a \<le> 2 * (round_div a b * b) + b" "2 * (round_div a b * b) \<le> 2 * a + b" using a by auto
qed

lemma round53_error: "a * (2 ^ 53 - 1) \<le> round53 a * 2 ^ 53" "round53 a * 2 ^ 53 \<le> a * (2 ^ 53 + 1)"
proof -
  let ?s = "floorlog 2 a - 53"
  have "2 * a \<le> 2 * round53 a + d \<and> 2 * round53 a \<le> 2 * a + d \<and> d * 2 ^ 52 \<le> a"
    if "d = (if ?s = 0 then 0 else 2 ^ ?s)" for d :: nat
  proof (cases "?s = 0")
    case True
    then show ?thesis using that by (simp add: round53_def round_div_def Let_def)
  next
    case False
    then have "a > 0" by (cases "a = 0") (auto simp: floorlog_def)
    then have "2 ^ (floorlog 2 a - 1) \<le> a" using floorlog_bounds [of a 2] by simp
    moreover have "floorlog 2 a - 1 = ?s + 52" using False by simp
    ultimately have "2 ^ ?s * 2 ^ 52 \<le> a" by (metis power_add)
    then show ?thesis using round_div_error [of "2 ^ ?s" a] False that by (simp add: round53_def Let_def)
  qed
  then obtain d where "2 * a \<le> 2 * round53 a + d" "2 * round53 a \<le> 2 * a + d" "d * 2 ^ 52 \<le> a" by blast
  then show "a * (2 ^ 53 - 1) \<le> round53 a * 2 ^ 53" "round53 a * 2 ^ 53 \<le> a * (2 ^ 53 + 1)" by simp_all
qed

lemma round53_close: "a \<le> 2 ^ 53 * n \<Longrightarrow> a \<le> round53 a + n" "a \<le> 2 ^ 53 * n \<Longrightarrow> round53 a \<le> a + n"
  using round53_error [of a] by simp_all

section \<open>Percentiles\<close>

text \<open>The literals 50, 90, 99 and 99.9 are given in tenths: as doubles they are multiples of \<open>2 ^ -46\<close>, and their
  quotients by 100.0, between a half and one, are multiples of \<open>2 ^ -53\<close>.\<close>

definition percent :: "nat \<Rightarrow> nat" where
  "percent tenths = round_div (tenths * 2 ^ 46) 10"

definition percent_fraction :: "nat \<Rightarrow> nat" where
  "percent_fraction tenths = round_div (percent tenths * 2 ^ 53) (100 * 2 ^ 46)"

definition percentile_index :: "nat \<Rightarrow> nat \<Rightarrow> nat" where
  "percentile_index tenths n =
     (let idx = round53 (percent_fraction tenths * n) div 2 ^ 53 in if idx \<ge> n then n - 1 else idx)"

record latency_report =
  lat_min :: int
  lat_p50 :: int
  lat_p90 :: int
  lat_p99 :: int
  lat_p999 :: int
  lat_max :: int

definition latency_statistics :: "int list \<Rightarrow> latency_report res" where
  "latency_statistics latencies =
     (let l = sort latencies; p = (\<lambda>tenths. l ! percentile_index tenths (length l)) in
      if l = [] then Inl (UB Out_Of_Bounds)
      else Inr \<lparr>lat_min = hd l, lat_p50 = p 500, lat_p90 = p 900, lat_p99 = p 990, lat_p999 = p 999, lat_max = last l\<rparr>)"

text \<open>The whole benchmark; \<open>lat i\<close> is what the clock gives for operation \<open>i\<close>.\<close>

definition latency_run :: "bench_io \<Rightarrow> (nat \<Rightarrow> int) \<Rightarrow> int \<Rightarrow> string \<Rightarrow> Client \<Rightarrow> latency_report res" where
  "latency_run io lat ops op_type c = bindE (latencyBenchmark io ops op_type c) (\<lambda>_. latency_statistics (map lat [0..<nat ops]))"

section \<open>The index\<close>

lemma percent_values: "percent 500 = 50 * 2 ^ 46" "percent 900 = 90 * 2 ^ 46" "percent 990 = 99 * 2 ^ 46" "percent 999 = 7029837543348634"
  unfolding percent_def round_div_def Let_def by simp_all

lemma percent_fraction_eqs:
  "percent_fraction 500 = 4503599627370496" "percent_fraction 900 = 8106479329266893" "percent_fraction 990 = 8917127262193582"
  "percent_fraction 999 = 8998192055486252"
  unfolding percent_fraction_def percent_values round_div_def Let_def by simp_all

lemma percent_fraction_values:
  assumes "t \<in> {500, 900, 990, 999}"
  shows "t * 2 ^ 53 \<le> 1000 * percent_fraction t + 2000 \<and> 1000 * percent_fraction t \<le> t * 2 ^ 53 + 2000 \<and> percent_fraction t \<le> 2 ^ 53"
  using assms by (auto simp: percent_fraction_eqs)

text \<open>The product is exact up to \<open>3 n\<close> units of the last place.\<close>

lemma index_product:
  assumes "t \<in> {500, 900, 990, 999}"
  shows "t * n * 2 ^ 53 \<le> 1000 * round53 (percent_fraction t * n) + 3000 * n" "1000 * round53 (percent_fraction t * n) \<le> t * n * 2 ^ 53 + 3000 * n"
proof -
  let ?c = "percent_fraction t" and ?a = "percent_fraction t * n"
  have c: "t * 2 ^ 53 \<le> 1000 * ?c + 2000" "1000 * ?c \<le> t * 2 ^ 53 + 2000" "?c \<le> 2 ^ 53"
    using percent_fraction_values [OF assms] by auto
  have "?a \<le> 2 ^ 53 * n" using c(3) by (rule mult_le_mono1)
  then have r: "?a \<le> round53 ?a + n" "round53 ?a \<le> ?a + n" by (rule round53_close)+
  have "t * 2 ^ 53 * n \<le> (1000 * ?c + 2000) * n" "1000 * ?c * n \<le> (t * 2 ^ 53 + 2000) * n"
    by (rule mult_le_mono1 [OF c(1)], rule mult_le_mono1 [OF c(2)])
  then show "t * n * 2 ^ 53 \<le> 1000 * round53 ?a + 3000 * n" "1000 * round53 ?a \<le> t * n * 2 ^ 53 + 3000 * n"
    using r by (simp_all add: algebra_simps)
qed

lemma index_bounds:
  assumes "t \<in> {500, 900, 990, 999}" "0 < n" "n < 2 ^ 31"
  shows "percentile_index t n = round53 (percent_fraction t * n) div 2 ^ 53" "percentile_index t n < n" "t * n \<le> 1000 * Suc (percentile_index t n)"
proof -
  let ?r = "round53 (percent_fraction t * n)"
  note p = index_product [OF assms(1), of n]
  have "t * n * 2 ^ 53 + 3000 * n \<le> 999 * n * 2 ^ 53 + 3000 * n" using assms(1) by (intro add_le_mono1 mult_le_mono1) auto
  then have "1000 * ?r \<le> 999 * n * 2 ^ 53 + 3000 * n" using p(2) by (rule le_trans [rotated])
  then have "?r < n * 2 ^ 53" using assms(2) by simp
  then have j: "?r div 2 ^ 53 < n" by (simp add: div_less_iff_less_mult)
  then show i: "percentile_index t n = ?r div 2 ^ 53" "percentile_index t n < n" by (simp_all add: percentile_index_def)
  have "?r < Suc (?r div 2 ^ 53) * 2 ^ 53" using dividend_less_div_times [of "2 ^ 53" ?r] by simp
  then have "t * n * 2 ^ 53 < (1000 * Suc (?r div 2 ^ 53) + 1) * 2 ^ 53" using p(1) assms(3) by simp
  then show "t * n \<le> 1000 * Suc (percentile_index t n)" unfolding i(1) using mult_less_cancel2 by (metis Suc_eq_plus1 less_Suc_eq_le)
qed

lemma index_mono:
  assumes "t \<in> {500, 900, 990, 999}" "t' \<in> {500, 900, 990, 999}" "t < t'" "0 < n" "n < 2 ^ 31"
  shows "percentile_index t n \<le> percentile_index t' n"
proof -
  have "t + 9 \<le> t'" using assms(1-3) by auto
  then have "(t + 9) * (n * 2 ^ 53) \<le> t' * (n * 2 ^ 53)" by (rule mult_le_mono1)
  then have "round53 (percent_fraction t * n) \<le> round53 (percent_fraction t' * n)"
    using index_product(2) [OF assms(1), of n] index_product(1) [OF assms(2), of n] by (simp add: algebra_simps)
  then show ?thesis using index_bounds(1) [OF assms(1,4,5)] index_bounds(1) [OF assms(2,4,5)] by (simp add: div_le_mono)
qed

lemma sorted_rank:
  assumes "j < length l"
  shows "Suc j \<le> length (filter (\<lambda>x. x \<le> sort l ! j) l)"
proof -
  have "filter (\<lambda>x. x \<le> sort l ! j) (take (Suc j) (sort l)) = take (Suc j) (sort l)"
    using assms by (auto simp: filter_id_conv in_set_conv_nth intro!: sorted_nth_mono)
  then have "Suc j \<le> length (filter (\<lambda>x. x \<le> sort l ! j) (take (Suc j) (sort l)))" using assms by simp
  also have "\<dots> \<le> length (filter (\<lambda>x. x \<le> sort l ! j) (take (Suc j) (sort l) @ drop (Suc j) (sort l)))" by (simp only: filter_append length_append)
  also have "\<dots> = length (filter (\<lambda>x. x \<le> sort l ! j) l)" by (simp add: filter_sort)
  finally show ?thesis .
qed

section \<open>Properties\<close>

text \<open>C35. The latency report is sound for every number of operations an \<open>int\<close> can hold: the floating-point indices are
  inside the list, the figures are measured latencies in increasing order between the least and the
  greatest, and at least 50, 90, 99 and 99.9 percent of the operations were not slower than the
  figure of that percentile.\<close>

theorem latency_percentiles_correct:
  assumes "latencies \<noteq> []" "length latencies < 2 ^ 31"
  shows "\<exists>r. latency_statistics latencies = Inr r \<and>
    sorted [lat_min r, lat_p50 r, lat_p90 r, lat_p99 r, lat_p999 r, lat_max r] \<and>
    {lat_min r, lat_p50 r, lat_p90 r, lat_p99 r, lat_p999 r, lat_max r} \<subseteq> set latencies \<and>
    (\<forall>(tenths, p)\<in>{(500, lat_p50 r), (900, lat_p90 r), (990, lat_p99 r), (999, lat_p999 r)}.
       tenths * length latencies \<le> 1000 * length (filter (\<lambda>x. x \<le> p) latencies))"
proof -
  let ?l = "sort latencies" and ?n = "length latencies"
  let ?i = "\<lambda>t. percentile_index t ?n"
  have n: "0 < ?n" "?l \<noteq> []" using assms(1) by (auto simp: set_empty [symmetric] simp del: set_empty)
  note bounds = index_bounds [OF _ n(1) assms(2)] and mono = index_mono [OF _ _ _ n(1) assms(2)]
  have ends: "hd ?l = ?l ! 0" "last ?l = ?l ! (?n - 1)" using n(2) by (simp_all add: hd_conv_nth last_conv_nth)
  have le: "?l ! i \<le> ?l ! j" if "i \<le> j" "j < ?n" for i j using that by (simp add: sorted_nth_mono)
  have idx: "?i 500 < ?n" "?i 900 < ?n" "?i 990 < ?n" "?i 999 < ?n" by (rule bounds(2); simp)+
  have ord: "?i 500 \<le> ?i 900" "?i 900 \<le> ?i 990" "?i 990 \<le> ?i 999" by (rule mono; simp)+
  have in_set: "?l ! i \<in> set latencies" if "i < ?n" for i using that nth_mem [of i ?l] by simp
  have rank: "t * ?n \<le> 1000 * length (filter (\<lambda>x. x \<le> ?l ! ?i t) latencies)" if "t \<in> {500, 900, 990, 999}" for t
    by (rule le_trans [OF bounds(3) [OF that] mult_le_mono2 [OF sorted_rank [OF bounds(2) [OF that]]]])
  let ?r = "\<lparr>lat_min = hd ?l, lat_p50 = ?l ! ?i 500, lat_p90 = ?l ! ?i 900, lat_p99 = ?l ! ?i 990, lat_p999 = ?l ! ?i 999, lat_max = last ?l\<rparr>"
  have "latency_statistics latencies = Inr ?r" using n(2) by (simp add: latency_statistics_def Let_def)
  moreover have "?l ! 0 \<le> ?l ! ?i 500" "?l ! ?i 500 \<le> ?l ! ?i 900" "?l ! ?i 900 \<le> ?l ! ?i 990" "?l ! ?i 990 \<le> ?l ! ?i 999" "?l ! ?i 999 \<le> ?l ! (?n - 1)"
    using idx ord n(1) by (auto intro!: le)
  then have "sorted [lat_min ?r, lat_p50 ?r, lat_p90 ?r, lat_p99 ?r, lat_p999 ?r, lat_max ?r]" by (simp add: ends)
  moreover have "{lat_min ?r, lat_p50 ?r, lat_p90 ?r, lat_p99 ?r, lat_p999 ?r, lat_max ?r} \<subseteq> set latencies"
    using idx n(1) by (auto simp: ends intro: in_set)
  moreover have "\<forall>(tenths, p)\<in>{(500, lat_p50 ?r), (900, lat_p90 ?r), (990, lat_p99 ?r), (999, lat_p999 ?r)}.
      tenths * ?n \<le> 1000 * length (filter (\<lambda>x. x \<le> p) latencies)"
    using rank [of 500] rank [of 900] rank [of 990] rank [of 999] by simp
  ultimately show ?thesis by blast
qed

theorem latency_percentiles_correct_witness:
  "\<exists>r. latency_statistics [30, 10, 20] = Inr r \<and> lat_min r \<le> lat_p50 r \<and> lat_p999 r \<in> {30, 10, 20} \<and>
     999 * 3 \<le> 1000 * length (filter (\<lambda>x. x \<le> lat_p999 r) [30, 10, 20])"
proof -
  have "[30, 10, 20 :: int] \<noteq> []" "length [30, 10, 20 :: int] < 2 ^ 31" by simp_all
  from latency_percentiles_correct [OF this] obtain r where r: "latency_statistics [30, 10, 20] = Inr r"
      "sorted [lat_min r, lat_p50 r, lat_p90 r, lat_p99 r, lat_p999 r, lat_max r]"
      "{lat_min r, lat_p50 r, lat_p90 r, lat_p99 r, lat_p999 r, lat_max r} \<subseteq> set [30, 10, 20]"
      "\<forall>(tenths, p)\<in>{(500, lat_p50 r), (900, lat_p90 r), (990, lat_p99 r), (999, lat_p999 r)}.
         tenths * length [30, 10, 20 :: int] \<le> 1000 * length (filter (\<lambda>x. x \<le> p) [30, 10, 20])"
    by blast
  have "999 * length [30, 10, 20 :: int] \<le> 1000 * length (filter (\<lambda>x. x \<le> lat_p999 r) [30, 10, 20])" using r(4) by blast
  moreover have "lat_p999 r \<in> {30, 10, 20}" using r(3) by simp
  moreover have "lat_min r \<le> lat_p50 r" using r(2) by simp
  moreover have "length [30, 10, 20 :: int] = 3" by simp
  ultimately show ?thesis using r(1) by metis
qed

end
