(* ===== verification/Program_Main.thy ===== *)
theory Program_Main
  imports Server_Threads Concurrent_Log Server_Locks Socket_Fds Cluster_Gossip Raft_Groups Latency_Stats
begin

text \<open>
  The entry points \<open>server_main.cpp\<close> and \<open>client_main.cpp\<close>: how the arguments are read and which part of the
  program they start.  \<open>args\<close> is \<open>argv\<close> with the program name first.
\<close>

section \<open>Numbers\<close>

text \<open>\<open>std::atoi\<close>: leading white space, a sign, digits; what follows is ignored.  The result is undefined when the
  number does not fit into an \<open>int\<close>.\<close>

definition atoi :: "string \<Rightarrow> int res" where
  "atoi str =
     (let t = dropWhile is_space str;
          neg = (t \<noteq> [] \<and> hd t = CHR ''-'');
          d = (if t \<noteq> [] \<and> hd t \<in> {CHR ''-'', CHR ''+''} then tl t else t);
          n = int (dec_value 0 (takeWhile is_digit d));
          v = (if neg then - n else n)
      in if - (2 ^ 31) \<le> v \<and> v < 2 ^ 31 then Inr v else Inl (UB Signed_Overflow))"

section \<open>Server\<close>

record server_options =
  server_ip :: string
  server_port :: u16
  bootstrap :: "string \<times> u16"

text \<open>\<open>None\<close>: the usage is printed.  The conversion to \<open>uint16_t\<close> keeps the low 16 bits.\<close>

definition parse_server_args :: "string list \<Rightarrow> server_options option res" where
  "parse_server_args args =
     (if length args < 3 then Inr None
      else bindE (atoi (args ! 2)) (\<lambda>p.
        if length args \<ge> 6 \<and> args ! 3 = ''--join'' then
          bindE (atoi (args ! 5)) (\<lambda>q. Inr (Some \<lparr>server_ip = args ! 1, server_port = of_int p, bootstrap = (args ! 4, of_int q)\<rparr>))
        else Inr (Some \<lparr>server_ip = args ! 1, server_port = of_int p, bootstrap = ([], 0)\<rparr>)))"

text \<open>What the world does while the server starts and runs: the exceptions of the socket set-up, the files on disk,
  the clocks and random numbers, the exchange with the bootstrap node and the steps of the main loop.\<close>

record start_io =
  sock_setup :: "unit res"
  aof_opened :: bool
  snapshot_dir :: directory
  aof_content :: string
  raft_logs :: "u64 \<rightharpoonup> string"
  start_time :: int
  start_uuid :: u64
  join_io_of :: join_io
  join_time :: u64
  join_gossip :: u64
  main_rand :: "nat \<Rightarrow> nat"
  main_steps :: "step_io list"
  stop_time :: u64
  stop_gossip :: u64

definition start_server :: "start_io \<Rightarrow> server_options \<Rightarrow> Loop res" where
  "start_server io opts = bindE (sock_setup io) (\<lambda>_.
     bindE (new_Server (aof_opened io) (snapshot_dir io) (aof_content io) (start_time io) (start_uuid io) (server_ip opts)
       (server_port opts) (raft_logs io)) (\<lambda>s.
     let l = \<lparr>srv = s, socks = [], pool = new_ThreadPool THREAD_COUNT, raft_msg_queue = [], wire = []\<rparr> in
     if fst (bootstrap opts) \<noteq> [] then
       joinCluster (join_io_of io) (fst (bootstrap opts)) (snd (bootstrap opts)) (join_time io) (join_gossip io) l
     else Inr l))"

text \<open>The exit code, or how the process dies.  An exception outside \<open>run\<close> is caught and reported; \<open>gracefulShutdown\<close>
  after an exception of the loop may again throw, which this outcome does not tell.\<close>

datatype outcome = Exit_Code int | Ran run_result | Crash kv_error

definition server_main :: "start_io \<Rightarrow> string list \<Rightarrow> outcome" where
  "server_main io args = (case parse_server_args args of
     Inl e \<Rightarrow> Crash e
   | Inr None \<Rightarrow> Exit_Code 1
   | Inr (Some opts) \<Rightarrow> (case start_server io opts of
       Inl e \<Rightarrow> if caught e then Exit_Code 1 else Crash e
     | Inr l \<Rightarrow> Ran (server_run (main_rand io) (stop_time io) (stop_gossip io) (main_steps io) l)))"

section \<open>Client\<close>

record client_options =
  client_ip :: string
  client_port :: u16
  enable_benchmark :: bool
  enable_latency :: bool
  benchmark_ops :: int
  benchmark_type :: string
  num_threads :: int

text \<open>The loop that looks for \<open>--threads\<close> followed by a number.\<close>

fun find_threads :: "string list \<Rightarrow> int \<Rightarrow> int res" where
  "find_threads (a # n # rest) default_threads = (if a = ''--threads'' then atoi n else find_threads (n # rest) default_threads)"
| "find_threads rest default_threads = Inr default_threads"

definition parse_client_args :: "string list \<Rightarrow> client_options option res" where
  "parse_client_args args =
     (if length args < 3 then Inr None
      else bindE (atoi (args ! 2)) (\<lambda>p.
        let opts = \<lparr>client_ip = args ! 1, client_port = of_int p, enable_benchmark = False, enable_latency = False,
              benchmark_ops = 10000, benchmark_type = ''set'', num_threads = 1\<rparr> in
        if length args \<ge> 5 then
          let cmd = args ! 3; ty = (if length args \<ge> 6 then args ! 5 else ''set'') in
          bindE (if cmd = ''--benchmark'' then
                   bindE (atoi (args ! 4)) (\<lambda>n. Inr (opts\<lparr>enable_benchmark := True, benchmark_ops := n, benchmark_type := ty\<rparr>))
                 else if cmd = ''--latency'' then
                   bindE (atoi (args ! 4)) (\<lambda>n. Inr (opts\<lparr>enable_latency := True, benchmark_ops := n, benchmark_type := ty\<rparr>))
                 else Inr opts) (\<lambda>opts.
          bindE (find_threads (drop 3 args) 1) (\<lambda>n. Inr (Some (opts\<lparr>num_threads := n\<rparr>))))
        else Inr (Some opts)))"

datatype client_mode = Benchmark_Threads nat | Latency_Threads nat | Latency_Once | Benchmark_Once | Prompt

definition client_mode_of :: "client_options \<Rightarrow> client_mode" where
  "client_mode_of o1 =
     (if enable_benchmark o1 \<and> num_threads o1 > 1 then Benchmark_Threads (nat (num_threads o1))
      else if enable_latency o1 \<and> num_threads o1 > 1 then Latency_Threads (nat (num_threads o1))
      else if enable_latency o1 then Latency_Once
      else if enable_benchmark o1 then Benchmark_Once
      else Prompt)"

text \<open>What the world does to one client.\<close>

record client_io =
  own_uuid :: u64
  boot_fd :: "int res"
  network :: network_io
  bench :: bench_io
  prompt :: "(line_io \<times> string) list"

definition start_client :: "client_io \<Rightarrow> client_options \<Rightarrow> Client res" where
  "start_client io opts = new_Client (own_uuid io) (boot_fd io) (network io) (client_ip opts) (client_port opts)"

definition load_thread :: "(bench_io \<Rightarrow> int \<Rightarrow> string \<Rightarrow> Client \<Rightarrow> Bench res) \<Rightarrow> client_io \<Rightarrow> client_options \<Rightarrow> unit res" where
  "load_thread f io opts = bindE (start_client io opts) (\<lambda>c.
     bindE (f (bench io) (benchmark_ops opts) (benchmark_type opts) c) (\<lambda>_. Inr ()))"

text \<open>A thread reports an exception and ends; \<open>join_threads\<close> gives the reports, or what keeps the first thread that does
  not end from ending.\<close>

fun join_threads :: "unit res list \<Rightarrow> kv_error list res" where
  "join_threads [] = Inr []"
| "join_threads (Inr _ # ts) = join_threads ts"
| "join_threads (Inl e # ts) = (if caught e then bindE (join_threads ts) (\<lambda>es. Inr (e # es)) else Inl e)"

text \<open>The exit code, the reported exceptions and the total that is printed, or how the process dies.\<close>

datatype client_outcome = Client_Exit int "kv_error list" "int option" | Client_Dies kv_error

definition run_threads :: "unit res list \<Rightarrow> int option res \<Rightarrow> client_outcome" where
  "run_threads ts ops = (case bindE (join_threads ts) (\<lambda>es. bindE ops (\<lambda>t. Inr (es, t))) of
     Inl e \<Rightarrow> Client_Dies e
   | Inr (es, t) \<Rightarrow> Client_Exit 0 es t)"

definition run_single :: "unit res \<Rightarrow> client_outcome" where
  "run_single r = (case r of
     Inr _ \<Rightarrow> Client_Exit 0 [] None
   | Inl e \<Rightarrow> if caught e then Client_Exit 1 [e] None else Client_Dies e)"

text \<open>\<open>int total_ops = benchmark_ops * num_threads\<close>.\<close>

definition total_ops :: "client_options \<Rightarrow> int option res" where
  "total_ops opts = (let t = benchmark_ops opts * num_threads opts in
     if - (2 ^ 31) \<le> t \<and> t < 2 ^ 31 then Inr (Some t) else Inl (UB Signed_Overflow))"

definition client_main :: "(nat \<Rightarrow> client_io) \<Rightarrow> string list \<Rightarrow> client_outcome" where
  "client_main io args = (case parse_client_args args of
     Inl e \<Rightarrow> Client_Dies e
   | Inr None \<Rightarrow> Client_Exit 1 [] None
   | Inr (Some opts) \<Rightarrow> (case client_mode_of opts of
       Benchmark_Threads n \<Rightarrow> run_threads (map (\<lambda>i. load_thread benchmark (io i) opts) [0..<n]) (total_ops opts)
     | Latency_Threads n \<Rightarrow> run_threads (map (\<lambda>i. load_thread latencyBenchmark (io i) opts) [0..<n]) (Inr None)
     | Latency_Once \<Rightarrow> run_single (load_thread latencyBenchmark (io 0) opts)
     | Benchmark_Once \<Rightarrow> run_single (load_thread benchmark (io 0) opts)
     | Prompt \<Rightarrow> run_single (bindE (start_client (io 0) opts) (\<lambda>c. bindE (client_run (prompt (io 0)) c) (\<lambda>_. Inr ())))))"

section \<open>Arguments are read as they are written\<close>

lemma atoi_to_string:
  assumes "n < 2 ^ 31"
  shows "atoi (to_string n) = Inr (int n)"
proof -
  have d: "\<forall>c\<in>set (to_string n). is_digit c" by (rule to_string_digits)
  obtain c cs where c: "to_string n = c # cs" using to_string_not_Nil [of n] by (cases "to_string n") auto
  then have "is_digit c" using d by simp
  then have "c \<noteq> CHR ''-''" "c \<noteq> CHR ''+''" "\<not> is_space c" using digit_not_space by auto
  moreover have "takeWhile is_digit (to_string n) = to_string n" using d by (simp add: takeWhile_eq_all_conv)
  moreover have "int n < 2 ^ 31" using assms by simp
  ultimately show ?thesis using c dec_value_to_string [of n] by (simp add: atoi_def Let_def)
qed

lemma port_text: "atoi (to_string (unat (p :: u16))) = Inr (int (unat p))"
proof -
  have "unat p < 2 ^ 16" using unsigned_less [of p, where ?'a = nat] by simp
  then show ?thesis by (intro atoi_to_string) simp
qed

text \<open>A server started with an address and a port, with or without a node to join, gets exactly these.\<close>

lemma server_args_roundtrip:
  "parse_server_args [prog, addr, to_string (unat p)] = Inr (Some \<lparr>server_ip = addr, server_port = p, bootstrap = ([], 0)\<rparr>) \<and>
   parse_server_args [prog, addr, to_string (unat p), ''--join'', addr', to_string (unat q)] =
     Inr (Some \<lparr>server_ip = addr, server_port = p, bootstrap = (addr', q)\<rparr>)"
  by (simp add: parse_server_args_def port_text numeral_eq_Suc)

text \<open>A port number beyond 16 bits is cut without a message.\<close>

lemma server_port_truncated:
  assumes "n < 2 ^ 31"
  shows "parse_server_args [prog, addr, to_string n] = Inr (Some \<lparr>server_ip = addr, server_port = of_nat n, bootstrap = ([], 0)\<rparr>)"
  by (simp add: parse_server_args_def atoi_to_string [OF assms])

text \<open>The benchmark line of the documentation starts that many threads with these operations.\<close>

lemma client_args_roundtrip:
  assumes "n < 2 ^ 31" "t < 2 ^ 31" "ty \<noteq> ''--threads''"
  shows "\<exists>opts. parse_client_args [prog, addr, to_string (unat p), ''--benchmark'', to_string n, ty, ''--threads'', to_string t] = Inr (Some opts) \<and>
    client_ip opts = addr \<and> client_port opts = p \<and> num_threads opts = int t \<and> benchmark_ops opts = int n \<and> benchmark_type opts = ty \<and>
    client_mode_of opts = (if t > 1 then Benchmark_Threads t else Benchmark_Once)"
proof -
  have "CHR ''-'' \<notin> set (to_string n)" by (rule to_string_nonmember) simp
  then have "to_string n \<noteq> ''--threads''" by auto
  moreover have "drop 3 (a # b # c # rest) = rest" for a b c :: string and rest by (simp add: numeral_3_eq_3)
  ultimately show ?thesis using assms(3) atoi_to_string [OF assms(1)] atoi_to_string [OF assms(2)] port_text [of p]
    by (simp add: parse_client_args_def Let_def client_mode_of_def)
qed

section \<open>A started server is sound\<close>

lemma recover_ok:
  assumes "recover s = Inr s'" "server_ok s"
  shows "server_ok s'"
proof -
  obtain p where p: "foldE recover_block (new_RespParser, s) (blocks (aof_file (aof s))) = Inr (p, s')"
    using assms(1) by (auto simp: recover_def elim!: bindE_InrE)
  have run: "server_ok t'" if "foldE run_noAOF t vs = Inr t'" "server_ok t" for t t' vs
    using foldE_invariant [where P = server_ok, OF that(1)] that(2) run_noAOF_ok by blast
  have "case (p, s') of (p, t) \<Rightarrow> server_ok t"
    by (rule foldE_invariant [where P = "\<lambda>(p, t). server_ok t", OF p])
      (use assms(2) run in \<open>auto simp: recover_block_def elim!: bindE_InrE\<close>)
  then show ?thesis by simp
qed

lemma joinCluster_ok:
  assumes "joinCluster io bip bport now g l = Inr l'" "loop_ok l"
  shows "loop_ok l'"
proof -
  obtain fd ns w where l': "l' = l\<lparr>srv := (markSyncing (int (length ns)) (srv l))\<lparr>cluster := addGossip now g (fold (learn_node bip bport fd) ns (cluster (srv l)))\<rparr>,
      socks := map_insert fd new_RespParser (socks l), wire := w\<rparr>"
    using assms(1) by (auto simp: joinCluster_def Let_def markSyncing_def elim!: bindE_InrE split: prod.splits)
  have "cluster_ok (fold (learn_node bip bport fd) ns c)" if "cluster_ok c" for c
    using that by (induction ns arbitrary: c) (simp_all add: learn_node_def Let_def cluster_ops_ok)
  then have "server_ok ((markSyncing (int (length ns)) (srv l))\<lparr>cluster := addGossip now g (fold (learn_node bip bport fd) ns (cluster (srv l)))\<rparr>)"
    using assms(2) by (simp add: loop_ok_def server_ok_def markSyncing_def addGossip_ok)
  then show ?thesis using loop_ok_insert [OF assms(2) parser_ok_new, of fd] by (simp add: l' loop_ok_def)
qed

text \<open>Without snapshot files, whatever the log holds, a server that starts is in a sound state.\<close>

lemma start_server_ok:
  assumes "start_server io opts = Inr l" "snapshot_dir io = Map.empty"
  shows "loop_ok l"
proof -
  obtain s where s: "new_Server (aof_opened io) Map.empty (aof_content io) (start_time io) (start_uuid io) (server_ip opts) (server_port opts) (raft_logs io) = Inr s"
    using assms by (auto simp: start_server_def elim!: bindE_InrE)
  let ?l = "\<lparr>srv = s, socks = [], pool = new_ThreadPool THREAD_COUNT, raft_msg_queue = [], wire = []\<rparr>"
  have "kv_readfromfile Map.empty kv = Inr kv" for kv
  proof -
    have "foldE (read_shard Map.empty) kv js = Inr kv" for js by (induction js) (simp_all add: read_shard_def)
    then show ?thesis by (simp add: kv_readfromfile_def)
  qed
  moreover have "server_ok (idle_Server a u addr p logs)" for a u addr p logs
    using new_Cluster_ok(2) kv.invar_new by (simp add: server_ok_def idle_Server_def sorted_map_def)
  ultimately have "server_ok s" using s by (auto simp: new_Server_def Let_def intro: recover_ok elim!: bindE_InrE)
  then have "loop_ok ?l" using new_ThreadPool_ok by (simp add: loop_ok_def sorted_map_def ran_def new_ThreadPool_def)
  moreover have "l = ?l \<or> (\<exists>bip bport. joinCluster (join_io_of io) bip bport (join_time io) (join_gossip io) ?l = Inr l)"
    using assms s by (auto simp: start_server_def Let_def elim!: bindE_InrE split: if_splits)
  ultimately show ?thesis using joinCluster_ok by auto
qed

section \<open>The client as a program\<close>

lemma join_failed: "\<forall>t\<in>set ts. \<exists>e. t = Inl e \<and> caught e \<Longrightarrow> \<exists>es. join_threads ts = Inr es \<and> length es = length ts"
  by (induction ts rule: join_threads.induct) auto

text \<open>A client alone that cannot connect fails with exit code 1; a benchmark of several threads none of which can connect
  succeeds and reports all operations as done.\<close>

theorem failed_benchmark_succeeds:
  assumes "\<And>i. \<exists>e. boot_fd (io i) = Inl e \<and> caught e" "n * t < 2 ^ 31" "n < 2 ^ 31" "t < 2 ^ 31" "ty \<noteq> ''--threads''"
  shows "\<exists>es. length es = max 1 t \<and>
    client_main io [prog, addr, to_string (unat (p :: u16)), ''--benchmark'', to_string n, ty, ''--threads'', to_string t] =
      (if t > 1 then Client_Exit 0 es (Some (int (n * t))) else Client_Exit 1 es None)"
proof -
  have fails: "\<exists>e. load_thread f (io i) opts = Inl e \<and> caught e" for f i opts
    using assms(1) [of i] by (auto simp: load_thread_def start_client_def new_Client_def)
  obtain opts where opts: "parse_client_args [prog, addr, to_string (unat p), ''--benchmark'', to_string n, ty, ''--threads'', to_string t] = Inr (Some opts)"
      "benchmark_ops opts = int n" "num_threads opts = int t" "client_mode_of opts = (if t > 1 then Benchmark_Threads t else Benchmark_Once)"
    using client_args_roundtrip [OF assms(3-5), of prog addr p] by auto
  have "int n * int t < 2 ^ 31" using assms(2) by (metis of_nat_less_numeral_power_cancel_iff of_nat_mult)
  then have total: "total_ops opts = Inr (Some (int (n * t)))" by (simp add: total_ops_def opts(2,3) order_trans [of _ 0])
  show ?thesis
  proof (cases "t > 1")
    case True
    obtain es where "join_threads (map (\<lambda>i. load_thread benchmark (io i) opts) [0..<t]) = Inr es" "length es = t"
      using join_failed [of "map (\<lambda>i. load_thread benchmark (io i) opts) [0..<t]"] fails by auto
    then show ?thesis using True opts(1,4) total by (intro exI [of _ es]) (simp add: client_main_def run_threads_def max_def)
  next
    case False
    obtain e where "load_thread benchmark (io 0) opts = Inl e" "caught e" using fails by blast
    then show ?thesis using False opts(1,4) by (intro exI [of _ "[e]"]) (simp add: client_main_def run_single_def max_def)
  qed
qed

end
