(* ===== verification/Spec2Isabelle.thy ===== *)
theory Spec2Isabelle
  imports Program_Main
begin

text \<open>
  A verification development for kvjet, a distributed in-memory key-value store: servers that keep
  a sharded hash table, log and snapshot it, agree on a consistent-hashing ring, exchange membership by
  gossip and run a Raft group per node, and a client that routes commands to them.  File names below
  are relative to the source directory of the repository.

  \<^bold>\<open>How the program is put together.\<close>  A client types a line; \<open>client/Client.cpp\<close> turns it into a RESP
  array, chooses a node by the ring and sends the bytes.  The main thread of a server
  (\<open>server/Server.cpp\<close>) reads them through the incremental parser of \<open>resp/\<close> and hands each message to
  the pool of \<open>util/ThreadPool.cpp\<close>; a worker runs the handler of \<open>server/Handler.cpp\<close>, which asks
  \<open>util/Cluster.cpp\<close> for the owner of the key, proposes the command to the Raft group
  (\<open>raft/RaftNode.cpp\<close>), appends it to the log (\<open>kvstore/AOF.cpp\<close>), changes the store
  (\<open>kvstore/KVStore.cpp\<close> over \<open>HashTable.cpp\<close> and \<open>LRU.cpp\<close>) and queues the answer, which the main
  thread sends.

  \<^bold>\<open>Modelling conventions.\<close>  Classes are records, enumerations and variants are datatypes, operations are
  functions that take the state and return it updated; \<open>'a res\<close> is the sum of a \<open>kv_error\<close> and a result, and
  each exception, undefined behaviour, self-deadlock and endless wait of the source is a value of
  \<open>kv_error\<close> (\<open>KV_Prelude\<close>).  Fixed-width integers are words.  \<open>std::map\<close> is a sorted association list
  (\<open>Std_Map\<close>).  Clocks, random numbers and the answers of the kernel (bytes that arrive, how much a \<open>send\<close>
  takes, descriptors of new connections, the content of files) are arguments.  Operations that the source
  protects with one mutex are one step.  An operation that throws gives the error and no state; what the
  program keeps of a handler that throws half way is told by its critical sections (\<open>Handler_Sections\<close>),
  where everything before the section that throws stays done.

  \<^bold>\<open>Theories.\<close>
  \<^item> \<open>KV_Prelude\<close>: errors, results, loops with errors (\<open>foldE\<close>), decimal numerals, words of a line, and the
    interface \<open>stream_codec\<close> of an encoder with an incremental reader.
  \<^item> \<open>Resp_Value\<close>, \<open>Resp_Encoder\<close>, \<open>Resp_Parser\<close> (\<open>resp/\<close>): the messages, \<open>encode\<close>, and the state machine of
    \<open>RespParser::append\<close>.  \<open>Resp_Parser\<close> interprets \<open>stream_codec\<close>: streams of encoded messages are read
    back however they are cut, every delivered message is well formed, and the failures are listed.
  \<^item> \<open>Map_Interface\<close>: the interfaces \<open>fallible_map\<close> and \<open>total_map\<close> of a store that may throw, with the
    refinement of a map proved once.  \<open>Hash_Table\<close> (\<open>kvstore/HashTable.cpp\<close>: probing, tombstones,
    doubling) and \<open>KV_Store\<close> (\<open>kvstore/KVStore.cpp\<close>) interpret them; \<open>Lru_Cache\<close> (\<open>kvstore/LRU.cpp\<close>)
    models the recency list with node identities, so that a dangling iterator would show.
  \<^item> \<open>Snapshot\<close>: the snapshot files byte by byte, written and read back.
  \<^item> \<open>Std_Map\<close>, \<open>Hash_Ring\<close>, \<open>Cluster_State\<close> (\<open>util/Cluster.cpp\<close>): the ring with its 160 positions per node,
    lookup, replica search, topology, connections, heartbeats and gossip.  The interface \<open>virtual_ring\<close>
    assumes only that unrelated nodes have disjoint positions; its interpretation rests on the
    bijectivity of the hash.  The ring depends only on its members, and membership changes move as few
    keys as consistent hashing promises.
  \<^item> \<open>Node_Utils\<close> (\<open>util/Utils.cpp\<close>, the topology encoders of \<open>resp/RespEncoder.cpp\<close>): nodes, topologies and
    groups on the wire.
  \<^item> \<open>Raft_Codec\<close>, \<open>Raft_Node\<close>, \<open>Raft_Safety\<close> (\<open>raft/RaftNode.cpp\<close>): messages, timers, elections, the log and its
    file; what holds of all reachable states.
  \<^item> \<open>Server_State\<close>, \<open>Server_Handler\<close>, \<open>Aof_Recovery\<close>, \<open>Server_Protocol\<close> (\<open>server/Handler.cpp\<close>,
    \<open>kvstore/AOF.cpp\<close>, the tables of \<open>server/Server.cpp\<close>): every handler, the append-only file and recovery.
    The answers clients get are those of a map, and a crash keeps a prefix of the requests.
  \<^item> \<open>Thread_Pool\<close> (\<open>util/ThreadPool.cpp\<close>): the pool as a step relation, one step per critical section.
  \<^item> \<open>Net_Io\<close>, \<open>Server_Loop\<close>, \<open>Loop_Properties\<close>, \<open>Cluster_Join\<close> (\<open>server/Server.cpp\<close>): the loops around \<open>::send\<close>
    and \<open>::recv\<close>, \<open>epoll_step\<close>, \<open>run\<close>, \<open>gracefulShutdown\<close> and \<open>joinCluster\<close>.
  \<^item> \<open>Server_Invariant\<close>: what a sound server is, that every operation keeps it, and the requests that lead to
    undefined behaviour.
  \<^item> \<open>Raft_Groups\<close> (\<open>Server::initRaftGroups\<close>): the groups that the nodes compute for themselves agree, and building
    them applies the whole log of each group to the store again.
  \<^item> \<open>Handler_Sections\<close>, \<open>Concurrent_Handlers\<close>, \<open>Concurrent_Log\<close> (\<open>server/Handler.cpp\<close>): the handlers as sequences of
    critical sections, equal to the handlers above when nothing interrupts them.  Data commands of any
    number of workers are linearizable; the log restores every key whose writers agreed, and two writers of
    one key can leave a log that contradicts the store.
  \<^item> \<open>Snapshot_Thread\<close> (\<open>Server::snapshotLoop\<close>): the thread, its children and the files they share.  The log is cut
    only behind a complete snapshot as long as no call fails; what follows when the child throws.
  \<^item> \<open>Server_Threads\<close>: all threads of a server as one transition system (main loop, sections of the workers,
    heartbeats, snapshot processes) and its invariant.
  \<^item> \<open>Lock_Order\<close>, \<open>Server_Locks\<close>: threads that take locks, an interface \<open>ranked_programs\<close> for programs that follow an
    order, and the lock operations of every function.  Workers and heartbeats follow an order and never
    block one another; the main loop does not follow it.
  \<^item> \<open>Socket_Fds\<close> (\<open>util/Socket.cpp\<close>, construction, \<open>accept\<close> and destruction of \<open>Server\<close>): socket objects and the open
    descriptors; every descriptor has one owner on every path.
  \<^item> \<open>Data_Migration\<close>: two servers, the bytes one sends and what the other does with them, when a node leaves
    and when a node joins.
  \<^item> \<open>Cluster_Gossip\<close>: any number of servers joined by byte channels, as one transition system whose steps send, deliver
    and handle messages in any order.  The news that a node has left reaches every server that is linked, over any
    number of others, to one that heard it, after a bounded number of steps, and then the network is silent.
  \<^item> \<open>Kv_Client\<close>, \<open>Client_Properties\<close>, \<open>Client_Bench\<close> (\<open>client/Client.cpp\<close>): commands, routing, exchange, topology
    and prompt of the client, its agreement with the cluster, and the load generators.
  \<^item> \<open>Latency_Stats\<close> (\<open>Client::latencyBenchmark\<close>): the percentiles a latency test prints, with the rounding of the product of
    two \<open>double\<close> numbers written out on integers.
  \<^item> \<open>Program_Main\<close> (\<open>server_main.cpp\<close>, \<open>client_main.cpp\<close>): how the arguments are read and what they start, with the
    threads of a load test and the exit code; a server that starts without snapshot files is in a sound state.

  \<^bold>\<open>Loops.\<close>  Loops over containers and byte strings are structural or have a measure and are total.  The replica
  search of \<open>Cluster::queryReplicas\<close> may not end and is a \<open>partial_function\<close> whose value \<open>None\<close> is exactly
  non-termination.  Loops that wait for bytes get everything that will ever arrive as an argument and end
  with \<open>Hang\<close> when it is used up; theorems that such a loop returns are proved as such.  No fuel is used.

  \<^bold>\<open>Bounds of the concurrent models.\<close>  \<open>Server_Threads\<close> interleaves the sections of the workers with whole rounds of the
  main loop and of the heartbeat thread.  A section is a call of an operation of the store, the log, the
  cluster or the queue; operations of the cluster that take several locks in a row are one section.  A fork
  happens between two sections.  Reads without a lock of fields that another thread changes (the tables of
  Raft groups, a pointer to a Raft node held while the groups are rebuilt) are undefined in C++ and not described.
  \<open>Server_Locks\<close> follows every lock operation on its own, for all contents of the tables.

  \<^bold>\<open>What is not modelled.\<close>  The fields of socket addresses; the events and the eventfd beyond the descriptors they
  occupy; buffers inside \<open>std::ofstream\<close>; the signal handler, which only sets the flag that ends the main
  loop; clock readings, the average and the operations per second that the load generators print; exhaustion of
  memory and of threads.  Hash collisions of 64-bit identities that chain into each other are excluded by
  an explicit hypothesis (\<open>chained\<close>) where they matter.  What remains of the sources without a counterpart are
  declarations in headers and accessors.

  \<^bold>\<open>Open.\<close>  In \<open>Cluster_Gossip\<close> a handler is one step and the channels lose nothing; messages on a connection that breaks,
  and the connections that a joining node opens to all others, are followed only between two servers
  (\<open>Cluster_Join\<close>, \<open>Data_Migration\<close>).
\<close>

end
